(* ===== verification/Prelude.thy ===== *)
theory Prelude
  imports Main "HOL-Library.Word" "HOL-Library.Sublist"
begin

text \<open>
  The shared vocabulary of the development: the machine integer types, the operations of
  the Rust standard library on strings and numbers that the sources call, and the generic
  lemmas on them that the component theories rely on.

  A Rust \<^verbatim>\<open>String\<close> is a \<^typ>\<open>string\<close>, that is the list of its UTF-8 bytes, so
  \<^verbatim>\<open>len()\<close> is \<^const>\<open>length\<close>. Searching, splitting and trimming for ASCII
  characters is the same on bytes and on code points, because a byte of a multi-byte
  UTF-8 sequence is never ASCII. Case mapping is the ASCII one: bytes above 127 are left
  alone (the sources compare the result with ASCII constants, and methods, header names and the header
  values read with \<^verbatim>\<open>to_str\<close> are ASCII). The case of other letters, which can occur in the file names of a form and in
  what JavaScript passes, is outside the model.

  The collection \<open>rust_str\<close> gathers the rewrite rules on strings.
\<close>

named_theorems rust_str "rewrite rules on the string operations of the standard library"

type_synonym u8 = "8 word"
type_synonym u16 = "16 word"
type_synonym u32 = "32 word"
type_synonym u64 = "64 word"
type_synonym bytes = "u8 list"

section \<open>Strings\<close>

text \<open>\<^verbatim>\<open>str::split(char)\<close>: always at least one piece.\<close>

fun split_on :: "char \<Rightarrow> string \<Rightarrow> string list" where
  "split_on c [] = [[]]"
| "split_on c (x # xs) =
     (if x = c then [] # split_on c xs
      else (case split_on c xs of [] \<Rightarrow> [[x]] | p # ps \<Rightarrow> (x # p) # ps))"

text \<open>\<^verbatim>\<open>[String]::join(sep)\<close>.\<close>

fun join :: "string \<Rightarrow> string list \<Rightarrow> string" where
  "join sep [] = []"
| "join sep [x] = x"
| "join sep (x # y # ys) = x @ sep @ join sep (y # ys)"

definition lower_char :: "char \<Rightarrow> char" where
  "lower_char c =
     (let n = of_char c :: nat in if 65 \<le> n \<and> n \<le> 90 then char_of (n + 32) else c)"

definition upper_char :: "char \<Rightarrow> char" where
  "upper_char c =
     (let n = of_char c :: nat in if 97 \<le> n \<and> n \<le> 122 then char_of (n - 32) else c)"

definition to_lowercase :: "string \<Rightarrow> string" where
  "to_lowercase = map lower_char"

definition to_uppercase :: "string \<Rightarrow> string" where
  "to_uppercase = map upper_char"

text \<open>ASCII white space as \<^verbatim>\<open>char::is_whitespace\<close> has it: tab to carriage return, and space.\<close>

definition is_ws :: "char \<Rightarrow> bool" where
  "is_ws c = (let n = of_char c :: nat in (9 \<le> n \<and> n \<le> 13) \<or> n = 32)"

definition trim :: "string \<Rightarrow> string" where
  "trim s = rev (dropWhile is_ws (rev (dropWhile is_ws s)))"

definition starts_with :: "'a list \<Rightarrow> 'a list \<Rightarrow> bool" where
  "starts_with s p = (take (length p) s = p)"

definition ends_with :: "string \<Rightarrow> string \<Rightarrow> bool" where
  "ends_with s p = starts_with (rev s) (rev p)"

definition strip_prefix :: "string \<Rightarrow> string \<Rightarrow> string option" where
  "strip_prefix s p = (if starts_with s p then Some (drop (length p) s) else None)"

definition strip_suffix :: "string \<Rightarrow> string \<Rightarrow> string option" where
  "strip_suffix s p =
     (if ends_with s p then Some (take (length s - length p) s) else None)"

fun contains_str :: "string \<Rightarrow> string \<Rightarrow> bool" where
  "contains_str [] p = (p = [])"
| "contains_str (x # xs) p = (starts_with (x # xs) p \<or> contains_str xs p)"

definition is_digit :: "char \<Rightarrow> bool" where
  "is_digit c = (let n = of_char c :: nat in 48 \<le> n \<and> n \<le> 57)"

definition is_ascii_alphanumeric :: "char \<Rightarrow> bool" where
  "is_ascii_alphanumeric c =
     (let n = of_char c :: nat
      in (48 \<le> n \<and> n \<le> 57) \<or> (65 \<le> n \<and> n \<le> 90) \<or> (97 \<le> n \<and> n \<le> 122))"

definition str_bytes :: "string \<Rightarrow> bytes" where
  "str_bytes = map (\<lambda>c. of_nat (of_char c))"

definition bytes_str :: "bytes \<Rightarrow> string" where
  "bytes_str = map (\<lambda>w. char_of (unat w))"

section \<open>Numbers and their text form\<close>

definition digit_char :: "nat \<Rightarrow> char" where
  "digit_char n = (if n < 10 then char_of (48 + n) else char_of (87 + n))"

text \<open>Positional notation, most significant digit first: \<^verbatim>\<open>{}\<close> is base 10, \<^verbatim>\<open>{:x}\<close> base 16.\<close>

fun show_base :: "nat \<Rightarrow> nat \<Rightarrow> string" where
  "show_base b n =
     (if b < 2 \<or> n < b then [digit_char n]
      else show_base b (n div b) @ [digit_char (n mod b)])"

declare show_base.simps [simp del]

definition show_nat :: "nat \<Rightarrow> string" where
  "show_nat n = show_base 10 n"

definition show_int :: "int \<Rightarrow> string" where
  "show_int i = (if i < 0 then CHR ''-'' # show_nat (nat (- i)) else show_nat (nat i))"

definition show_hex :: "nat \<Rightarrow> string" where
  "show_hex n = show_base 16 n"

text \<open>Zero padding to a width, as \<^verbatim>\<open>{:016x}\<close> does.\<close>

definition pad_left :: "nat \<Rightarrow> string \<Rightarrow> string" where
  "pad_left w s = replicate (w - length s) (CHR ''0'') @ s"

fun digits_val :: "nat \<Rightarrow> string \<Rightarrow> nat option" where
  "digits_val acc [] = Some acc"
| "digits_val acc (c # cs) =
     (if is_digit c then digits_val (10 * acc + (of_char c - 48)) cs else None)"

text \<open>
  \<^verbatim>\<open>str::parse::<u64>()\<close>: an optional plus sign, at least one digit, no overflow.
  \<^verbatim>\<open>str::parse::<i64>()\<close> also takes a minus sign.
\<close>

definition parse_u64 :: "string \<Rightarrow> nat option" where
  "parse_u64 s =
     (let t = (case s of [] \<Rightarrow> [] | c # cs \<Rightarrow> if c = CHR ''+'' then cs else s)
      in if t = [] then None
         else (case digits_val 0 t of
                 None \<Rightarrow> None
               | Some n \<Rightarrow> if n < 2 ^ 64 then Some n else None))"

definition parse_i64 :: "string \<Rightarrow> int option" where
  "parse_i64 s =
     (let neg = (s \<noteq> [] \<and> hd s = CHR ''-'');
          t = (if s \<noteq> [] \<and> (hd s = CHR ''-'' \<or> hd s = CHR ''+'') then tl s else s)
      in if t = [] then None
         else (case digits_val 0 t of
                 None \<Rightarrow> None
               | Some n \<Rightarrow>
                   if neg then (if n \<le> 2 ^ 63 then Some (- int n) else None)
                   else (if n < 2 ^ 63 then Some (int n) else None)))"

text \<open>\<^verbatim>\<open>u64::saturating_add\<close> and \<^verbatim>\<open>saturating_sub\<close>, on values below \<open>2 ^ 64\<close>.\<close>

definition sat_add64 :: "nat \<Rightarrow> nat \<Rightarrow> nat" where
  "sat_add64 a b = min (a + b) (2 ^ 64 - 1)"

text \<open>\<^verbatim>\<open>Option::is_some_and(|lim| n > lim)\<close>, the test of every optional limit.\<close>

definition over_limit :: "nat option \<Rightarrow> nat \<Rightarrow> bool" where
  "over_limit lim n = (case lim of None \<Rightarrow> False | Some l \<Rightarrow> n > l)"

section \<open>Lemmas on splitting and joining\<close>

lemma split_on_not_Nil [simp]: "split_on c s \<noteq> []"
  by (induction s) (auto split: list.splits)

lemma join_Cons: "ps \<noteq> [] \<Longrightarrow> join sep (p # ps) = p @ sep @ join sep ps"
  by (cases ps) auto

lemma join_split_on [rust_str]: "join [c] (split_on c s) = s"
proof (induction s)
  case Nil
  show ?case by simp
next
  case (Cons x xs)
  obtain p ps where sp: "split_on c xs = p # ps"
    using split_on_not_Nil [of c xs] by (cases "split_on c xs") auto
  show ?case
  proof (cases "x = c")
    case True
    with Cons show ?thesis by (simp add: join_Cons)
  next
    case False
    have "join [c] ((x # p) # ps) = x # join [c] (p # ps)" by (cases ps) auto
    with Cons sp False show ?thesis by simp
  qed
qed

lemma split_on_no_sep: "c \<notin> set s \<Longrightarrow> split_on c s = [s]"
  by (induction s) auto

lemma split_on_append: "c \<notin> set p \<Longrightarrow> split_on c (p @ c # s) = p # split_on c s"
  by (induction p) auto

lemma split_on_parts: "p \<in> set (split_on c s) \<Longrightarrow> c \<notin> set p"
proof (induction s arbitrary: p)
  case Nil
  then show ?case by simp
next
  case (Cons x xs)
  then show ?case by (auto split: if_splits list.splits)
qed

lemma split_on_join [rust_str]:
  "ps \<noteq> [] \<Longrightarrow> (\<And>p. p \<in> set ps \<Longrightarrow> c \<notin> set p) \<Longrightarrow> split_on c (join [c] ps) = ps"
proof (induction ps rule: list_nonempty_induct)
  case (single x)
  then show ?case by (simp add: split_on_no_sep)
next
  case (cons x xs)
  then show ?case by (simp add: join_Cons split_on_append)
qed

lemma join_inject:
  assumes "join [c] ps = join [c] qs" and "ps \<noteq> []" and "qs \<noteq> []"
    and "\<And>p. p \<in> set ps \<Longrightarrow> c \<notin> set p" and "\<And>q. q \<in> set qs \<Longrightarrow> c \<notin> set q"
  shows "ps = qs"
  using assms split_on_join by metis

section \<open>Lemmas on trimming, prefixes and case\<close>

lemma set_trim: "set (trim s) \<subseteq> set s"
  unfolding trim_def by (auto dest!: set_dropWhileD)

lemma trim_idem [simp]: "trim (trim s) = trim s"
proof -
  let ?t = "dropWhile is_ws s"
  let ?u = "rev (dropWhile is_ws (rev ?t))"
  have "dropWhile is_ws ?u = ?u"
  proof (cases ?u)
    case (Cons c cs)
    have "prefix ?u ?t"
      by (metis append.simps(1) prefixI rev_append rev_rev_ident takeWhile_dropWhile_id)
    with Cons obtain zs where t: "?t = c # zs" by (auto simp: prefix_def)
    then have "\<not> is_ws c" by (simp add: dropWhile_eq_Cons_conv)
    with Cons show ?thesis by simp
  next
    case Nil
    then show ?thesis by (simp only: dropWhile.simps)
  qed
  then have "trim ?u = rev (dropWhile is_ws (dropWhile is_ws (rev ?t)))"
    by (simp add: trim_def)
  then show ?thesis by (simp add: trim_def)
qed

lemma starts_with_prefix [rust_str]: "starts_with s p = prefix p s"
  by (auto simp: starts_with_def prefix_def) (metis append_take_drop_id)

lemma ends_with_suffix [rust_str]: "ends_with s p = suffix p s"
  by (simp add: ends_with_def starts_with_prefix suffix_to_prefix)

lemma contains_str_sublist [rust_str]: "contains_str s p = sublist p s"
proof (induction s)
  case Nil
  show ?case by auto
next
  case (Cons x xs)
  then show ?case by (simp add: starts_with_prefix sublist_Cons_right)
qed

lemma of_char_less [simp]: "of_char c < (256 :: nat)"
  by (cases c) (simp add: of_char_def horner_sum_of_bool_2_less [where bs = "[_,_,_,_,_,_,_,_]", simplified])

lemma lower_char_idem [simp]: "lower_char (lower_char c) = lower_char c"
  by (auto simp: lower_char_def Let_def)

lemma to_lowercase_idem [simp]: "to_lowercase (to_lowercase s) = to_lowercase s"
  by (simp add: to_lowercase_def)

lemma length_to_lowercase [simp]: "length (to_lowercase s) = length s"
  by (simp add: to_lowercase_def)

lemma over_limit_simps [simp]:
  "over_limit None n = False" "over_limit (Some l) n = (l < n)"
  by (simp_all add: over_limit_def)

section \<open>Reading back printed numbers\<close>

definition digit_val :: "char \<Rightarrow> nat" where
  "digit_val c = (let n = of_char c in if n \<le> 57 then n - 48 else n - 87)"

definition base_val :: "nat \<Rightarrow> string \<Rightarrow> nat" where
  "base_val b s = foldl (\<lambda>a c. a * b + digit_val c) 0 s"

lemma of_char_digit [simp]: "n < 16 \<Longrightarrow> of_char (digit_char n) = (if n < 10 then 48 + n else 87 + n)"
  by (simp add: digit_char_def)

lemma digit_val_digit_char [simp]: "n < 16 \<Longrightarrow> digit_val (digit_char n) = n"
  by (simp add: digit_val_def Let_def)

lemma base_val_snoc: "base_val b (s @ [c]) = base_val b s * b + digit_val c"
  by (simp add: base_val_def)

lemma base_val_show_base: "2 \<le> b \<Longrightarrow> b \<le> 16 \<Longrightarrow> base_val b (show_base b n) = n"
proof (induction b n rule: show_base.induct)
  case (1 b n)
  show ?case
  proof (cases "n < b")
    case True
    with 1 show ?thesis by (simp add: show_base.simps [of b n] base_val_def)
  next
    case False
    with 1 have "base_val b (show_base b (n div b)) = n div b" by simp
    moreover have "n mod b < 16"
      using 1 mod_less_divisor [of b n] by linarith
    ultimately show ?thesis
      using False 1 by (simp add: show_base.simps [of b n] base_val_snoc)
  qed
qed

lemma set_show_base: "2 \<le> b \<Longrightarrow> set (show_base b n) \<subseteq> digit_char ` {..<b}"
proof (induction b n rule: show_base.induct)
  case (1 b n)
  then show ?case by (cases "n < b") (auto simp: show_base.simps [of b n])
qed

lemma show_base_not_Nil [simp]: "show_base b n \<noteq> []"
  by (subst show_base.simps) simp

lemma base_val_pad_left: "base_val b (pad_left w s) = base_val b s"
proof -
  have "foldl (\<lambda>a c. a * b + digit_val c) 0 (replicate k (CHR ''0'')) = 0" for k
    by (induction k) (simp_all add: digit_val_def)
  then show ?thesis by (simp add: pad_left_def base_val_def)
qed

lemma base_val_show [simp]: "base_val 10 (show_nat n) = n" "base_val 16 (show_hex n) = n"
  by (simp_all add: show_nat_def show_hex_def base_val_show_base)

lemma show_nat_inject [simp]: "show_nat m = show_nat n \<longleftrightarrow> m = n"
  using base_val_show(1) by metis

lemma pad_hex_inject: "pad_left w (show_hex m) = pad_left w (show_hex n) \<longleftrightarrow> m = n"
  using base_val_pad_left base_val_show(2) by metis

lemma hex_chars: "c \<in> set (pad_left w (show_hex n)) \<Longrightarrow> 48 \<le> (of_char c :: nat)"
proof -
  assume "c \<in> set (pad_left w (show_hex n))"
  then have "c = CHR ''0'' \<or> c \<in> digit_char ` {..<16}"
    using set_show_base [of 16 n] by (auto simp: pad_left_def show_hex_def)
  then show ?thesis by auto
qed

text \<open>Parsing a printed number gives it back.\<close>

lemma is_digit_digit_char [simp]: "n < 10 \<Longrightarrow> is_digit (digit_char n)"
  by (simp add: is_digit_def Let_def)

lemma show_nat_digits: "c \<in> set (show_nat n) \<Longrightarrow> is_digit c"
  using set_show_base [of 10 n] by (auto simp: show_nat_def)

lemma digits_val_foldl:
  "(\<And>c. c \<in> set s \<Longrightarrow> is_digit c) \<Longrightarrow> digits_val acc s = Some (foldl (\<lambda>a c. a * 10 + digit_val c) acc s)"
proof (induction s arbitrary: acc)
  case (Cons c s)
  then have "is_digit c" by simp
  then have "digit_val c = of_char c - 48" by (auto simp: is_digit_def digit_val_def Let_def)
  with Cons show ?case by (simp add: algebra_simps)
qed simp

lemma digits_val_show_nat [simp]: "digits_val 0 (show_nat n) = Some n"
  using base_val_show(1) [of n] by (simp add: digits_val_foldl [OF show_nat_digits] base_val_def)

lemma show_nat_hd: "show_nat n \<noteq> []" "hd (show_nat n) \<noteq> CHR ''+''" "hd (show_nat n) \<noteq> CHR ''-''"
proof -
  show ne: "show_nat n \<noteq> []" by (simp add: show_nat_def)
  then have "is_digit (hd (show_nat n))" by (intro show_nat_digits [of _ n]) simp
  then show "hd (show_nat n) \<noteq> CHR ''+''" "hd (show_nat n) \<noteq> CHR ''-''"
    by (auto simp: is_digit_def)
qed

lemma parse_u64_show: "n < 2 ^ 64 \<Longrightarrow> parse_u64 (show_nat n) = Some n"
proof -
  assume n: "n < 2 ^ 64"
  have "(case show_nat n of [] \<Rightarrow> [] | c # cs \<Rightarrow> if c = CHR ''+'' then cs else show_nat n) = show_nat n"
    using show_nat_hd [of n] by (cases "show_nat n") auto
  with n show_nat_hd(1) [of n] show ?thesis by (simp add: parse_u64_def)
qed

lemma parse_i64_show: "- (2 ^ 63) \<le> n \<Longrightarrow> n < 2 ^ 63 \<Longrightarrow> parse_i64 (show_int n) = Some n"
  using show_nat_hd [of "nat n"] show_nat_hd [of "nat (- n)"]
  by (auto simp: parse_i64_def show_int_def Let_def)

section \<open>Results\<close>

text \<open>A \<^verbatim>\<open>Result\<close> is a sum with the error on the left; \<^verbatim>\<open>?\<close> is \<open>and_then\<close>.\<close>

definition and_then :: "'e + 'a \<Rightarrow> ('a \<Rightarrow> 'e + 'b) \<Rightarrow> 'e + 'b" where
  "and_then r f = (case r of Inl e \<Rightarrow> Inl e | Inr x \<Rightarrow> f x)"

definition map_err :: "('e \<Rightarrow> 'f) \<Rightarrow> 'e + 'a \<Rightarrow> 'f + 'a" where
  "map_err f r = (case r of Inl e \<Rightarrow> Inl (f e) | Inr x \<Rightarrow> Inr x)"

lemma and_then_Inr: "and_then r f = Inr y \<longleftrightarrow> (\<exists>x. r = Inr x \<and> f x = Inr y)"
  by (cases r) (simp_all add: and_then_def)

lemma and_then_Inl: "and_then r f = Inl e \<longleftrightarrow> r = Inl e \<or> (\<exists>x. r = Inr x \<and> f x = Inl e)"
  by (cases r) (simp_all add: and_then_def)

lemma and_then_simps [simp]: "and_then (Inl e) f = Inl e" "and_then (Inr x) f = f x"
  by (simp_all add: and_then_def)

lemma map_err_Inr: "map_err f r = Inr x \<longleftrightarrow> r = Inr x"
  by (cases r) (simp_all add: map_err_def)

end
