(* ===== verification/Router.thy ===== *)
theory Router
  imports Prelude "HOL-Library.AList" "HOL-Library.List_Lexorder" "HOL-Library.Char_ord"
    "HOL-Library.Multiset"
begin

text \<open>
  The route table of \<^verbatim>\<open>src/router.rs\<close>: the translation of the public path syntax, the
  construction of one tree per method plus a tree for \<^verbatim>\<open>ALL\<close>, matching, and the method
  list behind \<^verbatim>\<open>405\<close>/\<^verbatim>\<open>Allow\<close>. The radix tree itself is the crate \<^verbatim>\<open>matchit\<close>: its three
  operations are the record \<open>matchit\<close> that every definition takes as an argument, and no
  law about it is assumed. A \<^verbatim>\<open>HashMap\<close> is an association list with distinct keys whose
  order stands for the unspecified iteration order.

  The locale \<open>route_table\<close> is the contract the request pipeline relies on: what the
  allowed-method list says about matching.
\<close>

section \<open>Definitions\<close>

text \<open>The operations of \<^verbatim>\<open>matchit::Router<i32>\<close>: \<^verbatim>\<open>new\<close>, \<^verbatim>\<open>insert\<close> (an error carries its
  display text) and \<^verbatim>\<open>at\<close> (the value and the parameters in path order).\<close>

record 'r matchit =
  mt_new :: "'r"
  mt_insert :: "'r \<Rightarrow> string \<Rightarrow> int \<Rightarrow> string + 'r"
  mt_at :: "'r \<Rightarrow> string \<Rightarrow> (int \<times> (string \<times> string) list) option"

record route_def =
  rd_method :: string
  rd_path :: string
  rd_leaf_id :: int

record 'r routes =
  by_method :: "(string \<times> 'r) list"
  all_tree :: "'r option"

record matched =
  md_leaf_id :: int
  md_params :: "(string \<times> string) list"

definition is_name_char :: "char \<Rightarrow> bool" where
  "is_name_char c = (is_ascii_alphanumeric c \<or> c = CHR ''_'')"

function translate_colons :: "string \<Rightarrow> string" where
  "translate_colons [] = []"
| "translate_colons (c # cs) =
     (if c = CHR '':''
      then CHR ''{'' # takeWhile is_name_char cs @ CHR ''}''
             # translate_colons (dropWhile is_name_char cs)
      else c # translate_colons cs)"
  by pat_completeness auto
termination
  by (relation "measure length") (auto simp: less_Suc_eq_le length_dropWhile_le)

definition translate_segment :: "string \<Rightarrow> string" where
  "translate_segment seg =
     (if seg = [] then []
      else case strip_prefix seg ''*'' of
        Some rest \<Rightarrow>
          (let name = (if rest = [] then ''wildcard'' else rest)
           in ''{*'' @ name @ ''}'')
      | None \<Rightarrow> if CHR '':'' \<in> set seg then translate_colons seg else seg)"

definition to_matchit :: "string \<Rightarrow> string" where
  "to_matchit path = join ''/'' (map translate_segment (split_on (CHR ''/'') path))"

definition to_matched :: "int \<times> (string \<times> string) list \<Rightarrow> matched" where
  "to_matched m =
     \<lparr>md_leaf_id = fst m, md_params = foldl (\<lambda>a (k, v). AList.update k v a) [] (snd m)\<rparr>"

definition insert_route :: "'r matchit \<Rightarrow> 'r option \<Rightarrow> route_def \<Rightarrow> string + 'r" where
  "insert_route M slot d =
     (let router = (case slot of None \<Rightarrow> mt_new M | Some r \<Rightarrow> r)
      in case mt_insert M router (to_matchit (rd_path d)) (rd_leaf_id d) of
           Inl e \<Rightarrow> Inl (''route '' @ rd_method d @ '' '' @ rd_path d @ '': '' @ e)
         | Inr r \<Rightarrow> Inr r)"

definition build_step :: "'r matchit \<Rightarrow> 'r routes \<Rightarrow> route_def \<Rightarrow> string + 'r routes" where
  "build_step M rs d =
     (let m = to_uppercase (rd_method d)
      in if m = ''ALL''
         then (case insert_route M (all_tree rs) d of
                 Inl e \<Rightarrow> Inl e
               | Inr r \<Rightarrow> Inr (rs\<lparr>all_tree := Some r\<rparr>))
         else (case insert_route M (map_of (by_method rs) m) d of
                 Inl e \<Rightarrow> Inl e
               | Inr r \<Rightarrow> Inr (rs\<lparr>by_method := AList.update m r (by_method rs)\<rparr>)))"

fun build_from :: "'r matchit \<Rightarrow> 'r routes \<Rightarrow> route_def list \<Rightarrow> string + 'r routes" where
  "build_from M rs [] = Inr rs"
| "build_from M rs (d # ds) =
     (case build_step M rs d of Inl e \<Rightarrow> Inl e | Inr rs' \<Rightarrow> build_from M rs' ds)"

definition build :: "'r matchit \<Rightarrow> route_def list \<Rightarrow> string + 'r routes" where
  "build M defs = build_from M \<lparr>by_method = [], all_tree = None\<rparr> defs"

definition match_tree :: "'r matchit \<Rightarrow> 'r option \<Rightarrow> string \<Rightarrow> matched option" where
  "match_tree M slot path =
     (case slot of None \<Rightarrow> None | Some r \<Rightarrow> map_option to_matched (mt_at M r path))"

definition match_route :: "'r matchit \<Rightarrow> 'r routes \<Rightarrow> string \<Rightarrow> string \<Rightarrow> matched option" where
  "match_route M rs meth path =
     (case match_tree M (map_of (by_method rs) meth) path of
        Some m \<Rightarrow> Some m
      | None \<Rightarrow> match_tree M (all_tree rs) path)"

text \<open>\<^verbatim>\<open>if !methods.iter().any(|x| x == m) { methods.push(m) }\<close>.\<close>

definition push_new :: "string list \<Rightarrow> string \<Rightarrow> string list" where
  "push_new ms m = (if m \<in> set ms then ms else ms @ [m])"

definition standard_methods :: "string list" where
  "standard_methods = [''GET'', ''POST'', ''PUT'', ''PATCH'', ''DELETE'', ''QUERY'']"

definition allowed_methods :: "'r matchit \<Rightarrow> 'r routes \<Rightarrow> string \<Rightarrow> string list" where
  "allowed_methods M rs path =
     (let own = map fst (filter (\<lambda>(m, r). mt_at M r path \<noteq> None) (by_method rs));
          meths = (case all_tree rs of
                     None \<Rightarrow> own
                   | Some r \<Rightarrow> if mt_at M r path \<noteq> None
                              then foldl push_new own standard_methods else own)
      in if meths = [] then []
         else let m1 = (if ''GET'' \<in> set meths \<and> ''HEAD'' \<notin> set meths
                        then meths @ [''HEAD''] else meths);
                  m2 = (if ''OPTIONS'' \<notin> set m1 then m1 @ [''OPTIONS''] else m1)
              in sort m2)"

section \<open>Path translation\<close>

lemma translate_colons_no_colon: "CHR '':'' \<notin> set (translate_colons s)"
proof (induction s rule: translate_colons.induct)
  case (2 c cs)
  have "CHR '':'' \<notin> set (takeWhile is_name_char cs)"
    by (auto dest!: set_takeWhileD simp: is_name_char_def is_ascii_alphanumeric_def)
  with 2 show ?case by auto
qed simp

lemma translate_colons_id: "CHR '':'' \<notin> set s \<Longrightarrow> translate_colons s = s"
  by (induction s rule: translate_colons.induct) auto

lemma set_translate_colons:
  "set (translate_colons s) \<subseteq> set s \<union> {CHR ''{'', CHR ''}''}"
proof (induction s rule: translate_colons.induct)
  case (2 c cs)
  then show ?case by (auto dest!: set_takeWhileD set_dropWhileD subsetD)
qed simp

lemma translate_colons_hd:
  "s \<noteq> [] \<Longrightarrow> translate_colons s \<noteq> [] \<and>
     hd (translate_colons s) = (if hd s = CHR '':'' then CHR ''{'' else hd s)"
  by (cases s) auto

lemma translate_segment_no_slash:
  "CHR ''/'' \<notin> set seg \<Longrightarrow> CHR ''/'' \<notin> set (translate_segment seg)"
  using set_translate_colons [of seg]
  by (auto simp: translate_segment_def strip_prefix_def Let_def dest: in_set_dropD split: if_splits)

lemma segments_to_matchit:
  "split_on (CHR ''/'') (to_matchit p) = map translate_segment (split_on (CHR ''/'') p)"
  unfolding to_matchit_def
  by (rule split_on_join) (auto dest!: split_on_parts translate_segment_no_slash)

lemma translate_segment_idem:
  assumes "starts_with seg ''*'' \<Longrightarrow> CHR '':'' \<notin> set seg"
  shows "translate_segment (translate_segment seg) = translate_segment seg"
proof (cases "seg = [] \<or> starts_with seg ''*''")
  case True
  with assms show ?thesis
    by (auto simp: translate_segment_def strip_prefix_def starts_with_def Let_def dest: in_set_dropD)
next
  case False
  then have *: "translate_segment seg = translate_colons seg"
    by (simp add: translate_segment_def strip_prefix_def translate_colons_id)
  from False have "\<not> starts_with (translate_colons seg) ''*''"
    using translate_colons_hd [of seg]
    by (cases seg; cases "translate_colons seg") (auto simp: starts_with_def)
  then show ?thesis
    unfolding * using translate_colons_no_colon [of seg]
    by (simp add: translate_segment_def strip_prefix_def)
qed

section \<open>The built table\<close>

text \<open>What one tree holds: the definitions of its method inserted in order.\<close>

fun insert_all :: "'r matchit \<Rightarrow> 'r option \<Rightarrow> route_def list \<Rightarrow> string + 'r option" where
  "insert_all M slot [] = Inr slot"
| "insert_all M slot (d # ds) =
     (case insert_route M slot d of Inl e \<Rightarrow> Inl e | Inr r \<Rightarrow> insert_all M (Some r) ds)"

definition tree_of :: "'r routes \<Rightarrow> string \<Rightarrow> 'r option" where
  "tree_of rs m = (if m = ''ALL'' then all_tree rs else map_of (by_method rs) m)"

definition defs_of :: "string \<Rightarrow> route_def list \<Rightarrow> route_def list" where
  "defs_of m = filter (\<lambda>d. to_uppercase (rd_method d) = m)"

definition routes_ok :: "'r routes \<Rightarrow> bool" where
  "routes_ok rs = (distinct (map fst (by_method rs)) \<and> ''ALL'' \<notin> fst ` set (by_method rs))"

lemma defs_of_simps [simp]:
  "defs_of m [] = []"
  "defs_of m (d # ds) =
     (if to_uppercase (rd_method d) = m then d # defs_of m ds else defs_of m ds)"
  by (simp_all add: defs_of_def)

lemma build_step_tree_of:
  "build_step M rs d = Inr rs' \<Longrightarrow>
   insert_route M (tree_of rs (to_uppercase (rd_method d))) d
     = Inr (the (tree_of rs' (to_uppercase (rd_method d)))) \<and>
   tree_of rs' (to_uppercase (rd_method d)) \<noteq> None \<and>
   (\<forall>m. m \<noteq> to_uppercase (rd_method d) \<longrightarrow> tree_of rs' m = tree_of rs m)"
  by (auto simp: build_step_def tree_of_def Let_def update_conv' split: if_splits sum.splits)

lemma build_step_ok:
  assumes "routes_ok rs" and "build_step M rs d = Inr rs'"
  shows "routes_ok rs'"
proof (cases "to_uppercase (rd_method d) = ''ALL''")
  case True
  with assms show ?thesis
    by (auto simp: build_step_def routes_ok_def Let_def split: sum.splits)
next
  case False
  with assms(2) obtain r where
    "rs' = rs\<lparr>by_method := AList.update (to_uppercase (rd_method d)) r (by_method rs)\<rparr>"
    by (auto simp: build_step_def Let_def split: sum.splits)
  with False assms(1) show ?thesis
    by (simp add: routes_ok_def distinct_update dom_update)
qed

lemma build_from_ok: "routes_ok rs \<Longrightarrow> build_from M rs ds = Inr rs' \<Longrightarrow> routes_ok rs'"
  by (induction ds arbitrary: rs) (auto split: sum.splits dest: build_step_ok)

lemma build_from_trees:
  "build_from M rs ds = Inr rs' \<Longrightarrow>
   insert_all M (tree_of rs m) (defs_of m ds) = Inr (tree_of rs' m)"
proof (induction ds arbitrary: rs)
  case Nil
  then show ?case by simp
next
  case (Cons d ds)
  then obtain rs1 where 1: "build_step M rs d = Inr rs1" and 2: "build_from M rs1 ds = Inr rs'"
    by (auto split: sum.splits)
  from Cons.IH [OF 2] build_step_tree_of [OF 1] show ?case by auto
qed

lemma build_tree:
  "build M defs = Inr rs \<Longrightarrow> insert_all M None (defs_of m defs) = Inr (tree_of rs m)"
  unfolding build_def by (drule build_from_trees [where m = m]) (auto simp: tree_of_def split: if_splits)

lemma build_from_fails:
  "build_from M rs ds = Inl e \<Longrightarrow> \<exists>m. insert_all M (tree_of rs m) (defs_of m ds) = Inl e"
proof (induction ds arbitrary: rs)
  case Nil
  then show ?case by simp
next
  case (Cons d ds)
  let ?m = "to_uppercase (rd_method d)"
  show ?case
  proof (cases "build_step M rs d")
    case (Inl e')
    with Cons.prems have "insert_route M (tree_of rs ?m) d = Inl e"
      by (auto simp: build_step_def tree_of_def Let_def split: if_splits sum.splits)
    then show ?thesis by (intro exI [of _ ?m]) simp
  next
    case (Inr rs1)
    with Cons.prems obtain m where "insert_all M (tree_of rs1 m) (defs_of m ds) = Inl e"
      using Cons.IH by auto
    with build_step_tree_of [OF Inr] show ?thesis by (intro exI [of _ m]) auto
  qed
qed

section \<open>Matching and the allowed methods\<close>

lemma match_tree_None:
  "match_tree M slot path = None \<longleftrightarrow> (\<forall>r. slot = Some r \<longrightarrow> mt_at M r path = None)"
  by (auto simp: match_tree_def split: option.splits)

lemma match_route_None:
  "match_route M rs m path = None \<longleftrightarrow>
     match_tree M (map_of (by_method rs) m) path = None \<and> match_tree M (all_tree rs) path = None"
  by (cases "match_tree M (map_of (by_method rs) m) path") (simp_all add: match_route_def)

lemma set_push_new: "set (foldl push_new ms xs) = set ms \<union> set xs"
  by (induction xs arbitrary: ms) (auto simp: push_new_def)

lemma distinct_push_new: "distinct ms \<Longrightarrow> distinct (foldl push_new ms xs)"
  by (induction xs arbitrary: ms) (auto simp: push_new_def)

text \<open>The methods under which a path exists, before the derived ones are added.\<close>

definition own_methods :: "'r matchit \<Rightarrow> 'r routes \<Rightarrow> string \<Rightarrow> string set" where
  "own_methods M rs path = {m. match_tree M (map_of (by_method rs) m) path \<noteq> None}"

definition base_methods :: "'r matchit \<Rightarrow> 'r routes \<Rightarrow> string \<Rightarrow> string set" where
  "base_methods M rs path =
     own_methods M rs path \<union>
     (if match_tree M (all_tree rs) path \<noteq> None then set standard_methods else {})"

lemma own_methods_eq:
  assumes "routes_ok rs"
  shows "own_methods M rs path =
     set (map fst (filter (\<lambda>(m, r). mt_at M r path \<noteq> None) (by_method rs)))"
  using assms
  by (force simp: own_methods_def match_tree_None routes_ok_def image_iff)

lemma set_allowed_methods:
  assumes "routes_ok rs"
  shows "set (allowed_methods M rs path) =
     (let B = base_methods M rs path
      in if B = {} then {}
         else B \<union> {''OPTIONS''} \<union> (if ''GET'' \<in> B then {''HEAD''} else {}))"
proof -
  define own where "own = map fst (filter (\<lambda>(m, r). mt_at M r path \<noteq> None) (by_method rs))"
  define meths where "meths = (case all_tree rs of None \<Rightarrow> own
      | Some r \<Rightarrow> if mt_at M r path \<noteq> None then foldl push_new own standard_methods else own)"
  have "own_methods M rs path = set own"
    using own_methods_eq [OF assms, of M path] unfolding own_def .
  then have B: "base_methods M rs path = set meths"
    by (auto simp: base_methods_def meths_def match_tree_None set_push_new split: option.splits)
  have "set (allowed_methods M rs path) =
     (if meths = [] then {}
      else set meths \<union> {''OPTIONS''} \<union> (if ''GET'' \<in> set meths then {''HEAD''} else {}))"
    unfolding allowed_methods_def own_def [symmetric] Let_def meths_def [symmetric] by auto
  with B show ?thesis by (simp add: Let_def)
qed

lemma distinct_allowed_methods:
  assumes "routes_ok rs"
  shows "distinct (allowed_methods M rs path)"
proof -
  have "distinct (map fst (filter (\<lambda>(m, r). mt_at M r path \<noteq> None) (by_method rs)))"
    using assms by (simp add: routes_ok_def distinct_map_filter)
  then show ?thesis
    by (auto simp: allowed_methods_def Let_def distinct_push_new split: option.splits)
qed

lemma sorted_allowed_methods: "sorted (allowed_methods M rs path)"
  by (simp add: allowed_methods_def Let_def)

lemma allowed_methods_eq_Nil:
  assumes "routes_ok rs"
  shows "allowed_methods M rs path = [] \<longleftrightarrow> (\<forall>m. match_route M rs m path = None)"
proof -
  have "set (allowed_methods M rs path) = {} \<longleftrightarrow> base_methods M rs path = {}"
    unfolding set_allowed_methods [OF assms] Let_def by simp
  then have "allowed_methods M rs path = [] \<longleftrightarrow> base_methods M rs path = {}" by simp
  also have "\<dots> \<longleftrightarrow> (\<forall>m. match_route M rs m path = None)"
    by (auto simp: base_methods_def own_methods_def match_route_None standard_methods_def)
  finally show ?thesis .
qed

section \<open>The contract of a route table\<close>

text \<open>
  What the request pipeline relies on: matching and the allowed-method list agree. The
  lemmas of the locale are the facts behind the \<^verbatim>\<open>404\<close> / \<^verbatim>\<open>405\<close> / auto-\<^verbatim>\<open>OPTIONS\<close> decision.
\<close>

locale route_table =
  fixes ok :: "'t \<Rightarrow> bool"
    and lookup_route :: "'t \<Rightarrow> string \<Rightarrow> string \<Rightarrow> 'm option"
    and allow :: "'t \<Rightarrow> string \<Rightarrow> string list"
  assumes allow_empty: "ok t \<Longrightarrow> allow t p = [] \<longleftrightarrow> (\<forall>m. lookup_route t m p = None)"
    and allow_sound: "ok t \<Longrightarrow> m \<in> set (allow t p) \<Longrightarrow> m \<noteq> ''OPTIONS'' \<Longrightarrow>
      lookup_route t m p \<noteq> None \<or> m = ''HEAD'' \<and> lookup_route t ''GET'' p \<noteq> None"
    and allow_options: "ok t \<Longrightarrow> allow t p \<noteq> [] \<Longrightarrow> ''OPTIONS'' \<in> set (allow t p)"
begin

text \<open>A path that some method serves is never reported as unknown.\<close>

lemma known_path: "ok t \<Longrightarrow> lookup_route t m p \<noteq> None \<Longrightarrow> allow t p \<noteq> []"
  using allow_empty [of t p] by auto

text \<open>A \<^verbatim>\<open>405\<close> always names at least one method that would have worked.\<close>

lemma some_other_method:
  assumes "ok t" and "allow t p \<noteq> []"
  shows "\<exists>m. lookup_route t m p \<noteq> None"
  using assms allow_empty [of t p] by auto

text \<open>A method that was refused is not advertised.\<close>

lemma refused_not_advertised:
  assumes "ok t" and "lookup_route t m p = None" and "m \<noteq> ''OPTIONS''"
    and "m = ''HEAD'' \<Longrightarrow> lookup_route t ''GET'' p = None"
  shows "m \<notin> set (allow t p)"
  using assms allow_sound [of t m p] by auto

end

lemma allowed_methods_sound:
  assumes ok: "routes_ok rs" and m: "m \<in> set (allowed_methods M rs path)" and "m \<noteq> ''OPTIONS''"
  shows "match_route M rs m path \<noteq> None \<or> m = ''HEAD'' \<and> match_route M rs ''GET'' path \<noteq> None"
proof -
  have base: "match_route M rs m path \<noteq> None" if "m \<in> base_methods M rs path" for m
    using that by (auto simp: base_methods_def own_methods_def match_route_None split: if_splits)
  from m \<open>m \<noteq> ''OPTIONS''\<close>
  have "m \<in> base_methods M rs path \<or> m = ''HEAD'' \<and> ''GET'' \<in> base_methods M rs path"
    unfolding set_allowed_methods [OF ok] by (auto simp: Let_def split: if_splits)
  with base show ?thesis by blast
qed

interpretation rt: route_table routes_ok "match_route M" "allowed_methods M"
proof unfold_locales
  fix rs :: "'a routes" and p :: string
  assume ok: "routes_ok rs"
  then show "allowed_methods M rs p = [] \<longleftrightarrow> (\<forall>m. match_route M rs m p = None)"
    by (rule allowed_methods_eq_Nil)
  show "''OPTIONS'' \<in> set (allowed_methods M rs p)" if "allowed_methods M rs p \<noteq> []"
    using that set_allowed_methods [OF ok, of M p] by (auto simp: Let_def split: if_splits)
qed (rule allowed_methods_sound)

section \<open>Properties\<close>

text \<open>C38: Building the route table partitions the definitions by method. When \<^verbatim>\<open>build\<close>
  succeeds, the table is well formed (one tree per upper-case method, none of them called
  \<^verbatim>\<open>ALL\<close>) and the tree of every method (and the \<^verbatim>\<open>ALL\<close> tree) is exactly the result of
  inserting the translated paths of that method's definitions in declaration order; when
  it fails, the error is the one the insertion of some method's definitions gives.\<close>

theorem build_partition:
  "case build M defs of
     Inr rs \<Rightarrow> routes_ok rs \<and> (\<forall>m. insert_all M None (defs_of m defs) = Inr (tree_of rs m))
   | Inl e \<Rightarrow> (\<exists>m. insert_all M None (defs_of m defs) = Inl e)"
proof (cases "build M defs")
  case (Inl e)
  then obtain m where
    "insert_all M (tree_of \<lparr>by_method = [], all_tree = None\<rparr> m) (defs_of m defs) = Inl e"
    unfolding build_def using build_from_fails by blast
  moreover have "tree_of \<lparr>by_method = [], all_tree = None :: 'a option\<rparr> m = None"
    by (simp add: tree_of_def)
  ultimately show ?thesis using Inl by auto
next
  case (Inr rs)
  then have "routes_ok rs"
    unfolding build_def by (rule build_from_ok [rotated]) (simp add: routes_ok_def)
  with Inr build_tree [OF Inr] show ?thesis by simp
qed

text \<open>A small tree for concrete examples: exact matches only, duplicates refused.\<close>

definition exact_matchit :: "(string \<times> int) list matchit" where
  "exact_matchit =
     \<lparr>mt_new = [],
      mt_insert = (\<lambda>r p v. if map_of r p = None then Inr (r @ [(p, v)]) else Inl ''conflict''),
      mt_at = (\<lambda>r p. map_option (\<lambda>v. (v, [])) (map_of r p))\<rparr>"

definition sample_routes :: "(string \<times> int) list routes" where
  "sample_routes =
     \<lparr>by_method = [(''POST'', [(''/u'', 1)]), (''GET'', [(''/u'', 0)])], all_tree = None\<rparr>"

text \<open>The allowed-method list of a path is sorted, free of duplicates and exactly the
  methods under which the path exists (every standard method when the \<^verbatim>\<open>ALL\<close> tree has
  it), plus \<^verbatim>\<open>OPTIONS\<close>, plus \<^verbatim>\<open>HEAD\<close> when \<^verbatim>\<open>GET\<close> is there; it is empty when no tree has
  the path.\<close>

theorem allowed_methods_spec:
  assumes "routes_ok rs"
  shows "sorted (allowed_methods M rs path) \<and> distinct (allowed_methods M rs path) \<and>
    set (allowed_methods M rs path) =
      (let B = base_methods M rs path
       in if B = {} then {}
          else B \<union> {''OPTIONS''} \<union> (if ''GET'' \<in> B then {''HEAD''} else {}))"
  using assms sorted_allowed_methods distinct_allowed_methods set_allowed_methods by blast

theorem allowed_methods_spec_witness:
  "allowed_methods exact_matchit sample_routes ''/u'' = [''GET'', ''HEAD'', ''OPTIONS'', ''POST''] \<and>
   set (allowed_methods exact_matchit sample_routes ''/u'') =
     {''GET'', ''POST'', ''OPTIONS'', ''HEAD''}"
proof -
  have ok: "routes_ok sample_routes" by (simp add: routes_ok_def sample_routes_def)
  have "base_methods exact_matchit sample_routes ''/u'' = {''GET'', ''POST''}"
    by (auto simp: base_methods_def own_methods_def match_tree_def sample_routes_def
        exact_matchit_def split: if_splits option.splits)
  with allowed_methods_spec [OF ok, of exact_matchit "''/u''"]
  have "set (allowed_methods exact_matchit sample_routes ''/u'') =
     {''GET'', ''POST'', ''OPTIONS'', ''HEAD''}"
    by (simp add: insert_commute)
  moreover have "allowed_methods exact_matchit sample_routes ''/u'' =
      [''GET'', ''HEAD'', ''OPTIONS'', ''POST'']" by code_simp
  ultimately show ?thesis by blast
qed

text \<open>The allowed-method list does not depend on the iteration order of the hash map
  of trees: two tables that hold the same trees in any order give the same list.\<close>

theorem allowed_methods_deterministic:
  assumes "routes_ok rs1" and "mset (by_method rs1) = mset (by_method rs2)"
    and "all_tree rs1 = all_tree rs2"
  shows "allowed_methods M rs1 path = allowed_methods M rs2 path"
proof -
  have ok2: "routes_ok rs2"
    using assms by (metis mset_map mset_eq_imp_distinct_iff routes_ok_def set_mset_mset)
  have "map_of (by_method rs1) = map_of (by_method rs2)"
    using assms(1,2) ok2 by (metis map_of_inject_set routes_ok_def set_mset_mset)
  with assms(3) have "base_methods M rs1 path = base_methods M rs2 path"
    by (simp add: base_methods_def own_methods_def)
  then have "set (allowed_methods M rs1 path) = set (allowed_methods M rs2 path)"
    by (simp add: set_allowed_methods [OF assms(1)] set_allowed_methods [OF ok2])
  with assms(1) ok2 show ?thesis
    by (intro sorted_distinct_set_unique)
       (auto simp: sorted_allowed_methods distinct_allowed_methods)
qed

theorem allowed_methods_deterministic_witness:
  "allowed_methods exact_matchit sample_routes ''/u'' =
   allowed_methods exact_matchit
     (sample_routes\<lparr>by_method := [(''GET'', [(''/u'', 0)]), (''POST'', [(''/u'', 1)])]\<rparr>) ''/u''"
  by (rule allowed_methods_deterministic)
     (simp_all add: routes_ok_def sample_routes_def add_mset_commute)

text \<open>Path translation works segment by segment (the slashes stay where they are) and
  a translated path is left alone by a second translation, as long as no catch-all
  segment has a colon in its name.\<close>

theorem to_matchit_segmentwise_idem:
  assumes "\<forall>seg \<in> set (split_on (CHR ''/'') p). starts_with seg ''*'' \<longrightarrow> CHR '':'' \<notin> set seg"
  shows "split_on (CHR ''/'') (to_matchit p) = map translate_segment (split_on (CHR ''/'') p) \<and>
    to_matchit (to_matchit p) = to_matchit p"
proof
  show "split_on (CHR ''/'') (to_matchit p) = map translate_segment (split_on (CHR ''/'') p)"
    by (rule segments_to_matchit)
  have "map translate_segment (map translate_segment (split_on (CHR ''/'') p))
      = map translate_segment (split_on (CHR ''/'') p)"
    using assms by (auto intro!: translate_segment_idem)
  then have "join ''/'' (map translate_segment (map translate_segment (split_on (CHR ''/'') p)))
      = to_matchit p"
    unfolding to_matchit_def by (rule arg_cong)
  then show "to_matchit (to_matchit p) = to_matchit p"
    unfolding to_matchit_def [of "to_matchit p"] segments_to_matchit .
qed

theorem to_matchit_segmentwise_idem_witness:
  "to_matchit ''/a/:x/b/*rest'' = ''/a/{x}/b/{*rest}'' \<and>
   to_matchit ''/a/{x}/b/{*rest}'' = ''/a/{x}/b/{*rest}''"
proof -
  have e: "to_matchit ''/a/:x/b/*rest'' = ''/a/{x}/b/{*rest}''" by code_simp
  have h: "\<forall>seg \<in> set (split_on (CHR ''/'') ''/a/:x/b/*rest'').
      starts_with seg ''*'' \<longrightarrow> CHR '':'' \<notin> set seg" by code_simp
  show ?thesis using to_matchit_segmentwise_idem [OF h] unfolding e by blast
qed

end
