(* ===== verification/Wire.thy ===== *)
theory Wire
  imports Prelude
begin

text \<open>
  The data that crosses the boundary between Rust and JavaScript (\<^verbatim>\<open>src/bridge.rs\<close>):
  ordered header and query pairs, the request handed to the dispatcher and the response a
  handler returns. Statuses and lengths are \<^typ>\<open>nat\<close> (no arithmetic is done on them),
  request tickets are 32-bit words, and a body string is the list of its bytes.
\<close>

record kv_pair =
  kv_key :: string
  kv_value :: string

definition kv :: "string \<Rightarrow> string \<Rightarrow> kv_pair" where
  "kv k v = \<lparr>kv_key = k, kv_value = v\<rparr>"

record js_response =
  jr_status :: "nat option"
  jr_headers :: "kv_pair list option"
  jr_body :: "string option"
  jr_streamed :: "bool option"

record matched_request =
  mr_req_id :: u32
  mr_leaf_id :: int
  mr_method :: string
  mr_path :: string
  mr_query_string :: "string option"
  mr_params :: "(string \<times> string) list"
  mr_query :: "kv_pair list"
  mr_headers :: "kv_pair list"
  mr_ip :: string
  mr_ips :: "string list"
  mr_country :: "string option"
  mr_id :: string
  mr_valid_body :: "string option"
  mr_valid_query :: "string option"
  mr_valid_params :: "string option"

text \<open>\<^verbatim>\<open>headers.iter().find(|kv| kv.key == name)\<close>.\<close>

definition find_header :: "string \<Rightarrow> kv_pair list \<Rightarrow> kv_pair option" where
  "find_header name hs = find (\<lambda>p. kv_key p = name) hs"

lemma kv_simps [simp]: "kv_key (kv k v) = k" "kv_value (kv k v) = v"
  by (simp_all add: kv_def)

lemma kv_eq [simp]: "kv k v = kv k' v' \<longleftrightarrow> k = k' \<and> v = v'"
  by (simp add: kv_def)

lemma find_header_Some: "find_header name hs = Some p \<Longrightarrow> p \<in> set hs \<and> kv_key p = name"
  by (auto simp: find_header_def find_Some_iff)

end
