(* ===== verification/Cache.thy ===== *)
theory Cache
  imports Wire "HOL-Library.AList"
begin

text \<open>
  The per-route response cache of \<^verbatim>\<open>src/cache.rs\<close>. Instants and durations are natural
  numbers of nanoseconds and the clock readings are arguments. The hash map is an
  association list with distinct keys; the arbitrary victim of an eviction
  (\<^verbatim>\<open>store.keys().next()\<close>) is chosen by an index argument \<open>pick\<close>, taken modulo the size, so
  every theorem holds for every iteration order.

  The locale \<open>response_cache\<close> states what the request pipeline relies on (an entry is only
  ever what a store put there, and it is served only while it is live) and carries the
  provenance argument over whole histories.
\<close>

section \<open>Definitions\<close>

record cache_config =
  cc_ttl :: nat
  cc_vary :: "string list"
  cc_max_entries :: nat
  cc_max_body_bytes :: nat

record entry =
  e_path :: string
  e_status :: nat
  e_headers :: "(string \<times> string) list"
  e_body :: string
  e_expires :: nat

record hit =
  h_status :: nat
  h_headers :: "(string \<times> string) list"
  h_body :: string

record leaf_cache =
  lc_config :: cache_config
  lc_store :: "(string \<times> entry) list"

definition cache_new :: "cache_config \<Rightarrow> leaf_cache" where
  "cache_new cfg = \<lparr>lc_config = cfg, lc_store = []\<rparr>"

definition newline :: char where
  "newline = CHR 0x0A"

definition unit_sep :: char where
  "unit_sep = CHR 0x1F"

definition vary_part :: "kv_pair list \<Rightarrow> string \<Rightarrow> string" where
  "vary_part hs name =
     concat (map (\<lambda>p. kv_value p @ [unit_sep]) (filter (\<lambda>p. kv_key p = name) hs))"

definition cache_key ::
  "leaf_cache \<Rightarrow> string \<Rightarrow> string \<Rightarrow> string option \<Rightarrow> kv_pair list \<Rightarrow> u64 option \<Rightarrow> string" where
  "cache_key c meth path query_string headers body_hash =
     meth @ [newline] @ path @ [newline] @
     (case query_string of None \<Rightarrow> [] | Some qs \<Rightarrow> qs) @
     concat (map (\<lambda>name. newline # vary_part headers name) (cc_vary (lc_config c))) @
     (case body_hash of
        None \<Rightarrow> []
      | Some h \<Rightarrow> newline # pad_left 16 (show_hex (unat h)))"

definition hit_of :: "entry \<Rightarrow> hit" where
  "hit_of e = \<lparr>h_status = e_status e, h_headers = e_headers e, h_body = e_body e\<rparr>"

definition lookup :: "leaf_cache \<Rightarrow> string \<Rightarrow> nat \<Rightarrow> hit option \<times> leaf_cache" where
  "lookup c key now =
     (case map_of (lc_store c) key of
        Some e \<Rightarrow>
          if e_expires e > now then (Some (hit_of e), c)
          else (None, c\<lparr>lc_store := AList.delete key (lc_store c)\<rparr>)
      | None \<Rightarrow> (None, c))"

text \<open>The header loop of \<^verbatim>\<open>maybe_store\<close>: \<open>None\<close> is the early return that stores nothing.\<close>

fun stored_headers :: "string \<Rightarrow> kv_pair list \<Rightarrow> (string \<times> string) list option" where
  "stored_headers id_header [] = Some []"
| "stored_headers id_header (p # ps) =
     (let name = to_lowercase (kv_key p)
      in if name = ''set-cookie'' then None
         else if name = ''cache-control'' \<and>
                 (let v = to_lowercase (kv_value p)
                  in contains_str v ''no-store'' \<or> contains_str v ''private'') then None
         else if name = id_header then stored_headers id_header ps
         else map_option (\<lambda>hs. (name, kv_value p) # hs) (stored_headers id_header ps))"

definition default_status :: "js_response \<Rightarrow> nat" where
  "default_status res = (case jr_status res of None \<Rightarrow> 200 | Some s \<Rightarrow> s)"

definition is_streamed :: "js_response \<Rightarrow> bool" where
  "is_streamed res = (jr_streamed res = Some True)"

definition body_or_empty :: "js_response \<Rightarrow> string" where
  "body_or_empty res = (case jr_body res of None \<Rightarrow> [] | Some b \<Rightarrow> b)"

text \<open>The entry a response gives, if it is eligible; \<open>t_entry\<close> is the clock when the entry
  is built.\<close>

definition entry_for ::
  "cache_config \<Rightarrow> string \<Rightarrow> js_response \<Rightarrow> string \<Rightarrow> nat \<Rightarrow> entry option" where
  "entry_for cfg path res id_header t_entry =
     (if default_status res \<noteq> 200 \<or> is_streamed res then None
      else if length (body_or_empty res) > cc_max_body_bytes cfg then None
      else case stored_headers id_header
                  (case jr_headers res of None \<Rightarrow> [] | Some ps \<Rightarrow> ps) of
             None \<Rightarrow> None
           | Some headers \<Rightarrow>
               Some \<lparr>e_path = path, e_status = default_status res, e_headers = headers,
                     e_body = body_or_empty res, e_expires = t_entry + cc_ttl cfg\<rparr>)"

definition nth_key :: "nat \<Rightarrow> ('k \<times> 'v) list \<Rightarrow> 'k option" where
  "nth_key pick st = (if st = [] then None else Some (fst (st ! (pick mod length st))))"

definition make_room ::
  "cache_config \<Rightarrow> string \<Rightarrow> nat \<Rightarrow> nat \<Rightarrow> (string \<times> entry) list \<Rightarrow> (string \<times> entry) list" where
  "make_room cfg key t_sweep pick st =
     (if length st \<ge> cc_max_entries cfg \<and> map_of st key = None
      then let st' = filter (\<lambda>(k, e). e_expires e > t_sweep) st
           in if length st' \<ge> cc_max_entries cfg
              then (case nth_key pick st' of
                      None \<Rightarrow> st'
                    | Some k \<Rightarrow> AList.delete k st')
              else st'
      else st)"

definition maybe_store ::
  "leaf_cache \<Rightarrow> string \<Rightarrow> string \<Rightarrow> js_response \<Rightarrow> string \<Rightarrow> nat \<Rightarrow> nat \<Rightarrow> nat \<Rightarrow> leaf_cache" where
  "maybe_store c key path res id_header t_entry t_sweep pick =
     (case entry_for (lc_config c) path res id_header t_entry of
        None \<Rightarrow> c
      | Some e \<Rightarrow>
          c\<lparr>lc_store := AList.update key e (make_room (lc_config c) key t_sweep pick (lc_store c))\<rparr>)"

definition purge :: "leaf_cache \<Rightarrow> string option \<Rightarrow> nat \<times> leaf_cache" where
  "purge c path =
     (case path of
        None \<Rightarrow> (length (lc_store c), c\<lparr>lc_store := []\<rparr>)
      | Some p \<Rightarrow>
          (let st' = filter (\<lambda>(k, e). e_path e \<noteq> p) (lc_store c)
           in (length (lc_store c) - length st', c\<lparr>lc_store := st'\<rparr>)))"

section \<open>The invariant of the store\<close>

definition cache_inv :: "leaf_cache \<Rightarrow> bool" where
  "cache_inv c =
     (distinct (map fst (lc_store c)) \<and>
      length (lc_store c) \<le> max 1 (cc_max_entries (lc_config c)))"

lemma filter_map_of:
  "distinct (map fst st) \<Longrightarrow>
   map_of (filter (\<lambda>(k, e). P e) st) k =
     (case map_of st k of None \<Rightarrow> None | Some e \<Rightarrow> if P e then Some e else None)"
  by (induction st) (auto split: option.splits simp: map_of_eq_None_iff image_iff)

lemma length_delete_key:
  assumes "k \<in> fst ` set st"
  shows "length (AList.delete k st) < length st"
proof -
  from assms obtain x where "x \<in> set st" and "\<not> (case x of (k', _) \<Rightarrow> k \<noteq> k')"
    by force
  then show ?thesis unfolding AList.delete_eq by (rule length_filter_less)
qed

lemma nth_key_mem: "nth_key pick st = Some k \<Longrightarrow> k \<in> fst ` set st"
  by (auto simp: nth_key_def split: if_splits)

lemma distinct_make_room:
  "distinct (map fst st) \<Longrightarrow> distinct (map fst (make_room cfg key t pick st))"
  by (auto simp: make_room_def Let_def distinct_map_filter distinct_delete split: option.splits)

lemma length_make_room:
  assumes "distinct (map fst st)" and "map_of st key = None"
    and "length st \<le> max 1 (cc_max_entries cfg)"
  shows "length (make_room cfg key t pick st) < max 1 (cc_max_entries cfg)"
proof (cases "length st \<ge> cc_max_entries cfg")
  case False
  then show ?thesis by (simp add: make_room_def)
next
  case True
  let ?f = "filter (\<lambda>(k, e). t < e_expires e) st"
  have le: "length ?f \<le> length st" by simp
  show ?thesis
  proof (cases "length ?f \<ge> cc_max_entries cfg")
    case False
    with True assms show ?thesis by (simp add: make_room_def Let_def)
  next
    case full: True
    show ?thesis
    proof (cases "nth_key pick ?f")
      case None
      then have "?f = []" by (simp add: nth_key_def split: if_splits)
      with True full None assms show ?thesis by (simp add: make_room_def Let_def)
    next
      case (Some k)
      have "length (AList.delete k ?f) < length ?f"
        using Some by (intro length_delete_key nth_key_mem)
      moreover have "make_room cfg key t pick st = AList.delete k ?f"
        using True full Some assms by (simp add: make_room_def Let_def)
      ultimately show ?thesis using le assms(3) by (metis order_less_le_trans)
    qed
  qed
qed

lemma map_of_make_room:
  assumes "distinct (map fst st)" and "map_of (make_room cfg key t pick st) k = Some e"
  shows "map_of st k = Some e"
  using assms
  by (auto simp: make_room_def Let_def filter_map_of delete_conv' split: if_splits option.splits)

lemma length_update_key:
  "length (AList.update k v st) = (if map_of st k = None then Suc (length st) else length st)"
  by (induction st) auto

lemma cache_inv_new: "cache_inv (cache_new cfg)"
  by (simp add: cache_inv_def cache_new_def)

lemma cache_inv_lookup: "cache_inv c \<Longrightarrow> cache_inv (snd (lookup c key now))"
proof -
  assume inv: "cache_inv c"
  have "length (AList.delete key (lc_store c)) \<le> length (lc_store c)"
    by (simp add: AList.delete_eq)
  with inv show ?thesis
    by (auto simp: cache_inv_def lookup_def distinct_delete split: option.splits)
qed

lemma cache_inv_maybe_store:
  assumes "cache_inv c"
  shows "cache_inv (maybe_store c key path res idh t1 t2 pick)"
proof -
  let ?r = "make_room (lc_config c) key t2 pick (lc_store c)"
  have "length (AList.update key e ?r) \<le> max 1 (cc_max_entries (lc_config c))" for e
  proof (cases "map_of (lc_store c) key")
    case None
    with assms length_make_room [of "lc_store c" key "lc_config c" t2 pick]
    show ?thesis by (simp add: cache_inv_def length_update_key)
  next
    case (Some e')
    then have "?r = lc_store c" by (simp add: make_room_def)
    with Some assms show ?thesis by (simp add: cache_inv_def length_update_key)
  qed
  with assms show ?thesis
    by (auto simp: cache_inv_def maybe_store_def distinct_update distinct_make_room
        split: option.splits)
qed

lemma cache_inv_purge: "cache_inv c \<Longrightarrow> cache_inv (snd (purge c p))"
  by (auto simp: cache_inv_def purge_def Let_def distinct_map_filter split: option.splits
      intro: order_trans [OF length_filter_le])

section \<open>The contract of a response cache\<close>

text \<open>The requests a client makes of a cache.\<close>

datatype ('k, 'v, 'p) cache_op = Look 'k nat | Put 'k 'v | Purge 'p

text \<open>
  \<open>stored c k\<close> is what the cache holds under \<open>k\<close> and until when; \<open>admits v\<close> is what a
  put request would store. The laws say that lookups and purges only remove, that a put
  adds at most its own entry, and that a hit is the live stored value.
\<close>

locale response_cache =
  fixes inv :: "'c \<Rightarrow> bool"
    and fresh :: "'c"
    and stored :: "'c \<Rightarrow> 'k \<Rightarrow> ('h \<times> nat) option"
    and look :: "'c \<Rightarrow> 'k \<Rightarrow> nat \<Rightarrow> 'h option \<times> 'c"
    and put :: "'c \<Rightarrow> 'k \<Rightarrow> 'v \<Rightarrow> 'c"
    and clean :: "'c \<Rightarrow> 'p \<Rightarrow> nat \<times> 'c"
    and admits :: "'v \<Rightarrow> ('h \<times> nat) option"
  assumes inv_fresh: "inv fresh"
    and inv_look: "inv c \<Longrightarrow> inv (snd (look c k t))"
    and inv_put: "inv c \<Longrightarrow> inv (put c k v)"
    and inv_clean: "inv c \<Longrightarrow> inv (snd (clean c p))"
    and stored_fresh: "stored fresh k = None"
    and look_hit: "inv c \<Longrightarrow>
      fst (look c k t) = (case stored c k of None \<Rightarrow> None
                          | Some (h, x) \<Rightarrow> if t < x then Some h else None)"
    and look_keeps: "inv c \<Longrightarrow> stored (snd (look c k t)) k' = Some e \<Longrightarrow> stored c k' = Some e"
    and put_adds: "inv c \<Longrightarrow> stored (put c k v) k' = Some e \<Longrightarrow>
      stored c k' = Some e \<or> k' = k \<and> admits v = Some e"
    and put_stores: "inv c \<Longrightarrow> admits v = Some e \<Longrightarrow> stored (put c k v) k = Some e"
    and clean_keeps: "inv c \<Longrightarrow> stored (snd (clean c p)) k' = Some e \<Longrightarrow> stored c k' = Some e"
begin

fun serve :: "'c \<Rightarrow> ('k, 'v, 'p) cache_op \<Rightarrow> 'c" where
  "serve c (Look k t) = snd (look c k t)"
| "serve c (Put k v) = put c k v"
| "serve c (Purge p) = snd (clean c p)"

lemma inv_history: "inv c \<Longrightarrow> inv (foldl serve c ops)"
proof (induction ops arbitrary: c)
  case (Cons x ops)
  then have "inv (serve c x)" by (cases x) (auto intro: inv_look inv_put inv_clean)
  with Cons.IH show ?case by simp
qed simp

lemma provenance_from:
  "inv c \<Longrightarrow> stored (foldl serve c ops) k = Some e \<Longrightarrow>
   stored c k = Some e \<or> (\<exists>v. Put k v \<in> set ops \<and> admits v = Some e)"
proof (induction ops arbitrary: c)
  case (Cons x ops)
  then have "inv (serve c x)" by (cases x) (auto intro: inv_look inv_put inv_clean)
  with Cons have "stored (serve c x) k = Some e \<or> (\<exists>v. Put k v \<in> set ops \<and> admits v = Some e)"
    by simp
  with Cons.prems(1) show ?case
    by (cases x) (auto dest: look_keeps put_adds clean_keeps)
qed simp

text \<open>A hit, at any point of any history, is a value some put request stored under that
  very key, and it has not expired.\<close>

lemma hit_provenance:
  assumes "fst (look (foldl serve fresh ops) k t) = Some h"
  shows "\<exists>v x. Put k v \<in> set ops \<and> admits v = Some (h, x) \<and> t < x"
proof -
  let ?c = "foldl serve fresh ops"
  have "inv ?c" by (rule inv_history [OF inv_fresh])
  from assms look_hit [OF this, of k t] obtain x where "stored ?c k = Some (h, x)" "t < x"
    by (auto split: option.splits if_splits)
  with provenance_from [OF inv_fresh] stored_fresh show ?thesis by fastforce
qed

end

text \<open>The put requests of \<^verbatim>\<open>maybe_store\<close>: path, response, request-id header, the two clock
  readings and the eviction choice.\<close>

record put_req =
  pr_path :: string
  pr_res :: js_response
  pr_id_header :: string
  pr_t_entry :: nat
  pr_t_sweep :: nat
  pr_pick :: nat

definition put_of :: "leaf_cache \<Rightarrow> string \<Rightarrow> put_req \<Rightarrow> leaf_cache" where
  "put_of c k v =
     maybe_store c k (pr_path v) (pr_res v) (pr_id_header v) (pr_t_entry v) (pr_t_sweep v) (pr_pick v)"

definition stored_of :: "leaf_cache \<Rightarrow> string \<Rightarrow> (hit \<times> nat) option" where
  "stored_of c k = map_option (\<lambda>e. (hit_of e, e_expires e)) (map_of (lc_store c) k)"

definition admits_of :: "cache_config \<Rightarrow> put_req \<Rightarrow> (hit \<times> nat) option" where
  "admits_of cfg v = map_option (\<lambda>e. (hit_of e, e_expires e))
     (entry_for cfg (pr_path v) (pr_res v) (pr_id_header v) (pr_t_entry v))"

definition cache_inv_for :: "cache_config \<Rightarrow> leaf_cache \<Rightarrow> bool" where
  "cache_inv_for cfg c = (lc_config c = cfg \<and> cache_inv c)"

lemma config_frame [simp]:
  "lc_config (snd (lookup c k t)) = lc_config c"
  "lc_config (put_of c k v) = lc_config c"
  "lc_config (snd (purge c p)) = lc_config c"
  by (auto simp: lookup_def put_of_def maybe_store_def purge_def Let_def split: option.splits)

lemma cache_inv_put_of: "cache_inv c \<Longrightarrow> cache_inv (put_of c k v)"
  by (simp add: put_of_def cache_inv_maybe_store)

interpretation lc: response_cache "cache_inv_for cfg" "cache_new cfg" stored_of lookup put_of purge
  "admits_of cfg"
proof unfold_locales
  fix c k k' t v p e
  assume inv: "cache_inv_for cfg c"
  then have d: "distinct (map fst (lc_store c))" and cfg: "lc_config c = cfg"
    by (simp_all add: cache_inv_for_def cache_inv_def)
  show "cache_inv_for cfg (snd (lookup c k t))" "cache_inv_for cfg (put_of c k v)"
    "cache_inv_for cfg (snd (purge c p))"
    using inv by (simp_all add: cache_inv_for_def cache_inv_lookup cache_inv_put_of cache_inv_purge)
  show "fst (lookup c k t) = (case stored_of c k of None \<Rightarrow> None
      | Some (h, x) \<Rightarrow> if t < x then Some h else None)"
    by (auto simp: lookup_def stored_of_def split: option.splits)
  show "stored_of c k' = Some e" if "stored_of (snd (lookup c k t)) k' = Some e"
    using that by (auto simp: lookup_def stored_of_def delete_conv' split: option.splits if_splits)
  show "stored_of c k' = Some e \<or> k' = k \<and> admits_of cfg v = Some e"
    if "stored_of (put_of c k v) k' = Some e"
    using that cfg
    by (auto simp: put_of_def maybe_store_def stored_of_def admits_of_def update_conv'
        split: option.splits if_splits dest!: map_of_make_room [OF d])
  show "stored_of (put_of c k v) k = Some e" if "admits_of cfg v = Some e"
    using that cfg
    by (auto simp: put_of_def maybe_store_def stored_of_def admits_of_def update_conv'
        split: option.splits)
  show "stored_of c k' = Some e" if "stored_of (snd (purge c p)) k' = Some e"
    using that d
    by (auto simp: purge_def Let_def stored_of_def filter_map_of split: option.splits if_splits)
next
  show "cache_inv_for cfg (cache_new cfg)"
    by (simp add: cache_inv_for_def cache_inv_new) (simp add: cache_new_def)
  show "stored_of (cache_new cfg) k = None" for k
    by (simp add: stored_of_def cache_new_def)
qed

text \<open>The history of one leaf, over the model's own operations.\<close>

fun cache_step :: "leaf_cache \<Rightarrow> (string, put_req, string option) cache_op \<Rightarrow> leaf_cache" where
  "cache_step c (Look k t) = snd (lookup c k t)"
| "cache_step c (Put k v) = put_of c k v"
| "cache_step c (Purge p) = snd (purge c p)"

lemma serve_cache_step: "lc.serve = cache_step"
proof (intro ext)
  show "lc.serve c x = cache_step c x" for c x by (cases x) simp_all
qed

section \<open>Eligibility\<close>

definition header_forbids :: "kv_pair \<Rightarrow> bool" where
  "header_forbids p =
     (to_lowercase (kv_key p) = ''set-cookie'' \<or>
      to_lowercase (kv_key p) = ''cache-control'' \<and>
        (contains_str (to_lowercase (kv_value p)) ''no-store'' \<or>
         contains_str (to_lowercase (kv_value p)) ''private''))"

definition res_headers :: "js_response \<Rightarrow> kv_pair list" where
  "res_headers res = (case jr_headers res of None \<Rightarrow> [] | Some ps \<Rightarrow> ps)"

lemma stored_headers_eq:
  "stored_headers idh ps =
     (if list_ex header_forbids ps then None
      else Some (map (\<lambda>p. (to_lowercase (kv_key p), kv_value p))
                  (filter (\<lambda>p. to_lowercase (kv_key p) \<noteq> idh) ps)))"
  by (induction ps) (auto simp: header_forbids_def Let_def)

section \<open>Keys\<close>

lemma concat_Cons_join:
  "x @ concat (map (\<lambda>n. c # f n) ns) = join [c] (x # map f ns)"
proof (induction ns arbitrary: x)
  case (Cons a ns)
  have "f a @ concat (map (\<lambda>n. c # f n) ns) = join [c] (f a # map f ns)" by (rule Cons.IH)
  then show ?case by (simp add: join_Cons)
qed simp

lemma concat_snoc_inject:
  fixes vs ws :: "string list"
  assumes "concat (map (\<lambda>v. v @ [c]) vs) = concat (map (\<lambda>v. v @ [c]) ws)"
    and "\<And>v. v \<in> set vs \<Longrightarrow> c \<notin> set v" and "\<And>v. v \<in> set ws \<Longrightarrow> c \<notin> set v"
  shows "vs = ws"
proof -
  have sp: "split_on c (concat (map (\<lambda>v. v @ [c]) us)) = us @ [[]]"
    if "\<And>v. v \<in> set us \<Longrightarrow> c \<notin> set v" for us
    using that by (induction us) (auto simp: split_on_append)
  from assms(1) have "vs @ [[]] = ws @ [[]]"
    using sp [of vs] sp [of ws] assms(2,3) by metis
  then show ?thesis by simp
qed

definition key_fields ::
  "leaf_cache \<Rightarrow> string \<Rightarrow> string \<Rightarrow> string option \<Rightarrow> kv_pair list \<Rightarrow> u64 option \<Rightarrow> string list" where
  "key_fields c meth path qs hs bh =
     meth # path # (case qs of None \<Rightarrow> [] | Some q \<Rightarrow> q) #
     map (vary_part hs) (cc_vary (lc_config c)) @
     (case bh of None \<Rightarrow> [] | Some h \<Rightarrow> [pad_left 16 (show_hex (unat h))])"

lemma cache_key_join: "cache_key c meth path qs hs bh = join [newline] (key_fields c meth path qs hs bh)"
proof -
  define q where "q = (case qs of None \<Rightarrow> [] | Some q \<Rightarrow> q)"
  define tail where "tail = map (vary_part hs) (cc_vary (lc_config c)) @
      (case bh of None \<Rightarrow> [] | Some h \<Rightarrow> [pad_left 16 (show_hex (unat h))])"
  have "cache_key c meth path qs hs bh =
      meth @ [newline] @ path @ [newline] @ q @ concat (map (\<lambda>x. newline # x) tail)"
    by (auto simp: cache_key_def q_def tail_def comp_def split: option.splits)
  also have "\<dots> = join [newline] (meth # path # q # tail)"
    using concat_Cons_join [of q newline "\<lambda>x. x" tail] by (simp add: join_Cons)
  finally show ?thesis by (simp add: key_fields_def q_def tail_def)
qed

definition clean_request :: "string \<Rightarrow> string \<Rightarrow> string option \<Rightarrow> kv_pair list \<Rightarrow> bool" where
  "clean_request meth path qs hs =
     (newline \<notin> set meth \<and> newline \<notin> set path \<and>
      (\<forall>q. qs = Some q \<longrightarrow> newline \<notin> set q) \<and>
      list_all (\<lambda>p. newline \<notin> set (kv_value p) \<and> unit_sep \<notin> set (kv_value p)) hs)"

lemma key_fields_clean:
  assumes "clean_request meth path qs hs" and "f \<in> set (key_fields c meth path qs hs bh)"
  shows "newline \<notin> set f"
proof -
  have "newline \<notin> set (vary_part hs n)" for n
    using assms(1)
    by (auto simp: clean_request_def vary_part_def list_all_iff newline_def unit_sep_def)
  moreover have "newline \<notin> set (pad_left 16 (show_hex n))" for n
    using hex_chars [of newline 16 n] by (auto simp: newline_def)
  ultimately show ?thesis
    using assms by (auto simp: key_fields_def clean_request_def split: option.splits)
qed

lemma vary_part_inject:
  assumes "clean_request m p q hs" and "clean_request m' p' q' hs'"
    and "vary_part hs n = vary_part hs' n"
  shows "map kv_value (filter (\<lambda>x. kv_key x = n) hs) = map kv_value (filter (\<lambda>x. kv_key x = n) hs')"
proof (rule concat_snoc_inject)
  show "concat (map (\<lambda>v. v @ [unit_sep]) (map kv_value (filter (\<lambda>x. kv_key x = n) hs))) =
        concat (map (\<lambda>v. v @ [unit_sep]) (map kv_value (filter (\<lambda>x. kv_key x = n) hs')))"
    using assms(3) by (simp add: vary_part_def comp_def)
qed (use assms in \<open>auto simp: clean_request_def list_all_iff\<close>)

lemma key_fields_inject:
  assumes "clean_request m p q hs" and "clean_request m' p' q' hs'"
    and "cache_key c m p q hs bh = cache_key c m' p' q' hs' bh'"
  shows "key_fields c m p q hs bh = key_fields c m' p' q' hs' bh'"
  using assms(3) unfolding cache_key_join
  by (rule join_inject) (use assms key_fields_clean in \<open>auto simp: key_fields_def\<close>)

text \<open>The key just stored, looked up at a later time.\<close>

lemma lookup_maybe_store:
  assumes "entry_for (lc_config c) path res idh t1 = Some e"
  shows "lookup (maybe_store c key path res idh t1 t2 pick) key now =
     (if now < t1 + cc_ttl (lc_config c)
      then (Some (hit_of e), maybe_store c key path res idh t1 t2 pick)
      else (None, (maybe_store c key path res idh t1 t2 pick)\<lparr>lc_store :=
              AList.delete key (lc_store (maybe_store c key path res idh t1 t2 pick))\<rparr>))"
proof -
  have "lc_store (maybe_store c key path res idh t1 t2 pick) =
      AList.update key e (make_room (lc_config c) key t2 pick (lc_store c))"
    using assms by (simp add: maybe_store_def)
  moreover have "e_expires e = t1 + cc_ttl (lc_config c)"
    using assms by (auto simp: entry_for_def split: if_splits option.splits)
  ultimately show ?thesis by (simp add: lookup_def update_conv')
qed

section \<open>Properties\<close>

definition sample_config :: cache_config where
  "sample_config = \<lparr>cc_ttl = 10, cc_vary = [''x-tenant''], cc_max_entries = 2, cc_max_body_bytes = 5\<rparr>"

definition sample_response :: js_response where
  "sample_response =
     \<lparr>jr_status = Some 200, jr_headers = Some [kv ''X-A'' ''1'', kv ''x-request-id'' ''r0''],
      jr_body = Some ''hi'', jr_streamed = None\<rparr>"

definition sample_put :: put_req where
  "sample_put =
     \<lparr>pr_path = ''/a'', pr_res = sample_response, pr_id_header = ''x-request-id'',
      pr_t_entry = 100, pr_t_sweep = 100, pr_pick = 0\<rparr>"

text \<open>C7: Provenance of cache hits. In every history of lookups, stores and purges of one
  route's cache, whatever the eviction choices, a hit for a key at time \<open>t\<close> is exactly the
  entry that some earlier store under that same key built from an eligible response, and
  less than the time-to-live has passed since that entry was built.\<close>

theorem cache_hit_provenance:
  assumes "fst (lookup (foldl cache_step (cache_new cfg) ops) k t) = Some h"
  shows "\<exists>v e. Put k v \<in> set ops \<and>
    entry_for cfg (pr_path v) (pr_res v) (pr_id_header v) (pr_t_entry v) = Some e \<and>
    h = hit_of e \<and> t < pr_t_entry v + cc_ttl cfg"
proof -
  from assms obtain v x where v: "Put k v \<in> set ops" "admits_of cfg v = Some (h, x)" "t < x"
    using lc.hit_provenance [of cfg ops k t h] unfolding serve_cache_step by auto
  then show ?thesis
    by (intro exI [of _ v])
       (auto simp: admits_of_def entry_for_def split: if_splits option.splits)
qed

theorem cache_hit_provenance_witness:
  "\<exists>v e. (Put ''k'' v :: (string, put_req, string option) cache_op) \<in> set [Put ''k'' sample_put] \<and>
    entry_for sample_config (pr_path v) (pr_res v) (pr_id_header v) (pr_t_entry v) = Some e \<and>
    \<lparr>h_status = 200, h_headers = [(''x-a'', ''1'')], h_body = ''hi''\<rparr> = hit_of e \<and>
    105 < pr_t_entry v + cc_ttl sample_config"
proof (rule cache_hit_provenance)
  show "fst (lookup (foldl cache_step (cache_new sample_config) [Put ''k'' sample_put]) ''k'' 105)
      = Some \<lparr>h_status = 200, h_headers = [(''x-a'', ''1'')], h_body = ''hi''\<rparr>"
    by code_simp
qed

text \<open>C35: The entry cap holds at every moment: after any history the store has distinct
  keys and at most \<^verbatim>\<open>max_entries\<close> entries (one when the cap is zero).\<close>

theorem cache_size_bounded:
  "distinct (map fst (lc_store (foldl cache_step (cache_new cfg) ops))) \<and>
   length (lc_store (foldl cache_step (cache_new cfg) ops)) \<le> max 1 (cc_max_entries cfg)"
  using lc.inv_history [OF lc.inv_fresh, of cfg ops]
  by (auto simp: cache_inv_for_def cache_inv_def serve_cache_step)

text \<open>Exactly the plain responses are stored: status 200, not streamed, body within the
  limit, no \<^verbatim>\<open>Set-Cookie\<close> and no \<^verbatim>\<open>Cache-Control\<close> with \<^verbatim>\<open>no-store\<close> or \<^verbatim>\<open>private\<close> (names compared
  case-insensitively); what is stored is the response with lower-case header names and
  without the request-id header.\<close>

theorem eligible_iff_plain:
  "entry_for cfg path res idh t = Some e \<longleftrightarrow>
     default_status res = 200 \<and> \<not> is_streamed res \<and>
     length (body_or_empty res) \<le> cc_max_body_bytes cfg \<and>
     \<not> list_ex header_forbids (res_headers res) \<and>
     e = \<lparr>e_path = path, e_status = 200,
          e_headers = map (\<lambda>p. (to_lowercase (kv_key p), kv_value p))
            (filter (\<lambda>p. to_lowercase (kv_key p) \<noteq> idh) (res_headers res)),
          e_body = body_or_empty res, e_expires = t + cc_ttl cfg\<rparr>"
  by (auto simp: entry_for_def stored_headers_eq res_headers_def split: option.splits if_splits)

text \<open>A stored response is served back. After a store of an eligible response, a lookup
  of the same key before expiry returns it and leaves the cache alone, while at or after
  expiry it misses; and the store never changes what another key gives, except by evicting
  it.\<close>

theorem store_then_lookup:
  assumes "cache_inv c" and "entry_for (lc_config c) path res idh t1 = Some e"
  shows "let c' = maybe_store c key path res idh t1 t2 pick
    in lookup c' key now =
         (if now < t1 + cc_ttl (lc_config c) then (Some (hit_of e), c')
          else (None, c'\<lparr>lc_store := AList.delete key (lc_store c')\<rparr>)) \<and>
       (\<forall>k h. k \<noteq> key \<and> fst (lookup c' k now) = Some h \<longrightarrow> fst (lookup c k now) = Some h)"
proof -
  let ?c' = "maybe_store c key path res idh t1 t2 pick"
  have d: "distinct (map fst (lc_store c))" using assms(1) by (simp add: cache_inv_def)
  have st: "lc_store ?c' = AList.update key e (make_room (lc_config c) key t2 pick (lc_store c))"
    using assms(2) by (simp add: maybe_store_def)
  have "fst (lookup c k now) = Some h" if "k \<noteq> key" "fst (lookup ?c' k now) = Some h" for k h
    using that by (auto simp: lookup_def st update_conv' split: option.splits if_splits
        dest!: map_of_make_room [OF d])
  then show ?thesis using lookup_maybe_store [OF assms(2)] by (simp add: Let_def)
qed

theorem store_then_lookup_witness:
  "lookup (maybe_store (cache_new sample_config) ''k'' ''/a'' sample_response ''x-request-id'' 100 100 0)
     ''k'' 109 =
   (Some \<lparr>h_status = 200, h_headers = [(''x-a'', ''1'')], h_body = ''hi''\<rparr>,
    maybe_store (cache_new sample_config) ''k'' ''/a'' sample_response ''x-request-id'' 100 100 0)"
proof -
  define e where "e = \<lparr>e_path = ''/a'', e_status = 200, e_headers = [(''x-a'', ''1'')],
      e_body = ''hi'', e_expires = 110\<rparr>"
  have 1: "cache_inv (cache_new sample_config)" by (rule cache_inv_new)
  have 2: "entry_for (lc_config (cache_new sample_config)) ''/a'' sample_response ''x-request-id'' 100
      = Some e" unfolding e_def by code_simp
  have 3: "cc_ttl (lc_config (cache_new sample_config)) = 10" by code_simp
  from store_then_lookup [OF 1 2, of "''k''" 100 0 109] show ?thesis
    by (simp add: Let_def 3 hit_of_def e_def)
qed

text \<open>A purge by path removes exactly the entries stored under that path, returns how
  many they were, and leaves every other entry as it was; a purge without a path empties
  the store and returns its size.\<close>

theorem purge_spec:
  assumes "cache_inv c"
  shows "(case purge c (Some p) of (n, c') \<Rightarrow>
       n = card {k. \<exists>e. map_of (lc_store c) k = Some e \<and> e_path e = p} \<and>
       (\<forall>k. map_of (lc_store c') k =
          (case map_of (lc_store c) k of
             None \<Rightarrow> None | Some e \<Rightarrow> if e_path e = p then None else Some e))) \<and>
     fst (purge c None) = card (dom (map_of (lc_store c))) \<and> lc_store (snd (purge c None)) = []"
proof -
  have d: "distinct (map fst (lc_store c))" using assms by (simp add: cache_inv_def)
  let ?out = "filter (\<lambda>(k, e). e_path e = p) (lc_store c)"
  let ?in = "filter (\<lambda>(k, e). e_path e \<noteq> p) (lc_store c)"
  have "{k. \<exists>e. map_of (lc_store c) k = Some e \<and> e_path e = p} = fst ` set ?out"
    using d by force
  then have "card {k. \<exists>e. map_of (lc_store c) k = Some e \<and> e_path e = p} = length ?out"
    using d by (metis (no_types, lifting) distinct_card distinct_map_filter length_map list.set_map)
  moreover have "length (lc_store c) = length ?out + length ?in"
    by (induction "lc_store c") (auto simp: sum_length_filter_compl [symmetric] case_prod_unfold)
  moreover have "card (dom (map_of (lc_store c))) = length (lc_store c)"
    using d by (metis distinct_card dom_map_of_conv_image_fst length_map list.set_map)
  ultimately show ?thesis
    using d by (auto simp: purge_def Let_def filter_map_of split: option.splits)
qed

theorem purge_spec_witness:
  "fst (purge (cache_step (cache_new sample_config) (Put ''k'' sample_put)) (Some ''/a'')) = 1"
proof -
  let ?c = "cache_step (cache_new sample_config) (Put ''k'' sample_put)"
  have "cache_inv ?c" by (simp add: cache_inv_put_of cache_inv_new)
  from purge_spec [OF this, of "''/a''"]
  have "fst (purge ?c (Some ''/a'')) =
      card {k. \<exists>e. map_of (lc_store ?c) k = Some e \<and> e_path e = ''/a''}"
    by (simp add: case_prod_unfold)
  moreover have "lc_store ?c = [(''k'', \<lparr>e_path = ''/a'', e_status = 200,
      e_headers = [(''x-a'', ''1'')], e_body = ''hi'', e_expires = 110\<rparr>)]" by code_simp
  ultimately show ?thesis by simp
qed

text \<open>C34: Cache keys do not collide. For requests whose method, path, query string and
  header values hold no newline and no unit separator (as HTTP guarantees), two requests
  with the same key of the same route agree on the method, the path, the query string (an
  absent one counts as empty), the list of values of every \<^verbatim>\<open>vary\<close> header and the body hash.\<close>

theorem cache_key_injective:
  assumes "clean_request m p q hs" and "clean_request m' p' q' hs'"
    and "cache_key c m p q hs bh = cache_key c m' p' q' hs' bh'"
  shows "m = m' \<and> p = p' \<and> case_option [] id q = case_option [] id q' \<and> bh = bh' \<and>
    (\<forall>n \<in> set (cc_vary (lc_config c)).
       map kv_value (filter (\<lambda>x. kv_key x = n) hs) = map kv_value (filter (\<lambda>x. kv_key x = n) hs'))"
proof -
  let ?v = "map (vary_part hs) (cc_vary (lc_config c))"
  let ?v' = "map (vary_part hs') (cc_vary (lc_config c))"
  let ?h = "\<lambda>b :: u64 option. case b of None \<Rightarrow> [] | Some h \<Rightarrow> [pad_left 16 (show_hex (unat h))]"
  from key_fields_inject [OF assms]
  have head: "m = m' \<and> p = p' \<and> case_option [] id q = case_option [] id q'"
    and "?v @ ?h bh = ?v' @ ?h bh'"
    by (auto simp: key_fields_def split: option.splits)
  then have v: "?v = ?v'" and h: "?h bh = ?h bh'" by simp_all
  from h have "bh = bh'" by (auto simp: pad_hex_inject word_unat_eq_iff split: option.splits)
  moreover from v have "\<forall>n \<in> set (cc_vary (lc_config c)). vary_part hs n = vary_part hs' n" by simp
  ultimately show ?thesis using head vary_part_inject [OF assms(1,2)] by blast
qed

theorem cache_key_injective_witness:
  "let c = cache_new sample_config; hs = [kv ''x-tenant'' ''a'', kv ''host'' ''h'']
   in map kv_value (filter (\<lambda>x. kv_key x = ''x-tenant'') hs) =
      map kv_value (filter (\<lambda>x. kv_key x = ''x-tenant'') [kv ''x-tenant'' ''a''])"
proof -
  have 1: "clean_request ''GET'' ''/a'' None [kv ''x-tenant'' ''a'', kv ''host'' ''h'']"
    and 2: "clean_request ''GET'' ''/a'' (Some []) [kv ''x-tenant'' ''a'']"
    by (simp_all add: clean_request_def newline_def unit_sep_def)
  have 3: "cache_key (cache_new sample_config) ''GET'' ''/a'' None
        [kv ''x-tenant'' ''a'', kv ''host'' ''h''] None
      = cache_key (cache_new sample_config) ''GET'' ''/a'' (Some []) [kv ''x-tenant'' ''a''] None"
    by code_simp
  have 4: "''x-tenant'' \<in> set (cc_vary (lc_config (cache_new sample_config)))" by code_simp
  from cache_key_injective [OF 1 2 3] 4 show ?thesis by (simp add: Let_def)
qed

end
