(* ===== verification/Cors.thy ===== *)
theory Cors
  imports Prelude
begin

text \<open>
  The native CORS policy of \<^verbatim>\<open>src/cors.rs\<close>: compiled options, the preflight headers and the
  headers of a regular response.
\<close>

section \<open>Definitions\<close>

record cors_options =
  co_origins :: "string list"
  co_methods :: "string list"
  co_allowed_headers :: "string list option"
  co_exposed_headers :: "string list option"
  co_credentials :: bool
  co_max_age :: "int option"

record cors =
  cs_any_origin :: bool
  cs_origins :: "string list"
  cs_methods :: string
  cs_allowed_headers :: "string option"
  cs_exposed_headers :: "string option"
  cs_credentials :: bool
  cs_max_age :: "string option"

definition cors_new :: "cors_options \<Rightarrow> cors" where
  "cors_new o' =
     \<lparr>cs_any_origin = list_ex (\<lambda>x. x = ''*'') (co_origins o'),
      cs_origins = co_origins o',
      cs_methods = join '', '' (co_methods o'),
      cs_allowed_headers = map_option (join '', '') (co_allowed_headers o'),
      cs_exposed_headers = map_option (join '', '') (co_exposed_headers o'),
      cs_credentials = co_credentials o',
      cs_max_age = map_option show_int (co_max_age o')\<rparr>"

definition resolve_origin :: "cors \<Rightarrow> string option \<Rightarrow> string option" where
  "resolve_origin c origin =
     (if cs_any_origin c then (if cs_credentials c then None else Some ''*'')
      else case origin of
             Some o' \<Rightarrow> if list_ex (\<lambda>x. x = o') (cs_origins c) then Some o' else None
           | None \<Rightarrow> None)"

definition allow_origin :: string where
  "allow_origin = ''access-control-allow-origin''"

definition allow_credentials :: "string \<times> string" where
  "allow_credentials = (''access-control-allow-credentials'', ''true'')"

text \<open>\<^verbatim>\<open>if let Some(v) = opt { h.push((name, v)) }\<close>.\<close>

definition opt_header :: "string \<Rightarrow> string option \<Rightarrow> (string \<times> string) list" where
  "opt_header name v = (case v of None \<Rightarrow> [] | Some x \<Rightarrow> [(name, x)])"

definition preflight :: "cors \<Rightarrow> string option \<Rightarrow> string option \<Rightarrow> (string \<times> string) list option" where
  "preflight c origin req_headers =
     (case resolve_origin c origin of
        None \<Rightarrow> None
      | Some acao \<Rightarrow>
          Some ([(allow_origin, acao), (''access-control-allow-methods'', cs_methods c)]
            @ opt_header ''access-control-allow-headers''
                (case cs_allowed_headers c of Some ah \<Rightarrow> Some ah | None \<Rightarrow> req_headers)
            @ opt_header ''access-control-max-age'' (cs_max_age c)
            @ (if cs_credentials c then [allow_credentials] else [])
            @ (if \<not> cs_any_origin c then [(''vary'', ''origin'')] else [])))"

definition actual :: "cors \<Rightarrow> string option \<Rightarrow> (string \<times> string) list" where
  "actual c origin =
     (case resolve_origin c origin of
        None \<Rightarrow> []
      | Some acao \<Rightarrow>
          [(allow_origin, acao)]
          @ (if cs_credentials c then [allow_credentials] else [])
          @ opt_header ''access-control-expose-headers'' (cs_exposed_headers c)
          @ (if \<not> cs_any_origin c then [(''vary'', ''origin'')] else []))"

section \<open>Lemmas\<close>

text \<open>What a resolved origin can be, for a policy compiled from options.\<close>

lemma resolve_origin_cases:
  assumes "resolve_origin (cors_new opts) origin = Some v"
  obtains (star) "v = ''*''" "''*'' \<in> set (co_origins opts)" "\<not> co_credentials opts"
  | (listed) "origin = Some v" "v \<in> set (co_origins opts)" "''*'' \<notin> set (co_origins opts)"
  using assms
  by (auto simp: resolve_origin_def cors_new_def list_ex_iff split: if_splits option.splits)

lemma resolve_origin_None:
  "resolve_origin (cors_new opts) origin = None \<longleftrightarrow>
     (if ''*'' \<in> set (co_origins opts) then co_credentials opts
      else \<forall>v. origin = Some v \<longrightarrow> v \<notin> set (co_origins opts))"
  by (auto simp: resolve_origin_def cors_new_def list_ex_iff split: option.splits)

lemmas cors_header_simps =
  preflight_def actual_def opt_header_def allow_origin_def allow_credentials_def

text \<open>The headers a policy emits for a request, on either path.\<close>

definition cors_headers :: "cors \<Rightarrow> string option \<Rightarrow> string option \<Rightarrow> (string \<times> string) list set" where
  "cors_headers c origin req_headers =
     {h. h = actual c origin \<or> preflight c origin req_headers = Some h}"

lemma cors_headers_origin:
  "h \<in> cors_headers c origin rh \<Longrightarrow> (allow_origin, v) \<in> set h \<Longrightarrow> resolve_origin c origin = Some v"
  by (auto simp: cors_headers_def cors_header_simps split: option.splits if_splits)

lemma cors_headers_credentials:
  "h \<in> cors_headers c origin rh \<Longrightarrow> allow_credentials \<in> set h \<Longrightarrow>
     cs_credentials c \<and> (\<exists>v. resolve_origin c origin = Some v \<and> (allow_origin, v) \<in> set h)"
  by (auto simp: cors_headers_def cors_header_simps split: option.splits if_splits)

section \<open>Properties\<close>

text \<open>C19: A policy never grants credentials to an origin that was not listed. Whatever the
  options and the request, on a preflight and on a regular response alike, an allowed
  origin in the headers is either \<^verbatim>\<open>*\<close> with a wildcard configured and credentials off, or the
  request's own origin taken from the configured list; and where the credentials header is
  present the allowed origin is the listed one, never \<^verbatim>\<open>*\<close>.\<close>

theorem cors_grants_only_listed_origins:
  assumes "h \<in> cors_headers (cors_new opts) origin req_headers"
    and "(allow_origin, v) \<in> set h"
  shows "(v = ''*'' \<and> ''*'' \<in> set (co_origins opts) \<and> \<not> co_credentials opts \<and>
            allow_credentials \<notin> set h)
       \<or> (origin = Some v \<and> v \<in> set (co_origins opts) \<and> ''*'' \<notin> set (co_origins opts))"
proof -
  have res: "resolve_origin (cors_new opts) origin = Some v"
    using assms by (rule cors_headers_origin)
  then show ?thesis
  proof (cases rule: resolve_origin_cases)
    case star
    then have "allow_credentials \<notin> set h"
      using cors_headers_credentials [OF assms(1)] by (auto simp: cors_new_def)
    with star show ?thesis by blast
  qed blast
qed

definition sample_cors :: cors_options where
  "sample_cors =
     \<lparr>co_origins = [''https://ok.com''], co_methods = [''GET'', ''POST''], co_allowed_headers = None,
      co_exposed_headers = None, co_credentials = True, co_max_age = Some 600\<rparr>"

theorem cors_grants_only_listed_origins_witness:
  "(allow_origin, ''https://ok.com'') \<in> set (actual (cors_new sample_cors) (Some ''https://ok.com'')) \<and>
   ''https://ok.com'' \<in> set (co_origins sample_cors)"
proof -
  let ?h = "actual (cors_new sample_cors) (Some ''https://ok.com'')"
  have 1: "?h \<in> cors_headers (cors_new sample_cors) (Some ''https://ok.com'') None"
    by (simp add: cors_headers_def)
  have 2: "(allow_origin, ''https://ok.com'') \<in> set ?h" by code_simp
  from cors_grants_only_listed_origins [OF 1 2] 2 show ?thesis by (auto simp: sample_cors_def)
qed

text \<open>The refusals are exactly the intended ones: a preflight is refused (\<^verbatim>\<open>403\<close>) and a
  regular response carries no CORS header precisely when a wildcard is combined with
  credentials, or when no wildcard is configured and the request's origin is absent or not
  in the list.\<close>

theorem cors_refusals:
  "(preflight (cors_new opts) origin req_headers = None \<longleftrightarrow> actual (cors_new opts) origin = []) \<and>
   (actual (cors_new opts) origin = [] \<longleftrightarrow>
     (if ''*'' \<in> set (co_origins opts) then co_credentials opts
      else case origin of None \<Rightarrow> True | Some v \<Rightarrow> v \<notin> set (co_origins opts)))"
proof -
  have "preflight (cors_new opts) origin req_headers = None \<longleftrightarrow> resolve_origin (cors_new opts) origin = None"
    and "actual (cors_new opts) origin = [] \<longleftrightarrow> resolve_origin (cors_new opts) origin = None"
    by (simp_all add: preflight_def actual_def split: option.splits)
  then show ?thesis by (simp add: resolve_origin_None split: option.splits)
qed

end
