(* ===== verification/Health.thy ===== *)
theory Health
  imports Prelude
begin

text \<open>
  Probe paths and the readiness state of \<^verbatim>\<open>src/health.rs\<close>: three independent reasons not
  to be ready, each an atomic flag.
\<close>

record health_paths =
  hp_health :: string
  hp_ready :: string
  hp_metrics :: string

definition default_health_paths :: health_paths where
  "default_health_paths =
     \<lparr>hp_health = ''/healthz'', hp_ready = ''/readyz'', hp_metrics = ''/metrics''\<rparr>"

record readiness =
  rd_draining :: bool
  rd_js_not_ready :: bool
  rd_overloaded :: bool

definition readiness_default :: readiness where
  "readiness_default = \<lparr>rd_draining = False, rd_js_not_ready = False, rd_overloaded = False\<rparr>"

definition set_draining :: "readiness \<Rightarrow> bool \<Rightarrow> readiness" where
  "set_draining r v = r\<lparr>rd_draining := v\<rparr>"

definition set_js_ready :: "readiness \<Rightarrow> bool \<Rightarrow> readiness" where
  "set_js_ready r ready = r\<lparr>rd_js_not_ready := \<not> ready\<rparr>"

definition set_overloaded :: "readiness \<Rightarrow> bool \<Rightarrow> readiness" where
  "set_overloaded r v = r\<lparr>rd_overloaded := v\<rparr>"

definition is_ready :: "readiness \<Rightarrow> bool" where
  "is_ready r = (\<not> rd_draining r \<and> \<not> rd_js_not_ready r \<and> \<not> rd_overloaded r)"

definition reason :: "readiness \<Rightarrow> string" where
  "reason r =
     (if rd_draining r then ''draining''
      else if rd_overloaded r then ''overloaded''
      else if rd_js_not_ready r then ''not-ready''
      else ''ready'')"

lemma reason_ready: "reason r = ''ready'' \<longleftrightarrow> is_ready r"
  by (simp add: reason_def is_ready_def)

lemma readiness_frames [simp]:
  "rd_draining (set_js_ready r a) = rd_draining r"
  "rd_draining (set_overloaded r a) = rd_draining r"
  "rd_overloaded (set_js_ready r a) = rd_overloaded r"
  "rd_overloaded (set_draining r a) = rd_overloaded r"
  "rd_js_not_ready (set_draining r a) = rd_js_not_ready r"
  "rd_js_not_ready (set_overloaded r a) = rd_js_not_ready r"
  "rd_draining (set_draining r a) = a"
  "rd_overloaded (set_overloaded r a) = a"
  "rd_js_not_ready (set_js_ready r a) = (\<not> a)"
  by (simp_all add: set_js_ready_def set_overloaded_def set_draining_def)

text \<open>The readiness body and status agree, in every combination of the three flags: the
  reason is \<^verbatim>\<open>ready\<close> exactly when no flag is set, and a drain outranks the other reasons
  whatever the overload layer and JavaScript set afterwards.\<close>

theorem readiness_reason_agrees:
  "(reason r = ''ready'' \<longleftrightarrow> is_ready r) \<and>
   reason (set_js_ready (set_overloaded (set_draining r True) ov) js) = ''draining'' \<and>
   \<not> is_ready (set_js_ready (set_overloaded (set_draining r True) ov) js)"
  by (simp add: reason_ready) (simp add: reason_def is_ready_def)

end
