(* ===== verification/Contracts.thy ===== *)
theory Contracts
  imports Prelude
begin

text \<open>
  The contracts that several components share.

  \<open>gauge\<close>: a 64-bit counter that one operation raises and another lowers (requests in
  flight, open connections, the guard of the idle watchdog). The atomic operations wrap
  around, so the level is a word and the law of a history is an equation between words.

  \<open>size_guard\<close>: a reader that keeps bytes until a limit would be passed (buffered bodies,
  streamed bodies, decoded bodies, multipart parts). The counter may saturate at
  \<open>2 ^ 64 - 1\<close>, so the laws are stated for totals below \<open>2 ^ 64\<close>.

  \<open>stable\<close>, \<open>invariant\<close>, \<open>simulation\<close>, \<open>settling\<close>: what the step relations of the
  concurrent parts (the doorbell, the crowd of requests, the limiter, the response stream, the
  accept loops) promise of one step, and what follows for runs. A predicate that every step keeps
  holds along runs; with the start it holds of every reachable state; a simulation carries
  reachability, hence every invariant, from one system to another; and a system whose steps all
  decrease a measure comes to rest.
\<close>

section \<open>Step relations\<close>

lemma step_run: "R s t \<Longrightarrow> R\<^sup>*\<^sup>* t u \<Longrightarrow> R\<^sup>*\<^sup>* s u"
  by (rule converse_rtranclp_into_rtranclp)

lemma two_steps: "R a b \<Longrightarrow> R b c \<Longrightarrow> R\<^sup>*\<^sup>* a c"
  by (rule step_run [OF _ r_into_rtranclp])

locale stable =
  fixes step :: "'s \<Rightarrow> 's \<Rightarrow> bool" and holds_in :: "'s \<Rightarrow> bool"
  assumes kept: "step s s' \<Longrightarrow> holds_in s \<Longrightarrow> holds_in s'"
begin

lemma chain: "step s t \<Longrightarrow> step\<^sup>*\<^sup>* t u \<Longrightarrow> step\<^sup>*\<^sup>* s u"
  by (rule step_run)

lemma along: "step\<^sup>*\<^sup>* s s' \<Longrightarrow> holds_in s \<Longrightarrow> holds_in s'"
  by (induction rule: rtranclp_induct) (auto intro: kept)

end

locale invariant = stable +
  fixes start :: 's
  assumes initially: "holds_in start"
begin

lemma always: "step\<^sup>*\<^sup>* start s \<Longrightarrow> holds_in s"
  by (rule along [OF _ initially])

text \<open>It also holds of whatever is reached from a reachable state.\<close>

lemma ever_after: "step\<^sup>*\<^sup>* start s \<Longrightarrow> step\<^sup>*\<^sup>* s s' \<Longrightarrow> holds_in s'"
  by (rule along [OF _ always])

end

text \<open>A concrete system whose steps an abstract one can follow, with any number of steps.\<close>

locale simulation =
  fixes cstep :: "'c \<Rightarrow> 'c \<Rightarrow> bool" and cstart :: 'c
    and astep :: "'a \<Rightarrow> 'a \<Rightarrow> bool" and astart :: 'a
    and sees :: "'c \<Rightarrow> 'a \<Rightarrow> bool"
  assumes sees_start: "sees cstart astart"
    and follows: "cstep c c' \<Longrightarrow> sees c a \<Longrightarrow> \<exists>a'. astep\<^sup>*\<^sup>* a a' \<and> sees c' a'"
begin

lemma follows_run: "cstep\<^sup>*\<^sup>* c c' \<Longrightarrow> sees c a \<Longrightarrow> \<exists>a'. astep\<^sup>*\<^sup>* a a' \<and> sees c' a'"
proof (induction rule: rtranclp_induct)
  case (step y z)
  then obtain b where b: "astep\<^sup>*\<^sup>* a b" "sees y b" by blast
  from follows [OF step.hyps(2) b(2)] obtain b' where "astep\<^sup>*\<^sup>* b b'" "sees z b'" by blast
  with b(1) show ?case by (blast intro: rtranclp_trans)
qed blast

lemma follows_reachable: "cstep\<^sup>*\<^sup>* cstart c \<Longrightarrow> \<exists>a. astep\<^sup>*\<^sup>* astart a \<and> sees c a"
  by (rule follows_run [OF _ sees_start])

end

text \<open>An invariant of the abstract system is seen in every reachable concrete state.\<close>

locale simulation_of_invariant =
  simulation cstep cstart astep astart sees + abs: invariant astep holds_in astart
  for cstep :: "'c \<Rightarrow> 'c \<Rightarrow> bool" and cstart :: 'c
    and astep :: "'a \<Rightarrow> 'a \<Rightarrow> bool" and astart :: 'a
    and sees :: "'c \<Rightarrow> 'a \<Rightarrow> bool" and holds_in :: "'a \<Rightarrow> bool"

sublocale simulation_of_invariant \<subseteq> conc: invariant cstep "\<lambda>c. \<exists>a. sees c a \<and> holds_in a" cstart
proof unfold_locales
  show "\<exists>a. sees c' a \<and> holds_in a" if "cstep c c'" and "\<exists>a. sees c a \<and> holds_in a" for c c'
    using follows [OF that(1)] that(2) by (blast intro: abs.along)
qed (blast intro: sees_start abs.initially)

locale settling =
  fixes step :: "'s \<Rightarrow> 's \<Rightarrow> bool" and fuel_of :: "'s \<Rightarrow> nat"
  assumes decreases: "step s s' \<Longrightarrow> fuel_of s' < fuel_of s"
begin

lemma comes_to_rest: "\<exists>s'. step\<^sup>*\<^sup>* s s' \<and> (\<nexists>s''. step s' s'')"
proof (induction "fuel_of s" arbitrary: s rule: less_induct)
  case less
  show ?case
  proof (cases "\<exists>s'. step s s'")
    case True
    then obtain s1 where s1: "step s s1" by blast
    from less [OF decreases [OF this]] show ?thesis by (blast intro: step_run [of step, OF s1])
  qed blast
qed

lemma never_forever: "wfp (\<lambda>t s. step s t)"
  by (rule wfp_if_convertible_to_nat [of _ fuel_of]) (rule decreases)

text \<open>No run is longer than what it started with.\<close>

lemma run_length: "(step ^^ n) s s' \<Longrightarrow> n + fuel_of s' \<le> fuel_of s"
proof (induction n arbitrary: s')
  case (Suc n)
  then obtain t where t: "(step ^^ n) s t" "step t s'" by auto
  from Suc.IH [OF t(1)] decreases [OF t(2)] show ?case by simp
qed simp

end

section \<open>Gauges\<close>

datatype 'x gauge_op = Up | Down 'x

locale gauge =
  fixes up :: "'s \<Rightarrow> 's" and down :: "'x \<Rightarrow> 's \<Rightarrow> 's" and level :: "'s \<Rightarrow> u64"
  assumes level_up: "level (up s) = level s + 1"
    and level_down: "level (down x s) = level s - 1"
begin

fun gauge_step :: "'s \<Rightarrow> 'x gauge_op \<Rightarrow> 's" where
  "gauge_step s Up = up s"
| "gauge_step s (Down x) = down x s"

text \<open>The level after a history: what went up minus what came down.\<close>

lemma level_history:
  "level (foldl gauge_step s ops) =
     level s + of_nat (length (filter (\<lambda>e. e = Up) ops))
             - of_nat (length (filter (\<lambda>e. e \<noteq> Up) ops))"
proof (induction ops arbitrary: s)
  case (Cons e ops)
  then show ?case by (cases e) (simp_all add: level_up level_down)
qed simp

lemma level_balanced:
  "length (filter (\<lambda>e. e = Up) ops) = length (filter (\<lambda>e. e \<noteq> Up) ops) \<Longrightarrow>
   level (foldl gauge_step s ops) = level s"
  by (simp add: level_history)

text \<open>As many operations as raise the gauge without ever lowering it stay on it.\<close>

lemma level_leak:
  "length (filter (\<lambda>e. e = Up) ops) = length (filter (\<lambda>e. e \<noteq> Up) ops) + n \<Longrightarrow>
   level (foldl gauge_step s ops) = level s + of_nat n"
  by (simp add: level_history)

end

section \<open>Size guards\<close>

locale size_guard =
  fixes cap :: "nat option" and kept :: "'s \<Rightarrow> nat" and feed :: "'s \<Rightarrow> 'b list \<Rightarrow> 's option"
  assumes feed_None: "kept s + length b < 2 ^ 64 \<Longrightarrow>
      feed s b = None \<longleftrightarrow> over_limit cap (kept s + length b)"
    and feed_kept: "kept s + length b < 2 ^ 64 \<Longrightarrow> feed s b = Some s' \<Longrightarrow>
      kept s' = kept s + length b"
begin

fun feed_all :: "'s \<Rightarrow> 'b list list \<Rightarrow> 's option" where
  "feed_all s [] = Some s"
| "feed_all s (b # bs) = (case feed s b of None \<Rightarrow> None | Some s' \<Rightarrow> feed_all s' bs)"

lemma over_limit_mono: "over_limit cap m \<Longrightarrow> m \<le> n \<Longrightarrow> over_limit cap n"
  by (cases cap) auto

text \<open>A sequence of chunks is refused exactly when its total passes the limit, however the
  bytes are cut into chunks.\<close>

lemma feed_all_None:
  "kept s + length (concat bs) < 2 ^ 64 \<Longrightarrow> \<not> over_limit cap (kept s) \<Longrightarrow>
   feed_all s bs = None \<longleftrightarrow> over_limit cap (kept s + length (concat bs))"
proof (induction bs arbitrary: s)
  case (Cons b bs)
  then have lt: "kept s + length b < 2 ^ 64" by simp
  show ?case
  proof (cases "feed s b")
    case None
    with feed_None [OF lt] have "over_limit cap (kept s + length b)" by simp
    then have "over_limit cap (kept s + length (concat (b # bs)))"
      by (rule over_limit_mono) simp
    with None show ?thesis by simp
  next
    case (Some s')
    with feed_None [OF lt] have "\<not> over_limit cap (kept s')"
      by (simp add: feed_kept [OF lt Some])
    with Cons Some feed_kept [OF lt Some] show ?thesis by (simp add: add.assoc)
  qed
qed simp

lemma feed_all_kept:
  "kept s + length (concat bs) < 2 ^ 64 \<Longrightarrow> feed_all s bs = Some s' \<Longrightarrow>
   kept s' = kept s + length (concat bs)"
proof (induction bs arbitrary: s)
  case (Cons b bs)
  then obtain s1 where s1: "feed s b = Some s1" by (auto split: option.splits)
  have lt: "kept s + length b < 2 ^ 64" using Cons.prems(1) by simp
  have k: "kept s1 = kept s + length b" by (rule feed_kept [OF lt s1])
  have "kept s' = kept s1 + length (concat bs)"
    using Cons.IH [of s1] Cons.prems s1 k by (simp add: add.assoc)
  then show ?case by (simp add: k)
qed simp

end

end
