(* ===== verification/Multipart.thy ===== *)
theory Multipart
  imports Contracts
begin

text \<open>
  Streaming of \<^verbatim>\<open>multipart/form-data\<close> (\<^verbatim>\<open>src/multipart.rs\<close>). What the third-party parser \<^verbatim>\<open>multer\<close> yields
  for a body is an argument: the fields in order, each with its metadata, its chunks and
  whether it ended well, and whether the form itself ended well. The channel to JavaScript is
  the list of the events sent; \<open>open_for\<close> is the number of sends it accepts before the
  receiver goes away. The counters of files and fields are 32-bit words that wrap, as they do in
  the release profile of the crate (no overflow checks).
\<close>

section \<open>Definitions\<close>

record multipart_config =
  mc_max_file_size :: "nat option"
  mc_max_field_size :: "nat option"
  mc_max_files :: "u32 option"
  mc_max_fields :: "u32 option"
  mc_allowed_mime :: "string list option"
  mc_allowed_ext :: "string list option"

datatype mp_event =
    Part "string option" "string option" "string option"
  | Chunk bytes
  | PartEnd
  | Reject nat string

text \<open>The parser's view of a form.\<close>

record mp_field =
  mf_name :: "string option"
  mf_filename :: "string option"
  mf_content_type :: "string option"
  mf_chunks :: "bytes list"
  mf_complete :: bool

record mp_form =
  fm_fields :: "mp_field list"
  fm_complete :: bool

definition reject :: "nat \<Rightarrow> string \<Rightarrow> mp_event" where
  "reject status message = Reject status message"

definition mime_allowed :: "string option \<Rightarrow> string list option \<Rightarrow> bool" where
  "mime_allowed ct patterns =
     (case patterns of
        None \<Rightarrow> True
      | Some ps \<Rightarrow>
          let ct = to_lowercase (case ct of None \<Rightarrow> [] | Some c \<Rightarrow> c);
              main = trim (hd (split_on (CHR '';'') ct))
          in list_ex (\<lambda>p. case strip_suffix p ''/*'' of
                            Some pre \<Rightarrow> starts_with main (pre @ ''/'')
                          | None \<Rightarrow> main = p) ps)"

definition ext_allowed :: "string option \<Rightarrow> string list option \<Rightarrow> bool" where
  "ext_allowed filename exts =
     (case exts of
        None \<Rightarrow> True
      | Some es \<Rightarrow>
          (case filename of
             None \<Rightarrow> True
           | Some fname \<Rightarrow> let lower = to_lowercase fname in list_ex (\<lambda>e. ends_with lower e) es))"

text \<open>The counter of a part: saturating, tested after each chunk.\<close>

definition part_feed :: "nat option \<Rightarrow> nat \<Rightarrow> bytes \<Rightarrow> nat option" where
  "part_feed limit sz chunk =
     (let sz = sat_add64 sz (length chunk) in if over_limit limit sz then None else Some sz)"

text \<open>Sending one event: whether the receiver was still there, and what it accepts from now on.\<close>

fun send :: "nat \<Rightarrow> mp_event \<Rightarrow> (mp_event list \<times> nat) option" where
  "send 0 e = None"
| "send (Suc n) e = Some ([e], n)"

definition send_last :: "nat \<Rightarrow> mp_event \<Rightarrow> mp_event list" where
  "send_last open_for e = (case send open_for e of None \<Rightarrow> [] | Some (es, _) \<Rightarrow> es)"

text \<open>The inner loop. The result is the events sent and, when the part is finished and parsing
  goes on, what the receiver still accepts.\<close>

fun stream_part :: "bool \<Rightarrow> nat option \<Rightarrow> nat \<Rightarrow> nat \<Rightarrow> bytes list \<Rightarrow> bool \<Rightarrow> mp_event list \<times> nat option" where
  "stream_part is_file limit open_for sz [] complete =
     (if \<not> complete then (send_last open_for (reject 400 ''malformed multipart''), None)
      else case send open_for PartEnd of
             None \<Rightarrow> ([], None)
           | Some (es, open_for') \<Rightarrow> (es, Some open_for'))"
| "stream_part is_file limit open_for sz (chunk # chunks) complete =
     (case part_feed limit sz chunk of
        None \<Rightarrow> (send_last open_for (reject (if is_file then 413 else 400) ''part too large''), None)
      | Some sz' \<Rightarrow>
          (case send open_for (Chunk chunk) of
             None \<Rightarrow> ([], None)
           | Some (es, open_for') \<Rightarrow>
               (case stream_part is_file limit open_for' sz' chunks complete of
                  (es', cont) \<Rightarrow> (es @ es', cont))))"

text \<open>The checks before a part is announced, with the counters after them.\<close>

definition exceeds :: "u32 option \<Rightarrow> u32 \<Rightarrow> bool" where
  "exceeds lim n = (case lim of None \<Rightarrow> False | Some m \<Rightarrow> m < n)"

definition admit :: "multipart_config \<Rightarrow> u32 \<Rightarrow> u32 \<Rightarrow> mp_field \<Rightarrow> mp_event + u32 \<times> u32" where
  "admit cfg files flds f =
     (if mf_filename f \<noteq> None then
        let files = files + 1
        in if exceeds (mc_max_files cfg) files then Inl (reject 400 ''too many files'')
           else if \<not> mime_allowed (mf_content_type f) (mc_allowed_mime cfg)
           then Inl (reject 415 ''mime type not allowed'')
           else if \<not> ext_allowed (mf_filename f) (mc_allowed_ext cfg)
           then Inl (reject 415 ''file extension not allowed'')
           else Inr (files, flds)
      else
        let flds = flds + 1
        in if exceeds (mc_max_fields cfg) flds then Inl (reject 400 ''too many fields'')
           else Inr (files, flds))"

fun parse_fields :: "multipart_config \<Rightarrow> nat \<Rightarrow> u32 \<Rightarrow> u32 \<Rightarrow> mp_field list \<Rightarrow> bool \<Rightarrow> mp_event list" where
  "parse_fields cfg open_for files flds [] complete =
     (if complete then [] else send_last open_for (reject 400 ''malformed multipart''))"
| "parse_fields cfg open_for files flds (f # fs) complete =
     (case admit cfg files flds f of
        Inl r \<Rightarrow> send_last open_for r
      | Inr (files', flds') \<Rightarrow>
          (case send open_for (Part (mf_name f) (mf_filename f) (mf_content_type f)) of
             None \<Rightarrow> []
           | Some (es, open_for') \<Rightarrow>
               let is_file = mf_filename f \<noteq> None;
                   limit = (if is_file then mc_max_file_size cfg else mc_max_field_size cfg)
               in (case stream_part is_file limit open_for' 0 (mf_chunks f) (mf_complete f) of
                     (es', None) \<Rightarrow> es @ es'
                   | (es', Some open_for'') \<Rightarrow>
                       es @ es' @ parse_fields cfg open_for'' files' flds' fs complete)))"

definition parse_task :: "multipart_config \<Rightarrow> nat \<Rightarrow> mp_form \<Rightarrow> mp_event list" where
  "parse_task cfg open_for form = parse_fields cfg open_for 0 0 (fm_fields form) (fm_complete form)"

section \<open>The specification\<close>

text \<open>The number of parts of a kind that a limit allows. A limit of \<^verbatim>\<open>u32::MAX\<close> is none: no counter
  is above it, since it wraps to zero first.\<close>

definition count_limit :: "u32 option \<Rightarrow> nat option" where
  "count_limit lim = (case lim of None \<Rightarrow> None | Some m \<Rightarrow> if m = - 1 then None else Some (unat m))"

text \<open>A wrapping counter against the number it stands for: where the limit counts, the two agree.\<close>

definition counted :: "u32 option \<Rightarrow> u32 \<Rightarrow> nat \<Rightarrow> bool" where
  "counted lim w n \<longleftrightarrow> (\<forall>m. count_limit lim = Some m \<longrightarrow> unat w = n \<and> n \<le> m)"

definition is_file :: "mp_field \<Rightarrow> bool" where
  "is_file f \<longleftrightarrow> mf_filename f \<noteq> None"

definition size_limit :: "multipart_config \<Rightarrow> mp_field \<Rightarrow> nat option" where
  "size_limit cfg f = (if is_file f then mc_max_file_size cfg else mc_max_field_size cfg)"

definition field_size :: "mp_field \<Rightarrow> nat" where
  "field_size f = length (concat (mf_chunks f))"

text \<open>A field in order on its own, and the events that carry it whole.\<close>

definition field_ok :: "multipart_config \<Rightarrow> mp_field \<Rightarrow> bool" where
  "field_ok cfg f \<longleftrightarrow>
     (is_file f \<longrightarrow> mime_allowed (mf_content_type f) (mc_allowed_mime cfg) \<and>
                   ext_allowed (mf_filename f) (mc_allowed_ext cfg)) \<and>
     \<not> over_limit (size_limit cfg f) (field_size f) \<and> mf_complete f"

definition field_events :: "mp_field \<Rightarrow> mp_event list" where
  "field_events f =
     Part (mf_name f) (mf_filename f) (mf_content_type f) # map Chunk (mf_chunks f) @ [PartEnd]"

section \<open>Lemmas\<close>

interpretation part: size_guard limit "\<lambda>s. s" "part_feed limit" for limit
  by unfold_locales (auto simp: part_feed_def sat_add64_def Let_def split: if_splits)

lemma counted_zero [simp]: "counted lim 0 0"
  by (simp add: counted_def)

lemma counted_next:
  assumes "counted lim w n"
  shows "exceeds lim (w + 1) \<longleftrightarrow> over_limit (count_limit lim) (n + 1)"
    and "\<not> exceeds lim (w + 1) \<Longrightarrow> counted lim (w + 1) (n + 1)"
proof -
  have max: "\<not> (- 1 :: u32) < x" for x by (simp add: not_less)
  have less: "unat m < 2 ^ 32 - 1" if "m \<noteq> - 1" for m :: u32
  proof -
    have unat_m: "unat m < 2 ^ 32" using unsigned_less [of m] by simp
    have "unat m \<noteq> unat (- 1 :: u32)" using that by (metis word_unat_eq_iff)
    then show ?thesis using unat_m by (simp add: unsigned_minus_1_eq_mask mask_eq_exp_minus_1)
  qed
  have step: "unat (w + 1) = n + 1" if "count_limit lim = Some m" for m
  proof -
    from that less have "m < 2 ^ 32 - 1" by (auto simp: count_limit_def split: option.splits if_splits)
    with that assms show ?thesis by (simp add: counted_def unat_word_ariths)
  qed
  show 1: "exceeds lim (w + 1) \<longleftrightarrow> over_limit (count_limit lim) (n + 1)"
    using step max by (auto simp: exceeds_def count_limit_def word_less_nat_alt split: option.splits if_splits)
  show "counted lim (w + 1) (n + 1)" if "\<not> exceeds lim (w + 1)"
    using that step unfolding 1 by (auto simp: counted_def)
qed

text \<open>A receiver that stays sees the whole sequence.\<close>

lemma stream_part_whole:
  "stream_part file limit open_for sz chunks complete = (es, cont) \<Longrightarrow> length chunks < open_for \<Longrightarrow>
   (case part.feed_all limit sz chunks of
      Some _ \<Rightarrow> if complete then es = map Chunk chunks @ [PartEnd] \<and> cont = Some (open_for - length chunks - 1)
               else es = map Chunk chunks @ [Reject 400 ''malformed multipart''] \<and> cont = None
    | None \<Rightarrow> (\<exists>k < length chunks. es = map Chunk (take k chunks) @ [Reject (if file then 413 else 400) ''part too large'']
                 \<and> cont = None))"
proof (induction chunks arbitrary: open_for sz es)
  case Nil
  then show ?case by (cases open_for) (auto simp: send_last_def reject_def split: if_splits)
next
  case (Cons c cs)
  obtain n where n: "open_for = Suc n" using Cons.prems(2) by (cases open_for) auto
  show ?case
  proof (cases "part_feed limit sz c")
    case None
    with Cons.prems n show ?thesis by (auto simp: send_last_def reject_def)
  next
    case (Some sz')
    obtain es' where es: "stream_part file limit n sz' cs complete = (es', cont)" "es = Chunk c # es'"
      using Cons.prems(1) Some n by (auto split: prod.splits)
    have IH: "case part.feed_all limit sz' cs of
        Some _ \<Rightarrow> if complete then es' = map Chunk cs @ [PartEnd] \<and> cont = Some (n - length cs - 1)
               else es' = map Chunk cs @ [Reject 400 ''malformed multipart''] \<and> cont = None
      | None \<Rightarrow> (\<exists>k < length cs. es' = map Chunk (take k cs) @ [Reject (if file then 413 else 400) ''part too large'']
                 \<and> cont = None)"
      using Cons.IH [OF es(1)] Cons.prems(2) n by simp
    show ?thesis
    proof (cases "part.feed_all limit sz' cs")
      case None
      with IH obtain k where "k < length cs"
        "es' = map Chunk (take k cs) @ [Reject (if file then 413 else 400) ''part too large'']" "cont = None"
        by auto
      with None Some es show ?thesis by (auto intro!: exI [of _ "Suc k"])
    next
      case (Some s)
      with IH \<open>part_feed limit sz c = Some sz'\<close> es n show ?thesis by (auto split: if_splits)
    qed
  qed
qed

lemma part_feed_fits:
  "length (concat chunks) < 2 ^ 64 \<Longrightarrow>
   part.feed_all limit 0 chunks = None \<longleftrightarrow> over_limit limit (length (concat chunks))"
  using part.feed_all_None [of 0 chunks limit] by (cases limit) auto

text \<open>The order and the bounds of the events, as a recogniser: the counters so far, and the part
  that is open with its kind and its size.\<close>

fun events_ok :: "multipart_config \<Rightarrow> nat \<Rightarrow> nat \<Rightarrow> (bool \<times> nat) option \<Rightarrow> mp_event list \<Rightarrow> bool" where
  "events_ok cfg files flds cur [] = True"
| "events_ok cfg files flds cur (Part n fn ct # es) =
     (cur = None \<and>
      (if fn \<noteq> None then
         \<not> over_limit (count_limit (mc_max_files cfg)) (files + 1) \<and> mime_allowed ct (mc_allowed_mime cfg) \<and>
         ext_allowed fn (mc_allowed_ext cfg) \<and> events_ok cfg (files + 1) flds (Some (True, 0)) es
       else
         \<not> over_limit (count_limit (mc_max_fields cfg)) (flds + 1) \<and>
         events_ok cfg files (flds + 1) (Some (False, 0)) es))"
| "events_ok cfg files flds cur (Chunk b # es) =
     (case cur of
        None \<Rightarrow> False
      | Some (file, sz) \<Rightarrow>
          \<not> over_limit (if file then mc_max_file_size cfg else mc_max_field_size cfg) (sz + length b) \<and>
          events_ok cfg files flds (Some (file, sz + length b)) es)"
| "events_ok cfg files flds cur (PartEnd # es) = (cur \<noteq> None \<and> events_ok cfg files flds None es)"
| "events_ok cfg files flds cur (Reject st msg # es) = (es = [])"

lemma events_ok_last [simp]:
  "events_ok cfg files flds cur (send_last n (reject st msg))"
  by (cases n) (simp_all add: send_last_def reject_def)

lemma stream_part_ok:
  assumes "limit = (if file then mc_max_file_size cfg else mc_max_field_size cfg)"
  shows "stream_part file limit open_for sz chunks complete = (es, cont) \<Longrightarrow>
     sz + length (concat chunks) < 2 ^ 64 \<Longrightarrow>
     (\<And>m. cont = Some m \<Longrightarrow> events_ok cfg files flds None (rest m)) \<Longrightarrow>
     events_ok cfg files flds (Some (file, sz)) (es @ (case cont of None \<Rightarrow> [] | Some m \<Rightarrow> rest m))"
proof (induction chunks arbitrary: open_for sz es)
  case Nil
  then show ?case
    by (cases open_for) (auto split: if_splits simp: send_last_def reject_def)
next
  case (Cons c cs)
  show ?case
  proof (cases "part_feed limit sz c")
    case None
    with Cons.prems(1) show ?thesis by auto
  next
    case (Some sz')
    then have sz': "sz' = sz + length c" "\<not> over_limit limit (sz + length c)"
      using part.feed_kept [of sz c limit] part.feed_None [of sz c limit] Cons.prems(2) by simp_all
    show ?thesis
    proof (cases open_for)
      case 0
      with Cons.prems(1) Some show ?thesis by simp
    next
      case (Suc n)
      obtain es' where es: "stream_part file limit n sz' cs complete = (es', cont)" "es = Chunk c # es'"
        using Cons.prems(1) Some Suc by (auto split: prod.splits)
      with Cons.IH [OF es(1)] Cons.prems(2,3) sz' assms show ?thesis by (simp add: add.assoc)
    qed
  qed
qed

lemma parse_fields_ok:
  "\<forall>f \<in> set fs. field_size f < 2 ^ 64 \<Longrightarrow> counted (mc_max_files cfg) files m \<Longrightarrow>
   counted (mc_max_fields cfg) flds n \<Longrightarrow>
   events_ok cfg m n None (parse_fields cfg open_for files flds fs complete)"
proof (induction fs arbitrary: open_for files flds m n)
  case (Cons f fs)
  let ?m = "if is_file f then m + 1 else m" and ?n = "if is_file f then n else n + 1"
  note steps = counted_next [OF Cons.prems(2)] counted_next [OF Cons.prems(3)]
  show ?case
  proof (cases "admit cfg files flds f")
    case (Inl r)
    then show ?thesis by (auto simp: admit_def Let_def split: if_splits)
  next
    case (Inr c)
    obtain files' flds' where c: "c = (files', flds')" by (cases c)
    show ?thesis
    proof (cases open_for)
      case 0
      with Inr c show ?thesis by simp
    next
      case (Suc k)
      let ?file = "mf_filename f \<noteq> None"
      let ?lim = "if ?file then mc_max_file_size cfg else mc_max_field_size cfg"
      obtain es cont where sp: "stream_part ?file ?lim k 0 (mf_chunks f) (mf_complete f) = (es, cont)"
        by (cases "stream_part ?file ?lim k 0 (mf_chunks f) (mf_complete f)")
      let ?rest = "\<lambda>o'. parse_fields cfg o' files' flds' fs complete"
      have adm: "counted (mc_max_files cfg) files' ?m" "counted (mc_max_fields cfg) flds' ?n"
        using Inr c steps Cons.prems(2,3) by (auto simp: admit_def is_file_def Let_def split: if_splits)
      have eq: "parse_fields cfg open_for files flds (f # fs) complete =
          Part (mf_name f) (mf_filename f) (mf_content_type f) #
            es @ (case cont of None \<Rightarrow> [] | Some m \<Rightarrow> ?rest m)"
        using Inr c Suc sp by (simp add: Let_def split: option.splits)
      have "events_ok cfg ?m ?n (Some (?file, 0)) (es @ (case cont of None \<Rightarrow> [] | Some m \<Rightarrow> ?rest m))"
        by (rule stream_part_ok [OF refl sp])
           (use Cons.prems(1) Cons.IH [OF _ adm] in \<open>auto simp: field_size_def\<close>)
      then show ?thesis
        unfolding eq using Inr c steps by (auto simp: admit_def is_file_def Let_def split: if_splits)
    qed
  qed
qed simp

text \<open>What a receiver that stays is sent, field by field.\<close>

definition room :: "mp_field list \<Rightarrow> nat" where
  "room fs = length (concat (map field_events fs))"

definition within :: "multipart_config \<Rightarrow> nat \<Rightarrow> nat \<Rightarrow> bool" where
  "within cfg files flds \<longleftrightarrow>
     \<not> over_limit (count_limit (mc_max_files cfg)) files \<and> \<not> over_limit (count_limit (mc_max_fields cfg)) flds"

definition num_files :: "mp_field list \<Rightarrow> nat" where
  "num_files fs = length (filter is_file fs)"

definition num_fields :: "mp_field list \<Rightarrow> nat" where
  "num_fields fs = length (filter (\<lambda>f. \<not> is_file f) fs)"

lemma num_simps [simp]:
  "num_files [] = 0" "num_fields [] = 0"
  "num_files (f # fs) = (if is_file f then 1 else 0) + num_files fs"
  "num_fields (f # fs) = (if is_file f then 0 else 1) + num_fields fs"
  by (simp_all add: num_files_def num_fields_def)

lemma within_mono: "within cfg m n \<Longrightarrow> m' \<le> m \<Longrightarrow> n' \<le> n \<Longrightarrow> within cfg m' n'"
  by (auto simp: within_def over_limit_def split: option.splits)

text \<open>Both counters against the numbers of files and fields so far.\<close>

definition tally :: "multipart_config \<Rightarrow> u32 \<Rightarrow> u32 \<Rightarrow> nat \<Rightarrow> nat \<Rightarrow> bool" where
  "tally cfg files flds m n \<longleftrightarrow> counted (mc_max_files cfg) files m \<and> counted (mc_max_fields cfg) flds n"

lemma tally_zero [simp]: "tally cfg 0 0 0 0"
  by (simp add: tally_def)

lemma tally_within: "tally cfg files flds m n \<Longrightarrow> within cfg m n"
  by (auto simp: tally_def counted_def within_def over_limit_def split: option.splits)

lemma admit_Inr:
  "admit cfg files flds f = Inr (files', flds') \<Longrightarrow> tally cfg files flds m n \<Longrightarrow>
     tally cfg files' flds' (m + num_files [f]) (n + num_fields [f]) \<and>
     (is_file f \<longrightarrow> mime_allowed (mf_content_type f) (mc_allowed_mime cfg) \<and>
                    ext_allowed (mf_filename f) (mc_allowed_ext cfg))"
  using counted_next(2) [of "mc_max_files cfg" files m] counted_next(2) [of "mc_max_fields cfg" flds n]
  by (auto simp: admit_def is_file_def Let_def tally_def split: if_splits)

lemma admit_Inl:
  "admit cfg files flds f = Inl r \<Longrightarrow> tally cfg files flds m n \<Longrightarrow>
     (\<exists>st msg. r = Reject st msg) \<and>
     (field_ok cfg f \<longrightarrow> \<not> within cfg (m + num_files [f]) (n + num_fields [f]))"
  using counted_next(1) [of "mc_max_files cfg" files m] counted_next(1) [of "mc_max_fields cfg" flds n]
  by (auto simp: admit_def is_file_def Let_def tally_def within_def field_ok_def reject_def split: if_splits)

lemma parse_fields_whole:
  assumes "\<forall>f \<in> set fs. field_size f < 2 ^ 64" and "room fs < open_for" and "tally cfg files flds nf nd"
  shows "if (\<forall>f \<in> set fs. field_ok cfg f) \<and> within cfg (nf + num_files fs) (nd + num_fields fs)
         then parse_fields cfg open_for files flds fs complete =
                concat (map field_events fs) @ (if complete then [] else [Reject 400 ''malformed multipart''])
         else \<exists>pre st msg. parse_fields cfg open_for files flds fs complete = pre @ [Reject st msg]"
  using assms
proof (induction fs arbitrary: open_for files flds nf nd)
  case Nil
  then show ?case by (cases open_for) (auto simp: send_last_def reject_def dest: tally_within)
next
  case (Cons f fs)
  let ?good = "(\<forall>f \<in> set (f # fs). field_ok cfg f) \<and>
    within cfg (nf + num_files (f # fs)) (nd + num_fields (f # fs))"
  obtain n where n: "open_for = Suc n" "length (mf_chunks f) < n" "room fs < n - length (mf_chunks f) - 1"
    using Cons.prems(2) by (cases open_for) (auto simp: room_def field_events_def)
  show ?case
  proof (cases "admit cfg files flds f")
    case (Inl r)
    then obtain st msg where r: "r = Reject st msg" using admit_Inl [OF Inl Cons.prems(3)] by blast
    have "\<not> ?good"
      using admit_Inl [OF Inl Cons.prems(3)] within_mono [of cfg "nf + num_files (f # fs)" "nd + num_fields (f # fs)"]
      by auto
    with Inl r n show ?thesis by (auto simp: send_last_def)
  next
    case (Inr c)
    obtain files' flds' where c: "c = (files', flds')" by (cases c)
    note adm = admit_Inr [OF Inr [unfolded c] Cons.prems(3)]
    obtain es cont where
      sp: "stream_part (is_file f) (size_limit cfg f) n 0 (mf_chunks f) (mf_complete f) = (es, cont)"
      by (cases "stream_part (is_file f) (size_limit cfg f) n 0 (mf_chunks f) (mf_complete f)")
    let ?p = "Part (mf_name f) (mf_filename f) (mf_content_type f)"
    have eq: "parse_fields cfg open_for files flds (f # fs) complete =
        ?p # es @ (case cont of None \<Rightarrow> [] | Some m \<Rightarrow> parse_fields cfg m files' flds' fs complete)"
      using Inr c n sp by (simp add: Let_def is_file_def size_limit_def split: option.splits)
    have fit: "part.feed_all (size_limit cfg f) 0 (mf_chunks f) = None \<longleftrightarrow>
        over_limit (size_limit cfg f) (field_size f)"
      unfolding field_size_def using Cons.prems(1) by (intro part_feed_fits) (simp add: field_size_def)
    note sent = stream_part_whole [OF sp n(2)]
    show ?thesis
    proof (cases "field_ok cfg f")
      case True
      with fit have "es = map Chunk (mf_chunks f) @ [PartEnd]" "cont = Some (n - length (mf_chunks f) - 1)"
        using sent by (auto simp: field_ok_def split: option.splits)
      with Cons.IH [OF _ n(3) conjunct1 [OF adm]] Cons.prems(1) True show ?thesis
        unfolding eq by (auto simp: field_events_def [of f] add.assoc split: if_splits)
    next
      case False
      with adm have "over_limit (size_limit cfg f) (field_size f) \<or> \<not> mf_complete f"
        by (auto simp: field_ok_def)
      then have "\<exists>pre st msg. es = pre @ [Reject st msg] \<and> cont = None"
        using sent fit by (auto split: option.splits if_splits)
      with False show ?thesis unfolding eq by auto
    qed
  qed
qed

lemma parse_whole_or_rejected:
  assumes "\<forall>f \<in> set (fm_fields form). field_size f < 2 ^ 64" and "room (fm_fields form) < open_for"
  shows "if (\<forall>f \<in> set (fm_fields form). field_ok cfg f) \<and>
            within cfg (num_files (fm_fields form)) (num_fields (fm_fields form)) \<and> fm_complete form
         then parse_task cfg open_for form = concat (map field_events (fm_fields form))
         else \<exists>pre st msg. parse_task cfg open_for form = pre @ [Reject st msg]"
proof -
  from parse_fields_whole [OF assms tally_zero, of cfg "fm_complete form"] show ?thesis
    by (auto simp: parse_task_def split: if_splits)
qed

section \<open>Properties\<close>

text \<open>C23: JavaScript never sees more of a form than its limits allow, whatever the client sends
  and whenever the receiver goes away: parts open and close in order, no part's bytes pass its
  file or field limit, every announced file has an allowed type and extension, a rejection is the
  last event, and the numbers of files and fields, counted without bound, stay within \<^verbatim>\<open>maxFiles\<close> and
  \<^verbatim>\<open>maxFields\<close> although the code counts them in words that wrap; a limit of \<^verbatim>\<open>u32::MAX\<close> alone is none.
  The hypothesis is that the bytes of each single part number less than \<open>2 ^ 64\<close>.\<close>

theorem multipart_guard:
  assumes "\<forall>f \<in> set (fm_fields form). field_size f < 2 ^ 64"
  shows "events_ok cfg 0 0 None (parse_task cfg open_for form)"
  unfolding parse_task_def by (rule parse_fields_ok [OF assms counted_zero counted_zero])

definition sample_mp_config :: multipart_config where
  "sample_mp_config =
     \<lparr>mc_max_file_size = Some 4, mc_max_field_size = Some 8, mc_max_files = Some 1, mc_max_fields = None,
      mc_allowed_mime = Some [''image/*''], mc_allowed_ext = Some [''.png'']\<rparr>"

definition sample_form :: mp_form where
  "sample_form =
     \<lparr>fm_fields =
        [\<lparr>mf_name = Some ''title'', mf_filename = None, mf_content_type = None,
          mf_chunks = [[1, 2]], mf_complete = True\<rparr>,
         \<lparr>mf_name = Some ''pic'', mf_filename = Some ''A.PNG'', mf_content_type = Some ''Image/png; x=y'',
          mf_chunks = [[1, 2], [3, 4]], mf_complete = True\<rparr>],
      fm_complete = True\<rparr>"

lemma sample_form_small: "\<forall>f \<in> set (fm_fields sample_form). field_size f < 2 ^ 64"
  by (simp add: sample_form_def field_size_def)

theorem multipart_guard_witness:
  "events_ok sample_mp_config 0 0 None (parse_task sample_mp_config 4 sample_form)"
  by (rule multipart_guard [OF sample_form_small])

lemma sample_form_ok:
  "\<forall>f \<in> set (fm_fields sample_form). field_ok sample_mp_config f"
  "within sample_mp_config (num_files (fm_fields sample_form)) (num_fields (fm_fields sample_form))"
  "room (fm_fields sample_form) < 20"
proof -
  have "list_all (\<lambda>f. field_ok sample_mp_config f) (fm_fields sample_form)" by code_simp
  then show "\<forall>f \<in> set (fm_fields sample_form). field_ok sample_mp_config f" by (simp add: list_all_iff)
  show "within sample_mp_config (num_files (fm_fields sample_form)) (num_fields (fm_fields sample_form))"
    by code_simp
  show "room (fm_fields sample_form) < 20" by code_simp
qed

end
