(* ===== verification/Metrics.thy ===== *)
theory Metrics
  imports Contracts
begin

text \<open>
  The Prometheus registry of \<^verbatim>\<open>src/metrics.rs\<close>.

  Counters are \<^verbatim>\<open>AtomicU64\<close>/\<^verbatim>\<open>AtomicI64\<close>, whose \<^verbatim>\<open>fetch_add\<close> and \<^verbatim>\<open>fetch_sub\<close> wrap around: they
  are 64-bit words, and an \<^verbatim>\<open>AtomicI64\<close> is read with \<^const>\<open>sint\<close>. A duration is a number of
  nanoseconds. The bucket test \<^verbatim>\<open>secs <= edge\<close> on \<^verbatim>\<open>f64\<close> is the comparison of nanoseconds: the
  conversion is monotone, exact on the bucket bounds, and separates a bound from the next
  nanosecond. The text of \<^verbatim>\<open>sum\<close>, the shortest decimal of an \<^verbatim>\<open>f64\<close> quotient, is an argument of
  the encoder (\<open>show_secs\<close>, from the microseconds).
\<close>

section \<open>The registry\<close>

definition METHODS :: "string list" where
  "METHODS = [''GET'', ''POST'', ''PUT'', ''PATCH'', ''DELETE'', ''HEAD'', ''OPTIONS'', ''QUERY'', ''other'']"

definition OTHER_METHOD :: nat where
  "OTHER_METHOD = 8"

definition CLASSES :: "string list" where
  "CLASSES = [''1xx'', ''2xx'', ''3xx'', ''4xx'', ''5xx'']"

text \<open>The bounds in nanoseconds, with the text \<^verbatim>\<open>{edge}\<close> prints for the bound in seconds.\<close>

definition BUCKETS :: "(nat \<times> string) list" where
  "BUCKETS =
     [(1000000, ''0.001''), (5000000, ''0.005''), (10000000, ''0.01''), (25000000, ''0.025''),
      (50000000, ''0.05''), (100000000, ''0.1''), (250000000, ''0.25''), (500000000, ''0.5''),
      (1000000000, ''1''), (2500000000, ''2.5''), (5000000000, ''5''), (10000000000, ''10'')]"

record metrics =
  mt_requests :: "u64 list list"
  mt_duration_buckets :: "u64 list"
  mt_duration_sum_micros :: u64
  mt_duration_count :: u64
  mt_in_flight :: u64
  mt_connections :: u64
  mt_request_bytes :: u64
  mt_response_bytes :: u64
  mt_cache_hits :: u64
  mt_cache_misses :: u64

definition metrics_new :: metrics where
  "metrics_new =
     \<lparr>mt_requests = replicate (length METHODS) (replicate (length CLASSES) 0),
      mt_duration_buckets = replicate (length BUCKETS) 0,
      mt_duration_sum_micros = 0, mt_duration_count = 0, mt_in_flight = 0, mt_connections = 0,
      mt_request_bytes = 0, mt_response_bytes = 0, mt_cache_hits = 0, mt_cache_misses = 0\<rparr>"

definition conn_opened :: "metrics \<Rightarrow> metrics" where
  "conn_opened s = s\<lparr>mt_connections := mt_connections s + 1\<rparr>"

definition conn_closed :: "metrics \<Rightarrow> metrics" where
  "conn_closed s = s\<lparr>mt_connections := mt_connections s - 1\<rparr>"

definition request_started :: "metrics \<Rightarrow> metrics" where
  "request_started s = s\<lparr>mt_in_flight := mt_in_flight s + 1\<rparr>"

definition add_request_bytes :: "u64 \<Rightarrow> metrics \<Rightarrow> metrics" where
  "add_request_bytes n s = s\<lparr>mt_request_bytes := mt_request_bytes s + n\<rparr>"

definition add_response_bytes :: "u64 \<Rightarrow> metrics \<Rightarrow> metrics" where
  "add_response_bytes n s = s\<lparr>mt_response_bytes := mt_response_bytes s + n\<rparr>"

definition cache_hit :: "metrics \<Rightarrow> metrics" where
  "cache_hit s = s\<lparr>mt_cache_hits := mt_cache_hits s + 1\<rparr>"

definition cache_miss :: "metrics \<Rightarrow> metrics" where
  "cache_miss s = s\<lparr>mt_cache_misses := mt_cache_misses s + 1\<rparr>"

text \<open>\<^verbatim>\<open>iter().position(p)\<close>.\<close>

fun position :: "('a \<Rightarrow> bool) \<Rightarrow> 'a list \<Rightarrow> nat option" where
  "position p [] = None"
| "position p (x # xs) = (if p x then Some 0 else map_option Suc (position p xs))"

definition method_index :: "string \<Rightarrow> nat" where
  "method_index meth =
     (case position (\<lambda>x. x = meth) METHODS of Some i \<Rightarrow> i | None \<Rightarrow> OTHER_METHOD)"

definition class_index :: "u16 \<Rightarrow> nat" where
  "class_index status =
     (let k = unat status div 100
      in if k = 1 then 0 else if k = 2 then 1 else if k = 3 then 2 else if k = 4 then 3 else 4)"

definition incr :: "nat \<Rightarrow> u64 list \<Rightarrow> u64 list" where
  "incr i xs = xs[i := xs ! i + 1]"

text \<open>The loop over the bounds stops at the first one the duration does not exceed.\<close>

definition bucket_index :: "nat \<Rightarrow> nat option" where
  "bucket_index elapsed = position (\<lambda>b. elapsed \<le> fst b) BUCKETS"

definition request_finished :: "string \<Rightarrow> u16 \<Rightarrow> nat \<Rightarrow> metrics \<Rightarrow> metrics" where
  "request_finished meth status elapsed s =
     (let s = s\<lparr>mt_in_flight := mt_in_flight s - 1\<rparr>;
          m = method_index meth;
          c = class_index status;
          s = s\<lparr>mt_requests := (mt_requests s)[m := incr c (mt_requests s ! m)]\<rparr>;
          s = s\<lparr>mt_duration_buckets :=
                  (case bucket_index elapsed of
                     Some i \<Rightarrow> incr i (mt_duration_buckets s)
                   | None \<Rightarrow> mt_duration_buckets s)\<rparr>;
          s = s\<lparr>mt_duration_sum_micros := mt_duration_sum_micros s + of_nat (elapsed div 1000)\<rparr>
      in s\<lparr>mt_duration_count := mt_duration_count s + 1\<rparr>)"

section \<open>The exposition format\<close>

definition quote_char :: string where
  "quote_char = [CHR 0x22]"

definition eol :: string where
  "eol = [CHR 0x0A]"

definition show_u64 :: "u64 \<Rightarrow> string" where
  "show_u64 w = show_nat (unat w)"

definition show_i64 :: "u64 \<Rightarrow> string" where
  "show_i64 w = show_int (sint w)"

definition request_line :: "string \<Rightarrow> string \<Rightarrow> u64 \<Rightarrow> string" where
  "request_line meth cls v =
     ''http_requests_total{method='' @ quote_char @ meth @ quote_char @ '',status='' @
     quote_char @ cls @ quote_char @ ''} '' @ show_u64 v @ eol"

definition bucket_line :: "string \<Rightarrow> u64 \<Rightarrow> string" where
  "bucket_line le v =
     ''http_request_duration_seconds_bucket{le='' @ quote_char @ le @ quote_char @ ''} '' @
     show_u64 v @ eol"

definition request_lines :: "metrics \<Rightarrow> string list" where
  "request_lines s =
     concat (map (\<lambda>(meth, row).
       concat (map (\<lambda>(cls, v). if v = 0 then [] else [request_line meth cls v]) (zip CLASSES row)))
       (zip METHODS (mt_requests s)))"

text \<open>The running total of the render loop, starting from what was accumulated before.\<close>

fun bucket_lines :: "u64 \<Rightarrow> (nat \<times> string) list \<Rightarrow> u64 list \<Rightarrow> string list" where
  "bucket_lines cumulative ((_, le) # bs) (v # vs) =
     bucket_line le (cumulative + v) # bucket_lines (cumulative + v) bs vs"
| "bucket_lines _ _ _ = []"

definition family :: "string \<Rightarrow> string \<Rightarrow> string \<Rightarrow> string \<Rightarrow> string list" where
  "family kind name help value =
     [''# HELP '' @ name @ '' '' @ help @ eol, ''# TYPE '' @ name @ '' '' @ kind @ eol,
      name @ '' '' @ value @ eol]"

definition encode :: "(u64 \<Rightarrow> string) \<Rightarrow> metrics \<Rightarrow> string" where
  "encode show_secs s = concat (
     [''# HELP http_requests_total Total HTTP requests handled.'' @ eol,
      ''# TYPE http_requests_total counter'' @ eol]
     @ request_lines s
     @ [''# HELP http_request_duration_seconds Request handling latency.'' @ eol,
        ''# TYPE http_request_duration_seconds histogram'' @ eol]
     @ bucket_lines 0 BUCKETS (mt_duration_buckets s)
     @ [bucket_line ''+Inf'' (mt_duration_count s),
        ''http_request_duration_seconds_sum '' @ show_secs (mt_duration_sum_micros s) @ eol,
        ''http_request_duration_seconds_count '' @ show_u64 (mt_duration_count s) @ eol]
     @ family ''gauge'' ''http_requests_in_flight'' ''Requests currently being handled.''
         (show_i64 (mt_in_flight s))
     @ family ''gauge'' ''http_connections_active'' ''Open connections.''
         (show_i64 (mt_connections s))
     @ family ''counter'' ''http_request_body_bytes_total'' ''Request body bytes read.''
         (show_u64 (mt_request_bytes s))
     @ family ''counter'' ''http_response_body_bytes_total'' ''Response body bytes written.''
         (show_u64 (mt_response_bytes s))
     @ family ''counter'' ''http_cache_hits_total''
         ''Native response cache hits (answered without waking JS).'' (show_u64 (mt_cache_hits s))
     @ family ''counter'' ''http_cache_misses_total''
         ''Native response cache misses on cache-enabled routes.'' (show_u64 (mt_cache_misses s)))"

section \<open>Histories\<close>

text \<open>A history is the order in which the atomic updates take effect.\<close>

datatype metric_event =
    ConnOpened | ConnClosed | Started | Finished string u16 nat
  | ReqBytes u64 | RespBytes u64 | Hit | Miss

fun apply_event :: "metrics \<Rightarrow> metric_event \<Rightarrow> metrics" where
  "apply_event s ConnOpened = conn_opened s"
| "apply_event s ConnClosed = conn_closed s"
| "apply_event s Started = request_started s"
| "apply_event s (Finished meth st d) = request_finished meth st d s"
| "apply_event s (ReqBytes n) = add_request_bytes n s"
| "apply_event s (RespBytes n) = add_response_bytes n s"
| "apply_event s Hit = cache_hit s"
| "apply_event s Miss = cache_miss s"

definition run_events :: "metrics \<Rightarrow> metric_event list \<Rightarrow> metrics" where
  "run_events = foldl apply_event"

text \<open>How many events of a history satisfy a test, as the 64-bit counter has it.\<close>

definition counted :: "(metric_event \<Rightarrow> bool) \<Rightarrow> metric_event list \<Rightarrow> u64" where
  "counted p es = of_nat (length (filter p es))"

fun finished_in :: "nat \<Rightarrow> nat \<Rightarrow> metric_event \<Rightarrow> bool" where
  "finished_in m c (Finished meth st d) = (method_index meth = m \<and> class_index st = c)"
| "finished_in m c _ = False"

fun finished_within :: "nat \<Rightarrow> metric_event \<Rightarrow> bool" where
  "finished_within edge (Finished meth st d) = (d \<le> edge)"
| "finished_within edge _ = False"

fun is_finished :: "metric_event \<Rightarrow> bool" where
  "is_finished (Finished _ _ _) = True"
| "is_finished _ = False"

fun in_bucket :: "nat \<Rightarrow> metric_event \<Rightarrow> bool" where
  "in_bucket i (Finished _ _ d) = (bucket_index d = Some i)"
| "in_bucket i _ = False"

section \<open>Lemmas\<close>

lemmas metric_ops =
  conn_opened_def conn_closed_def request_started_def add_request_bytes_def
  add_response_bytes_def cache_hit_def cache_miss_def request_finished_def

lemma run_events_simps [simp]:
  "run_events s [] = s" "run_events s (e # es) = run_events (apply_event s e) es"
  by (simp_all add: run_events_def)

lemma counted_simps [simp]:
  "counted p [] = 0" "counted p (e # es) = (if p e then 1 else 0) + counted p es"
  by (simp_all add: counted_def)

lemma position_Some: "position p xs = Some i \<Longrightarrow> i < length xs"
  by (induction xs arbitrary: i) (auto split: if_splits)

lemma method_index_less: "method_index meth < length METHODS"
  by (auto simp: method_index_def METHODS_def OTHER_METHOD_def
      dest!: position_Some split: option.splits)

lemma class_index_less: "class_index st < length CLASSES"
  by (simp add: class_index_def CLASSES_def Let_def)

text \<open>The shape of the arrays, kept by every operation.\<close>

definition metrics_shape :: "metrics \<Rightarrow> bool" where
  "metrics_shape s \<longleftrightarrow>
     length (mt_requests s) = length METHODS \<and>
     (\<forall>row \<in> set (mt_requests s). length row = length CLASSES) \<and>
     length (mt_duration_buckets s) = length BUCKETS"

lemma metrics_new_shape [simp]: "metrics_shape metrics_new"
  by (simp add: metrics_shape_def metrics_new_def)

lemma shape_row: "metrics_shape s \<Longrightarrow> m < length METHODS \<Longrightarrow> length (mt_requests s ! m) = length CLASSES"
  by (simp add: metrics_shape_def)

lemma apply_event_shape: "metrics_shape s \<Longrightarrow> metrics_shape (apply_event s e)"
  by (cases e)
     (auto simp: metrics_shape_def metric_ops Let_def incr_def method_index_less
       dest!: set_update_subset_insert [THEN subsetD] split: option.splits)

lemma requests_step:
  assumes "metrics_shape s" and "m < length METHODS" and "c < length CLASSES"
  shows "mt_requests (apply_event s e) ! m ! c =
           mt_requests s ! m ! c + (if finished_in m c e then 1 else 0)"
  using assms shape_row [OF assms(1,2)]
  by (cases e) (auto simp: metric_ops Let_def incr_def nth_list_update metrics_shape_def
      method_index_less class_index_less)

lemma bucket_step:
  assumes "metrics_shape s" and "i < length BUCKETS"
  shows "mt_duration_buckets (apply_event s e) ! i =
           mt_duration_buckets s ! i + (if in_bucket i e then 1 else 0)"
  using assms
  by (cases e) (auto simp: metric_ops Let_def incr_def nth_list_update metrics_shape_def
      split: option.splits)

lemma requests_run:
  "metrics_shape s \<Longrightarrow> m < length METHODS \<Longrightarrow> c < length CLASSES \<Longrightarrow>
   mt_requests (run_events s es) ! m ! c = mt_requests s ! m ! c + counted (finished_in m c) es"
  by (induction es arbitrary: s) (simp_all add: apply_event_shape requests_step)

lemma bucket_run:
  "metrics_shape s \<Longrightarrow> i < length BUCKETS \<Longrightarrow>
   mt_duration_buckets (run_events s es) ! i = mt_duration_buckets s ! i + counted (in_bucket i) es"
  by (induction es arbitrary: s) (simp_all add: apply_event_shape bucket_step)

lemma shape_run: "metrics_shape s \<Longrightarrow> metrics_shape (run_events s es)"
  by (induction es arbitrary: s) (simp_all add: apply_event_shape)

lemma count_step:
  "mt_duration_count (apply_event s e) = mt_duration_count s + (if is_finished e then 1 else 0)"
  by (cases e) (simp_all add: metric_ops Let_def)

lemma count_run: "mt_duration_count (run_events s es) = mt_duration_count s + counted is_finished es"
  by (induction es arbitrary: s) (simp_all add: count_step)

lemma gauges_step:
  "mt_in_flight (apply_event s e) =
     mt_in_flight s + (if e = Started then 1 else 0) - (if is_finished e then 1 else 0)"
  "mt_connections (apply_event s e) =
     mt_connections s + (if e = ConnOpened then 1 else 0) - (if e = ConnClosed then 1 else 0)"
  by (cases e; simp add: metric_ops Let_def)+

lemma gauges_run:
  "mt_in_flight (run_events s es) =
     mt_in_flight s + counted (\<lambda>e. e = Started) es - counted is_finished es"
  "mt_connections (run_events s es) =
     mt_connections s + counted (\<lambda>e. e = ConnOpened) es - counted (\<lambda>e. e = ConnClosed) es"
  by (induction es arbitrary: s) (simp_all add: gauges_step)

subsection \<open>The cumulative buckets\<close>

lemma position_sorted:
  "sorted (map fst bs) \<Longrightarrow> i < length bs \<Longrightarrow>
   (\<exists>j\<le>i. position (\<lambda>b. d \<le> fst b) bs = Some j) \<longleftrightarrow> d \<le> fst (bs ! i)"
proof (induction bs arbitrary: i)
  case (Cons b bs)
  show ?case
  proof (cases "d \<le> fst b")
    case True
    have "fst b \<le> fst ((b # bs) ! i)"
      using Cons.prems by (cases i) auto
    with True show ?thesis by auto
  next
    case False
    show ?thesis
    proof (cases i)
      case 0
      with False show ?thesis by auto
    next
      case (Suc i')
      have "(\<exists>j\<le>i. position (\<lambda>b. d \<le> fst b) (b # bs) = Some j) \<longleftrightarrow>
            (\<exists>j\<le>i'. position (\<lambda>b. d \<le> fst b) bs = Some j)"
        using False Suc by auto
      with Cons Suc show ?thesis by simp
    qed
  qed
qed simp

lemma bucket_index_le:
  "i < length BUCKETS \<Longrightarrow> (\<exists>j\<le>i. bucket_index d = Some j) \<longleftrightarrow> d \<le> fst (BUCKETS ! i)"
  unfolding bucket_index_def by (rule position_sorted) (simp_all add: BUCKETS_def)

lemma sum_incr:
  "j < length vs \<Longrightarrow>
   sum_list (take n (incr j vs)) = sum_list (take n vs) + (if j < n then 1 else 0)"
proof (induction vs arbitrary: j n)
  case (Cons v vs)
  then show ?case
    by (cases j; cases n) (auto simp: incr_def algebra_simps)
qed simp

text \<open>The running total up to bound \<open>i\<close> moves with exactly the durations not above it.\<close>

lemma cumulative_step:
  assumes "metrics_shape s" and i: "i < length BUCKETS"
  shows "sum_list (take (Suc i) (mt_duration_buckets (apply_event s e))) =
           sum_list (take (Suc i) (mt_duration_buckets s)) +
           (if finished_within (fst (BUCKETS ! i)) e then 1 else 0)"
proof (cases e)
  case (Finished meth st d)
  show ?thesis
  proof (cases "bucket_index d")
    case None
    with Finished bucket_index_le [OF i, of d] show ?thesis
      by (simp add: request_finished_def Let_def)
  next
    case (Some j)
    then have "j < length (mt_duration_buckets s)"
      using assms(1) by (auto simp: bucket_index_def metrics_shape_def dest: position_Some)
    with Some Finished bucket_index_le [OF i, of d] show ?thesis
      by (simp add: request_finished_def Let_def sum_incr less_Suc_eq_le)
  qed
qed (simp_all add: metric_ops)

lemma cumulative_run:
  "metrics_shape s \<Longrightarrow> i < length BUCKETS \<Longrightarrow>
   sum_list (take (Suc i) (mt_duration_buckets (run_events s es))) =
     sum_list (take (Suc i) (mt_duration_buckets s)) +
     counted (finished_within (fst (BUCKETS ! i))) es"
  by (induction es arbitrary: s) (simp_all add: apply_event_shape cumulative_step)

lemma bucket_lines_sums:
  "length bs = length vs \<Longrightarrow>
   bucket_lines c bs vs =
     map (\<lambda>i. bucket_line (snd (bs ! i)) (c + sum_list (take (Suc i) vs))) [0..<length bs]"
proof (induction c bs vs rule: bucket_lines.induct)
  case (1 c edge le bs v vs)
  then show ?case by (simp add: upt_conv_Cons map_Suc_upt [symmetric] add.assoc o_def del: upt_Suc)
qed simp_all

lemma sum_take_zeros: "sum_list (take n (replicate k (0 :: u64))) = 0"
  by (simp add: sum_list_replicate)

subsection \<open>The gauges as instances of the contract\<close>

interpretation flight: gauge request_started "\<lambda>(meth, st, d). request_finished meth st d" mt_in_flight
  by unfold_locales (auto simp: request_started_def request_finished_def Let_def split: prod.splits)

interpretation conns: gauge conn_opened "\<lambda>_ :: unit. conn_closed" mt_connections
  by unfold_locales (simp_all add: conn_opened_def conn_closed_def)

section \<open>Properties\<close>

text \<open>C30: The latency histogram a scrape renders has the cumulative meaning Prometheus asks of
  \<^verbatim>\<open>le\<close>: after any history of updates to a fresh registry, the line of each bound carries the
  number of requests that finished within that bound (as a 64-bit counter), although a
  finishing request bumps a single bucket; the \<^verbatim>\<open>+Inf\<close> line carries the number of all
  finished requests.\<close>

theorem histogram_is_cumulative:
  "bucket_lines 0 BUCKETS (mt_duration_buckets (run_events metrics_new es)) =
     map (\<lambda>(edge, le). bucket_line le (counted (finished_within edge) es)) BUCKETS \<and>
   mt_duration_count (run_events metrics_new es) = counted is_finished es"
proof
  let ?s = "run_events metrics_new es"
  have sh: "length BUCKETS = length (mt_duration_buckets ?s)"
    using shape_run [OF metrics_new_shape, of es] unfolding metrics_shape_def by (elim conjE) (rule sym)
  have new: "mt_duration_buckets metrics_new = replicate (length BUCKETS) 0"
    by (simp add: metrics_new_def)
  show "bucket_lines 0 BUCKETS (mt_duration_buckets ?s) =
     map (\<lambda>(edge, le). bucket_line le (counted (finished_within edge) es)) BUCKETS"
    unfolding bucket_lines_sums [OF sh]
    by (rule nth_equalityI)
       (simp_all add: cumulative_run new sum_take_zeros split_beta del: take_replicate)
  show "mt_duration_count ?s = counted is_finished es"
    by (simp add: count_run metrics_new_def)
qed

text \<open>The request counters and the gauges are exact over any history of a fresh registry:
  each method/class cell counts the requests that finished with that method and class, every
  finished request is in exactly one cell of the table, and the two gauges are what went up minus
  what came down, so that they return to zero when every start has its end.\<close>

theorem metrics_exact:
  assumes "m < length METHODS" and "c < length CLASSES"
  shows "mt_requests (run_events metrics_new es) ! m ! c = counted (finished_in m c) es"
    and "mt_in_flight (run_events metrics_new es) =
           counted (\<lambda>e. e = Started) es - counted is_finished es"
    and "mt_connections (run_events metrics_new es) =
           counted (\<lambda>e. e = ConnOpened) es - counted (\<lambda>e. e = ConnClosed) es"
    and "method_index meth < length METHODS \<and> class_index st < length CLASSES"
  using assms requests_run [of metrics_new m c es]
  by (simp_all add: gauges_run metrics_new_def [THEN arg_cong, of mt_in_flight]
      metrics_new_def [THEN arg_cong, of mt_connections] method_index_less class_index_less
      metrics_new_def [THEN arg_cong, of mt_requests])

theorem metrics_exact_witness:
  "mt_requests (run_events metrics_new [Started, Finished ''GET'' 200 3000000]) ! 0 ! 1 =
     counted (finished_in 0 1) [Started, Finished ''GET'' 200 3000000]"
  by (rule metrics_exact) (simp_all add: METHODS_def CLASSES_def)

end
