(* ===== verification/Body_Stream.thy ===== *)
theory Body_Stream
  imports Multipart Metrics
begin

text \<open>
  The body bridge of \<^verbatim>\<open>src/stream.rs\<close>: reading the request body, reading a multipart form, writing
  the response body through a bounded channel, and the signal that says how a request ended.

  On the reading side a channel is the list of the messages still to be received, the empty
  list standing for a closed channel. On the writing side the channel is explicit: writers
  that wait for room, the bounded buffer, and the \<^verbatim>\<open>ChannelBody\<close> that hyper polls. An error
  crossing to JavaScript is its reason string.
\<close>

section \<open>Definitions\<close>

definition BODY_CHANNEL_CAP :: nat where
  "BODY_CHANNEL_CAP = 1"

definition BODY_LIMIT_EXCEEDED :: string where
  "BODY_LIMIT_EXCEEDED = ''BODY_LIMIT_EXCEEDED''"

definition BODY_READ_TIMEOUT :: string where
  "BODY_READ_TIMEOUT = ''BODY_READ_TIMEOUT''"

definition BODY_READ_ABORTED :: string where
  "BODY_READ_ABORTED = ''BODY_READ_ABORTED''"

datatype body_msg = Data bytes | Overflow | Timeout | Aborted

subsection \<open>The abort signal\<close>

text \<open>\<open>as_permit\<close> is the stored permit of \<^verbatim>\<open>Notify\<close>.\<close>

record abort_signal =
  as_permit :: bool
  as_aborted :: bool

definition abort_new :: abort_signal where
  "abort_new = \<lparr>as_permit = False, as_aborted = True\<rparr>"

definition complete :: "abort_signal \<Rightarrow> abort_signal" where
  "complete a = a\<lparr>as_aborted := False\<rparr>"

definition fire :: "abort_signal \<Rightarrow> abort_signal" where
  "fire a = a\<lparr>as_permit := True\<rparr>"

subsection \<open>The body of a request\<close>

record part_meta =
  pm_name :: "string option"
  pm_filename :: "string option"
  pm_content_type :: "string option"

record mp_state =
  mp_rx :: "mp_event list"
  mp_ended :: bool

record body_io =
  bi_req_rx :: "body_msg list option"
  bi_resp_tx :: bool
  bi_mp :: "mp_state option"
  bi_abort :: abort_signal

definition body_io_new :: "body_msg list option \<Rightarrow> bool \<Rightarrow> mp_event list option \<Rightarrow> abort_signal \<Rightarrow> body_io" where
  "body_io_new req_rx resp_tx events abort =
     \<lparr>bi_req_rx = req_rx, bi_resp_tx = resp_tx,
      bi_mp = map_option (\<lambda>rx. \<lparr>mp_rx = rx, mp_ended = False\<rparr>) events, bi_abort = abort\<rparr>"

definition read :: "body_io \<Rightarrow> (string + bytes option) \<times> body_io" where
  "read io =
     (case bi_req_rx io of
        None \<Rightarrow> (Inr None, io)
      | Some [] \<Rightarrow> (Inr None, io)
      | Some (m # ms) \<Rightarrow>
          ((case m of
              Data b \<Rightarrow> Inr (Some b)
            | Overflow \<Rightarrow> Inl BODY_LIMIT_EXCEEDED
            | Timeout \<Rightarrow> Inl BODY_READ_TIMEOUT
            | Aborted \<Rightarrow> Inl BODY_READ_ABORTED), io\<lparr>bi_req_rx := Some ms\<rparr>))"

text \<open>\<^verbatim>\<open>wait_abort\<close>: not ready until the signal fired.\<close>

definition wait_abort :: "body_io \<Rightarrow> (bool \<times> body_io) option" where
  "wait_abort io =
     (if as_permit (bi_abort io)
      then Some (as_aborted (bi_abort io), io\<lparr>bi_abort := (bi_abort io)\<lparr>as_permit := False\<rparr>\<rparr>)
      else None)"

definition mp_reject :: "nat \<Rightarrow> string \<Rightarrow> string" where
  "mp_reject status message = ''MULTIPART_REJECT:'' @ show_nat status @ '':'' @ message"

fun next_part_rx :: "mp_event list \<Rightarrow> (string + part_meta option) \<times> mp_event list" where
  "next_part_rx [] = (Inr None, [])"
| "next_part_rx (Part n f c # es) =
     (Inr (Some \<lparr>pm_name = n, pm_filename = f, pm_content_type = c\<rparr>), es)"
| "next_part_rx (Chunk _ # es) = next_part_rx es"
| "next_part_rx (PartEnd # es) = next_part_rx es"
| "next_part_rx (Reject st msg # es) = (Inl (mp_reject st msg), es)"

definition next_part :: "body_io \<Rightarrow> (string + part_meta option) \<times> body_io" where
  "next_part io =
     (case bi_mp io of
        None \<Rightarrow> (Inr None, io)
      | Some st \<Rightarrow>
          (case next_part_rx (mp_rx st) of
             (r, rx') \<Rightarrow>
               (r, io\<lparr>bi_mp := Some \<lparr>mp_rx = rx',
                    mp_ended = (case r of Inr (Some _) \<Rightarrow> False | _ \<Rightarrow> mp_ended st)\<rparr>\<rparr>)))"

definition read_part :: "body_io \<Rightarrow> (string + bytes option) \<times> body_io" where
  "read_part io =
     (case bi_mp io of
        None \<Rightarrow> (Inr None, io)
      | Some st \<Rightarrow>
          if mp_ended st then (Inr None, io)
          else
            let stay = \<lambda>es. io\<lparr>bi_mp := Some (st\<lparr>mp_rx := es\<rparr>)\<rparr>;
                finish = \<lambda>es. io\<lparr>bi_mp := Some \<lparr>mp_rx = es, mp_ended = True\<rparr>\<rparr>
            in case mp_rx st of
                 [] \<Rightarrow> (Inr None, finish [])
               | Chunk b # es \<Rightarrow> (Inr (Some b), stay es)
               | PartEnd # es \<Rightarrow> (Inr None, finish es)
               | Reject s msg # es \<Rightarrow> (Inl (mp_reject s msg), stay es)
               | Part _ _ _ # es \<Rightarrow> (Inr None, finish es))"

subsection \<open>The body of a response\<close>

text \<open>\<open>rs_tx\<close>: the sender is still in the \<^verbatim>\<open>BodyIo\<close>. \<open>rs_writers\<close>: sends that wait for room, each with
  its clone of the sender. \<open>rs_rx\<close>: the \<^verbatim>\<open>ChannelBody\<close> is alive.\<close>

record resp_stream =
  rs_tx :: bool
  rs_writers :: "bytes list"
  rs_queue :: "bytes list"
  rs_rx :: bool
  rs_metrics :: metrics

definition resp_stream_new :: "metrics \<Rightarrow> resp_stream" where
  "resp_stream_new m = \<lparr>rs_tx = True, rs_writers = [], rs_queue = [], rs_rx = True, rs_metrics = m\<rparr>"

text \<open>\<^verbatim>\<open>write\<close> up to its await, and the completion of the oldest waiting send.\<close>

definition write_chunk :: "bytes \<Rightarrow> resp_stream \<Rightarrow> resp_stream" where
  "write_chunk chunk s = (if rs_tx s then s\<lparr>rs_writers := rs_writers s @ [chunk]\<rparr> else s)"

definition write_done :: "resp_stream \<Rightarrow> ((string + unit) \<times> resp_stream) option" where
  "write_done s =
     (case rs_writers s of
        [] \<Rightarrow> None
      | chunk # ws \<Rightarrow>
          if \<not> rs_rx s then Some (Inl ''response body closed'', s\<lparr>rs_writers := ws\<rparr>)
          else if length (rs_queue s) < BODY_CHANNEL_CAP
          then Some (Inr (), s\<lparr>rs_writers := ws, rs_queue := rs_queue s @ [chunk]\<rparr>)
          else None)"

definition end_write :: "resp_stream \<Rightarrow> resp_stream" where
  "end_write s = s\<lparr>rs_tx := False\<rparr>"

datatype frame_poll = FPending | FReady "bytes option"

definition poll_frame :: "resp_stream \<Rightarrow> frame_poll \<times> resp_stream" where
  "poll_frame s =
     (case rs_queue s of
        b # bs \<Rightarrow>
          (FReady (Some b),
           s\<lparr>rs_queue := bs, rs_metrics := add_response_bytes (of_nat (length b)) (rs_metrics s)\<rparr>)
      | [] \<Rightarrow> if rs_tx s \<or> rs_writers s \<noteq> [] then (FPending, s) else (FReady None, s))"

section \<open>The response stream as steps\<close>

text \<open>Ghosts: the chunks whose write began while the body was open, those hyper received, and
  whether hyper saw the end.\<close>

record rstate =
  rt_stream :: resp_stream
  rt_written :: "bytes list"
  rt_got :: "bytes list"
  rt_end :: bool

inductive rstep :: "rstate \<Rightarrow> rstate \<Rightarrow> bool" where
  rwrite: "rs_tx (rt_stream s) \<Longrightarrow>
    rstep s (s\<lparr>rt_stream := write_chunk b (rt_stream s), rt_written := rt_written s @ [b]\<rparr>)"
| rlate: "\<not> rs_tx (rt_stream s) \<Longrightarrow> rstep s (s\<lparr>rt_stream := write_chunk b (rt_stream s)\<rparr>)"
| rdone: "write_done (rt_stream s) = Some (r, st') \<Longrightarrow> rstep s (s\<lparr>rt_stream := st'\<rparr>)"
| rend: "rstep s (s\<lparr>rt_stream := end_write (rt_stream s)\<rparr>)"
| rdrop: "rstep s (s\<lparr>rt_stream := (rt_stream s)\<lparr>rs_rx := False\<rparr>\<rparr>)"
| rpoll: "rs_rx (rt_stream s) \<Longrightarrow> poll_frame (rt_stream s) = (FReady (Some b), st') \<Longrightarrow>
    rstep s (s\<lparr>rt_stream := st', rt_got := rt_got s @ [b]\<rparr>)"
| rfinish: "rs_rx (rt_stream s) \<Longrightarrow> poll_frame (rt_stream s) = (FReady None, st') \<Longrightarrow>
    rstep s (s\<lparr>rt_stream := st', rt_end := True\<rparr>)"

inductive_simps rstep_iff: "rstep s s'"

definition rstart :: "metrics \<Rightarrow> rstate" where
  "rstart m = \<lparr>rt_stream = resp_stream_new m, rt_written = [], rt_got = [], rt_end = False\<rparr>"

definition rinv :: "metrics \<Rightarrow> rstate \<Rightarrow> bool" where
  "rinv m s \<longleftrightarrow>
     prefix (rt_got s) (rt_written s) \<and>
     (rs_rx (rt_stream s) \<longrightarrow>
        rt_got s @ rs_queue (rt_stream s) @ rs_writers (rt_stream s) = rt_written s) \<and>
     length (rs_queue (rt_stream s)) \<le> BODY_CHANNEL_CAP \<and>
     mt_response_bytes (rs_metrics (rt_stream s)) =
       mt_response_bytes m + of_nat (length (concat (rt_got s))) \<and>
     (rt_end s \<longrightarrow> \<not> rs_tx (rt_stream s) \<and> rs_queue (rt_stream s) = [] \<and>
        rs_writers (rt_stream s) = [] \<and> rt_got s = rt_written s)"

lemmas resp_ops = write_chunk_def write_done_def end_write_def poll_frame_def add_response_bytes_def

lemma prefix_snoc_step: "g @ b # q = w \<Longrightarrow> prefix (g @ [b]) w"
  by (auto simp: prefix_def)

lemma rinv_step: "rstep s s' \<Longrightarrow> rinv m s \<Longrightarrow> rinv m s'"
proof (induction rule: rstep.induct)
  case (rpoll s b st')
  then show ?case
    by (auto simp: rinv_def resp_ops algebra_simps split: list.splits if_splits dest: prefix_snoc_step)
qed (auto simp: rinv_def resp_ops split: list.splits if_splits)

lemma rinv_start: "rinv m (rstart m)"
  by (simp add: rinv_def rstart_def resp_stream_new_def)

interpretation responses: invariant rstep "rinv m" "rstart m" for m
  by unfold_locales (auto intro: rinv_step rinv_start)

text \<open>Once the body is closed, the remaining chunks drain.\<close>

definition rmeasure :: "rstate \<Rightarrow> nat" where
  "rmeasure s = 2 * length (rs_writers (rt_stream s)) + length (rs_queue (rt_stream s))"

lemma drain_closed:
  "rinv m s \<Longrightarrow> \<not> rs_tx (rt_stream s) \<Longrightarrow> rs_rx (rt_stream s) \<Longrightarrow>
   \<exists>s'. rstep\<^sup>*\<^sup>* s s' \<and> rt_end s' \<and> rt_written s' = rt_written s"
proof (induction "rmeasure s" arbitrary: s rule: less_induct)
  case less
  let ?st = "rt_stream s"
  show ?case
  proof (cases "rs_queue ?st")
    case (Cons b bs)
    let ?s1 = "s\<lparr>rt_stream := snd (poll_frame ?st), rt_got := rt_got s @ [b]\<rparr>"
    have step: "rstep s ?s1" using Cons less.prems(3) by (intro rpoll) (simp_all add: poll_frame_def)
    have "\<exists>s'. rstep\<^sup>*\<^sup>* ?s1 s' \<and> rt_end s' \<and> rt_written s' = rt_written ?s1"
      using rinv_step [OF step less.prems(1)] less.prems(2,3) Cons
      by (intro less.hyps) (simp_all add: rmeasure_def poll_frame_def)
    with step show ?thesis by (auto intro: step_run)
  next
    case Nil
    show ?thesis
    proof (cases "rs_writers ?st")
      case (Cons w ws)
      let ?st1 = "?st\<lparr>rs_writers := ws, rs_queue := [w]\<rparr>"
      have step: "rstep s (s\<lparr>rt_stream := ?st1\<rparr>)"
        using Nil Cons less.prems(3)
        by (intro rdone [where r = "Inr ()"]) (simp add: write_done_def BODY_CHANNEL_CAP_def)
      have "\<exists>s'. rstep\<^sup>*\<^sup>* (s\<lparr>rt_stream := ?st1\<rparr>) s' \<and> rt_end s' \<and> rt_written s' = rt_written (s\<lparr>rt_stream := ?st1\<rparr>)"
        using rinv_step [OF step less.prems(1)] less.prems(2,3) Nil Cons
        by (intro less.hyps) (simp_all add: rmeasure_def)
      with step show ?thesis by (auto intro: step_run)
    next
      case wnil: Nil
      have "rstep s (s\<lparr>rt_stream := ?st, rt_end := True\<rparr>)"
        using Nil wnil less.prems(2,3) by (intro rfinish) (simp_all add: poll_frame_def)
      then show ?thesis by (intro exI [of _ "s\<lparr>rt_stream := ?st, rt_end := True\<rparr>"]) auto
    qed
  qed
qed

section \<open>Readers\<close>

text \<open>The loops a handler runs: the whole body, one whole part, the whole form.\<close>

fun read_all :: "nat \<Rightarrow> body_io \<Rightarrow> bytes \<Rightarrow> (string + bytes) option" where
  "read_all 0 io acc = None"
| "read_all (Suc fuel) io acc =
     (case read io of
        (Inl e, _) \<Rightarrow> Some (Inl e)
      | (Inr None, _) \<Rightarrow> Some (Inr acc)
      | (Inr (Some b), io') \<Rightarrow> read_all fuel io' (acc @ b))"

fun read_part_all :: "nat \<Rightarrow> body_io \<Rightarrow> bytes \<Rightarrow> ((string + bytes) \<times> body_io) option" where
  "read_part_all 0 io acc = None"
| "read_part_all (Suc fuel) io acc =
     (case read_part io of
        (Inl e, io') \<Rightarrow> Some (Inl e, io')
      | (Inr None, io') \<Rightarrow> Some (Inr acc, io')
      | (Inr (Some b), io') \<Rightarrow> read_part_all fuel io' (acc @ b))"

fun read_form :: "nat \<Rightarrow> body_io \<Rightarrow> (string + (part_meta \<times> bytes) list) option" where
  "read_form 0 io = None"
| "read_form (Suc fuel) io =
     (case next_part io of
        (Inl e, _) \<Rightarrow> Some (Inl e)
      | (Inr None, _) \<Rightarrow> Some (Inr [])
      | (Inr (Some pm), io') \<Rightarrow>
          (case read_part_all fuel io' [] of
             None \<Rightarrow> None
           | Some (Inl e, _) \<Rightarrow> Some (Inl e)
           | Some (Inr b, io'') \<Rightarrow>
               (case read_form fuel io'' of
                  None \<Rightarrow> None
                | Some (Inl e) \<Rightarrow> Some (Inl e)
                | Some (Inr ps) \<Rightarrow> Some (Inr ((pm, b) # ps)))))"

text \<open>What a field looks like to a handler.\<close>

definition field_view :: "mp_field \<Rightarrow> part_meta \<times> bytes" where
  "field_view f =
     (\<lparr>pm_name = mf_name f, pm_filename = mf_filename f, pm_content_type = mf_content_type f\<rparr>,
      concat (mf_chunks f))"

definition at_events :: "body_io \<Rightarrow> mp_event list \<Rightarrow> bool \<Rightarrow> body_io" where
  "at_events io es ended = io\<lparr>bi_mp := Some \<lparr>mp_rx = es, mp_ended = ended\<rparr>\<rparr>"

lemma at_events_simps [simp]:
  "bi_mp (at_events io es ended) = Some \<lparr>mp_rx = es, mp_ended = ended\<rparr>"
  "(at_events io es ended)\<lparr>bi_mp := Some \<lparr>mp_rx = es', mp_ended = ended'\<rparr>\<rparr> = at_events io es' ended'"
  by (simp_all add: at_events_def)

lemma read_part_steps [simp]:
  "read_part (at_events io (Chunk b # es) False) = (Inr (Some b), at_events io es False)"
  "read_part (at_events io (PartEnd # es) False) = (Inr None, at_events io es True)"
  "read_part (at_events io (Part n f c # es) False) = (Inr None, at_events io es True)"
  "read_part (at_events io (Reject st msg # es) False) = (Inl (mp_reject st msg), at_events io es False)"
  "read_part (at_events io [] False) = (Inr None, at_events io [] True)"
  "read_part (at_events io es True) = (Inr None, at_events io es True)"
  by (simp_all add: read_part_def)

lemma next_part_at:
  "next_part (at_events io es ended) =
     (case next_part_rx es of (r, es') \<Rightarrow>
        (r, at_events io es' (case r of Inr (Some _) \<Rightarrow> False | _ \<Rightarrow> ended)))"
  by (simp add: next_part_def split: prod.splits sum.splits option.splits)

lemma read_part_all_chunks:
  "length cs < fuel \<Longrightarrow>
   read_part_all fuel (at_events io (map Chunk cs @ PartEnd # es) False) acc =
     Some (Inr (acc @ concat cs), at_events io es True)"
proof (induction cs arbitrary: fuel acc)
  case Nil
  then show ?case by (cases fuel) simp_all
next
  case (Cons c cs)
  then show ?case by (cases fuel) simp_all
qed

lemma read_form_fields:
  "room fs < fuel \<Longrightarrow>
   read_form fuel (at_events io (concat (map field_events fs)) ended) = Some (Inr (map field_view fs))"
proof (induction fs arbitrary: fuel ended)
  case Nil
  then show ?case by (cases fuel) (simp_all add: next_part_at)
next
  case (Cons f fs)
  then obtain n where n: "fuel = Suc n" "length (mf_chunks f) < n" "room fs < n"
    by (cases fuel) (auto simp: room_def field_events_def)
  with Cons.IH [of n True] show ?case
    by (simp add: next_part_at field_events_def [of f] read_part_all_chunks field_view_def)
qed

text \<open>A rejection anywhere in the events reaches the reader as an error.\<close>

definition rejects :: "mp_event list \<Rightarrow> bool" where
  "rejects es \<longleftrightarrow> (\<exists>st msg. Reject st msg \<in> set es)"

lemma rejects_simps [simp]:
  "\<not> rejects []" "rejects (Reject st msg # es)" "rejects (Chunk b # es) = rejects es"
  "rejects (PartEnd # es) = rejects es" "rejects (Part n f c # es) = rejects es"
  by (auto simp: rejects_def)

lemma read_part_all_rejects:
  "rejects es \<Longrightarrow> length es < fuel \<Longrightarrow>
   (\<exists>e io'. read_part_all fuel (at_events io es False) acc = Some (Inl e, io')) \<or>
   (\<exists>b es'. read_part_all fuel (at_events io es False) acc = Some (Inr b, at_events io es' True) \<and>
      rejects es' \<and> length es' < length es)"
proof (induction es arbitrary: fuel acc)
  case (Cons e es)
  obtain n where "fuel = Suc n" using Cons.prems(2) by (cases fuel) auto
  with Cons show ?case by (cases e) fastforce+
qed simp

lemma next_part_rx_rejects:
  "rejects es \<Longrightarrow>
   (\<exists>e es'. next_part_rx es = (Inl e, es')) \<or>
   (\<exists>pm es'. next_part_rx es = (Inr (Some pm), es') \<and> rejects es' \<and> length es' < length es)"
  by (induction es rule: next_part_rx.induct) auto

lemma read_form_rejects:
  "rejects es \<Longrightarrow> length es < fuel \<Longrightarrow> \<exists>e. read_form fuel (at_events io es ended) = Some (Inl e)"
proof (induction fuel arbitrary: es ended)
  case (Suc n)
  from next_part_rx_rejects [OF Suc.prems(1)] show ?case
  proof (elim disjE exE conjE)
    fix pm es' assume np: "next_part_rx es = (Inr (Some pm), es')" "rejects es'" "length es' < length es"
    then have "length es' < n" using Suc.prems(2) by simp
    from read_part_all_rejects [OF np(2) this, of io "[]"] show ?thesis
    proof (elim disjE exE conjE)
      fix b es'' assume "read_part_all n (at_events io es' False) [] = Some (Inr b, at_events io es'' True)"
        "rejects es''" "length es'' < length es'"
      with np Suc.IH [of es'' True] \<open>length es' < n\<close> show ?thesis by (auto simp: next_part_at)
    qed (use np in \<open>auto simp: next_part_at\<close>)
  qed (auto simp: next_part_at)
qed simp

section \<open>Properties\<close>

text \<open>A closed response body always drains: from every reachable state in which the sender
  was dropped and hyper still reads, there is a continuation in which hyper sees the end of
  the body, having received all that was written.\<close>

theorem response_stream_drains:
  assumes "rstep\<^sup>*\<^sup>* (rstart m) s" and "\<not> rs_tx (rt_stream s)" and "rs_rx (rt_stream s)"
  shows "\<exists>s'. rstep\<^sup>*\<^sup>* s s' \<and> rt_end s' \<and> rt_got s' = rt_written s"
proof -
  obtain s' where s': "rstep\<^sup>*\<^sup>* s s'" "rt_end s'" "rt_written s' = rt_written s"
    using drain_closed [OF responses.always [OF assms(1)] assms(2,3)] by blast
  have "rinv m s'" by (rule responses.ever_after [OF assms(1) s'(1)])
  with s' show ?thesis by (auto simp: rinv_def)
qed

text \<open>C22: The response body crosses the bounded channel without loss, reordering or invention:
  in every reachable state what hyper received is a prefix of what was written while the body
  was open, at most one chunk is buffered, the byte counter has grown by exactly the bytes
  received, and when hyper is told the body ended it has received every chunk, also those
  whose write was still waiting when the body was closed; and from every such state in which the
  sender was dropped and hyper still reads, there is a continuation that delivers all that was written and ends.\<close>

theorem response_stream_lossless:
  assumes "rstep\<^sup>*\<^sup>* (rstart m) s"
  shows "prefix (rt_got s) (rt_written s) \<and>
    length (rs_queue (rt_stream s)) \<le> BODY_CHANNEL_CAP \<and>
    mt_response_bytes (rs_metrics (rt_stream s)) = mt_response_bytes m + of_nat (length (concat (rt_got s))) \<and>
    (rt_end s \<longrightarrow> rt_got s = rt_written s) \<and>
    (\<not> rs_tx (rt_stream s) \<and> rs_rx (rt_stream s) \<longrightarrow> (\<exists>s'. rstep\<^sup>*\<^sup>* s s' \<and> rt_end s' \<and> rt_got s' = rt_written s))"
  using responses.always [OF assms] response_stream_drains [OF assms] by (simp add: rinv_def)

definition sample_rstate :: rstate where
  "sample_rstate =
     (rstart metrics_new)\<lparr>rt_stream := end_write (write_chunk [1, 2] (resp_stream_new metrics_new)),
        rt_written := [[1, 2]]\<rparr>"

lemma sample_rstate_reach: "rstep\<^sup>*\<^sup>* (rstart metrics_new) sample_rstate"
proof -
  have 1: "rstep (rstart metrics_new)
      ((rstart metrics_new)\<lparr>rt_stream := write_chunk [1, 2] (resp_stream_new metrics_new), rt_written := [[1, 2]]\<rparr>)"
    using rwrite [of "rstart metrics_new" "[1, 2]"] by (simp add: rstart_def resp_stream_new_def)
  have 2: "rstep ((rstart metrics_new)\<lparr>rt_stream := write_chunk [1, 2] (resp_stream_new metrics_new),
      rt_written := [[1, 2]]\<rparr>) sample_rstate"
    using rend [of "(rstart metrics_new)\<lparr>rt_stream := write_chunk [1, 2] (resp_stream_new metrics_new),
      rt_written := [[1, 2]]\<rparr>"] by (simp add: sample_rstate_def rstart_def)
  show ?thesis by (rule two_steps [of rstep, OF 1 2])
qed

theorem response_stream_lossless_witness:
  "prefix (rt_got sample_rstate) (rt_written sample_rstate)"
  by (rule response_stream_lossless [OF sample_rstate_reach, THEN conjunct1])

theorem response_stream_drains_witness:
  "\<exists>s'. rstep\<^sup>*\<^sup>* sample_rstate s' \<and> rt_end s' \<and> rt_got s' = rt_written sample_rstate"
  by (rule response_stream_drains [OF sample_rstate_reach])
     (simp_all add: sample_rstate_def end_write_def write_chunk_def resp_stream_new_def)

text \<open>C24: A form survives the trip from the parser to the handler: a handler that reads every
  part to its end gets exactly the fields of the form, metadata and bytes, in order, when the
  form respects the configuration (a count limit of \<^verbatim>\<open>u32::MAX\<close> being none); and when it does not, the
  handler gets an error, never a shortened form. A fuel above the number of events is enough.\<close>

theorem multipart_round_trip:
  assumes "\<forall>f \<in> set (fm_fields form). field_size f < 2 ^ 64"
    and "room (fm_fields form) < open_for" and "length (parse_task cfg open_for form) < fuel"
  shows "if (\<forall>f \<in> set (fm_fields form). field_ok cfg f) \<and>
            within cfg (num_files (fm_fields form)) (num_fields (fm_fields form)) \<and> fm_complete form
         then read_form fuel (body_io_new None tx (Some (parse_task cfg open_for form)) ab) =
                Some (Inr (map field_view (fm_fields form)))
         else \<exists>e. read_form fuel (body_io_new None tx (Some (parse_task cfg open_for form)) ab) = Some (Inl e)"
proof -
  have io: "body_io_new None tx (Some es) ab = at_events (body_io_new None tx (Some es) ab) es False" for es
    by (simp add: body_io_new_def at_events_def)
  have whole: "read_form fuel (body_io_new None tx (Some es) ab) = Some (Inr (map field_view fs))"
    if "es = concat (map field_events fs)" "length es < fuel" for es fs
    by (subst io) (use that in \<open>simp add: read_form_fields room_def\<close>)
  have cut: "\<exists>e. read_form fuel (body_io_new None tx (Some es) ab) = Some (Inl e)"
    if "rejects es" "length es < fuel" for es
    by (subst io) (rule read_form_rejects [OF that])
  have "rejects (pre @ [Reject st msg])" for pre st msg by (auto simp: rejects_def)
  with parse_whole_or_rejected [OF assms(1,2), of cfg] whole [OF _ assms(3)] cut [OF _ assms(3)]
  show ?thesis by (auto split: if_splits)
qed

theorem multipart_round_trip_witness:
  "read_form 20 (body_io_new None True (Some (parse_task sample_mp_config 20 sample_form)) abort_new) =
     Some (Inr (map field_view (fm_fields sample_form)))"
proof -
  have complete: "fm_complete sample_form" by (simp add: sample_form_def)
  have "length (parse_task sample_mp_config 20 sample_form) < 20"
    using parse_whole_or_rejected [OF sample_form_small sample_form_ok(3), of sample_mp_config]
      sample_form_ok complete by (simp add: room_def)
  from multipart_round_trip [OF sample_form_small sample_form_ok(3) this, of True abort_new]
  show ?thesis using sample_form_ok complete by simp
qed

end
