(* ===== verification/Http.thy ===== *)
theory Http
  imports Cache Cors Health Body_Stream
begin

text \<open>
  The request and response helpers of \<^verbatim>\<open>src/server.rs\<close>: header access, the client address and the
  request id, reading a body, building a response, the probe responses and the access log line.

  A header map is the list of its entries with lower-case names. The parts of the crate \<^verbatim>\<open>http\<close>
  that decide which names, values and statuses are legal are the record \<open>http_ops\<close>, with what
  the code relies on in \<open>http_laws\<close>. A request body is the list of what polling it yields, each
  with the time it took to arrive; the end of the list is the end of the body.
\<close>

section \<open>Headers\<close>

text \<open>\<^verbatim>\<open>HeaderValue::to_str\<close>: visible ASCII, space and tab.\<close>

definition to_str :: "string \<Rightarrow> string option" where
  "to_str v = (if list_all (\<lambda>c. let n = of_char c :: nat in (32 \<le> n \<and> n < 127) \<or> n = 9) v then Some v else None)"

definition header_str :: "kv_pair list \<Rightarrow> string \<Rightarrow> string option" where
  "header_str hm name = (case find_header name hm of None \<Rightarrow> None | Some p \<Rightarrow> to_str (kv_value p))"

definition contains_key :: "kv_pair list \<Rightarrow> string \<Rightarrow> bool" where
  "contains_key hm name = list_ex (\<lambda>p. kv_key p = name) hm"

definition content_length :: "kv_pair list \<Rightarrow> nat option" where
  "content_length hm =
     (case header_str hm ''content-length'' of None \<Rightarrow> None | Some s \<Rightarrow> parse_u64 s)"

definition request_has_body :: "kv_pair list \<Rightarrow> bool" where
  "request_has_body hm =
     (if contains_key hm ''transfer-encoding'' then True
      else case content_length hm of None \<Rightarrow> False | Some n \<Rightarrow> n > 0)"

definition collect_headers :: "kv_pair list \<Rightarrow> kv_pair list" where
  "collect_headers hm = map (\<lambda>p. kv (kv_key p) (case to_str (kv_value p) of Some s \<Rightarrow> s | None \<Rightarrow> [])) hm"

definition content_encoding :: "kv_pair list \<Rightarrow> string option" where
  "content_encoding hs =
     (case find_header ''content-encoding'' hs of
        None \<Rightarrow> None
      | Some p \<Rightarrow>
          let v = to_lowercase (trim (kv_value p))
          in if v = [] \<or> v = ''identity'' then None else Some v)"

fun first_present :: "kv_pair list \<Rightarrow> string list \<Rightarrow> string option" where
  "first_present hs [] = None"
| "first_present hs (name # names) =
     (case find_header (to_lowercase name) hs of
        Some p \<Rightarrow> if trim (kv_value p) \<noteq> [] then Some (trim (kv_value p)) else first_present hs names
      | None \<Rightarrow> first_present hs names)"

definition client_ip_country ::
  "kv_pair list \<Rightarrow> string list \<Rightarrow> string list \<Rightarrow> string \<Rightarrow> string \<times> string list \<times> string option" where
  "client_ip_country hs ip_headers country_headers peer_ip =
     (let (ip, ips) =
        (case first_present hs ip_headers of
           Some val \<Rightarrow>
             let parts = filter (\<lambda>s. s \<noteq> []) (map trim (split_on (CHR '','') val))
             in ((case parts of p # _ \<Rightarrow> p | [] \<Rightarrow> peer_ip), (if parts = [] then [peer_ip] else parts))
         | None \<Rightarrow> (peer_ip, [peer_ip]));
          country = map_option (\<lambda>c. to_uppercase (trim c)) (first_present hs country_headers)
      in (ip, ips, country))"

text \<open>\<open>fresh\<close> is the UUID a call of the third-party generator would give.\<close>

definition request_id :: "string \<Rightarrow> kv_pair list \<Rightarrow> string \<Rightarrow> string" where
  "request_id fresh hs id_header =
     (case find_header (to_lowercase id_header) hs of
        Some p \<Rightarrow> if trim (kv_value p) \<noteq> [] then trim (kv_value p) else fresh
      | None \<Rightarrow> fresh)"

text \<open>\<open>urlencoded\<close> is the third-party parser of query strings.\<close>

definition parse_query :: "(string \<Rightarrow> (string \<times> string) list) \<Rightarrow> string option \<Rightarrow> kv_pair list" where
  "parse_query urlencoded q =
     (case q of Some s \<Rightarrow> map (\<lambda>(k, v). kv k v) (urlencoded s) | None \<Rightarrow> [])"

section \<open>Reading a request body\<close>

datatype frame = DataFrame bytes | Trailers | FrameErr

type_synonym incoming = "(nat \<times> frame) list"

datatype body_err = BodyTooLarge | BodyTimeout | BodyAborted

text \<open>Whether waiting for a frame outlasts the read timeout.\<close>

definition expired :: "nat option \<Rightarrow> nat \<Rightarrow> bool" where
  "expired read_timeout wait = (case read_timeout of None \<Rightarrow> False | Some d \<Rightarrow> d < wait)"

definition body_feed :: "nat option \<Rightarrow> nat \<Rightarrow> bytes \<Rightarrow> nat option" where
  "body_feed limit got d =
     (let got = sat_add64 got (length d) in if over_limit limit got then None else Some got)"

text \<open>\<open>open_for\<close>: how many more messages the receiver takes before it goes away.\<close>

definition last_msg :: "nat \<Rightarrow> body_msg \<Rightarrow> body_msg list" where
  "last_msg open_for msg = (if open_for = 0 then [] else [msg])"

fun read_body_task ::
  "nat option \<Rightarrow> nat option \<Rightarrow> nat \<Rightarrow> nat \<Rightarrow> incoming \<Rightarrow> metrics \<Rightarrow> body_msg list \<times> metrics" where
  "read_body_task limit read_timeout open_for got [] m = ([], m)"
| "read_body_task limit read_timeout open_for got ((wait, fr) # frs) m =
     (if expired read_timeout wait then (last_msg open_for Timeout, m)
      else case fr of
        FrameErr \<Rightarrow> (last_msg open_for Aborted, m)
      | Trailers \<Rightarrow> read_body_task limit read_timeout open_for got frs m
      | DataFrame d \<Rightarrow>
          let m = add_request_bytes (of_nat (length d)) m
          in case body_feed limit got d of
               None \<Rightarrow> (last_msg open_for Overflow, m)
             | Some got' \<Rightarrow>
                 if open_for = 0 then ([], m)
                 else (case read_body_task limit read_timeout (open_for - 1) got' frs m of
                         (msgs, m') \<Rightarrow> (Data d # msgs, m')))"

definition buffer_feed :: "nat option \<Rightarrow> bytes \<Rightarrow> bytes \<Rightarrow> bytes option" where
  "buffer_feed limit buf d = (if over_limit limit (length buf + length d) then None else Some (buf @ d))"

fun buffer_from :: "nat option \<Rightarrow> nat option \<Rightarrow> bytes \<Rightarrow> incoming \<Rightarrow> metrics \<Rightarrow> (body_err + bytes) \<times> metrics" where
  "buffer_from limit read_timeout buf [] m = (Inr buf, m)"
| "buffer_from limit read_timeout buf ((wait, fr) # frs) m =
     (if expired read_timeout wait then (Inl BodyTimeout, m)
      else case fr of
        FrameErr \<Rightarrow> (Inl BodyAborted, m)
      | Trailers \<Rightarrow> buffer_from limit read_timeout buf frs m
      | DataFrame d \<Rightarrow>
          let m = add_request_bytes (of_nat (length d)) m
          in case buffer_feed limit buf d of
               None \<Rightarrow> (Inl BodyTooLarge, m)
             | Some buf' \<Rightarrow> buffer_from limit read_timeout buf' frs m)"

definition buffer_body :: "nat option \<Rightarrow> nat option \<Rightarrow> incoming \<Rightarrow> metrics \<Rightarrow> (body_err + bytes) \<times> metrics" where
  "buffer_body limit read_timeout frs m = buffer_from limit read_timeout [] frs m"

section \<open>Building a response\<close>

record http_ops =
  ho_name :: "string \<Rightarrow> string option"
  ho_value :: "string \<Rightarrow> bool"
  ho_status :: "nat \<Rightarrow> bool"

definition header_token :: "string \<Rightarrow> bool" where
  "header_token k \<longleftrightarrow> k \<noteq> [] \<and> list_all (\<lambda>c. is_ascii_alphanumeric c \<or> c = CHR ''-'') k"

definition printable :: "string \<Rightarrow> bool" where
  "printable v \<longleftrightarrow> list_all (\<lambda>c. let n = of_char c :: nat in 32 \<le> n \<and> n < 127) v"

definition http_laws :: "http_ops \<Rightarrow> bool" where
  "http_laws H \<longleftrightarrow>
     (\<forall>n. ho_status H n \<longleftrightarrow> 100 \<le> n \<and> n \<le> 999) \<and>
     (\<forall>k. header_token k \<longrightarrow> ho_name H k = Some (to_lowercase k)) \<and>
     (\<forall>v. printable v \<longrightarrow> ho_value H v)"

datatype res_body = Full string | Channel

record response =
  re_status :: nat
  re_headers :: "(string \<times> string) list"
  re_body :: res_body

type_synonym builder = "(nat \<times> (string \<times> string) list) option"

definition b_status :: "http_ops \<Rightarrow> nat \<Rightarrow> builder" where
  "b_status H code = (if ho_status H code then Some (code, []) else None)"

definition b_header :: "http_ops \<Rightarrow> string \<Rightarrow> string \<Rightarrow> builder \<Rightarrow> builder" where
  "b_header H k v b =
     (case b of
        None \<Rightarrow> None
      | Some (code, hs) \<Rightarrow>
          (case ho_name H k of
             None \<Rightarrow> None
           | Some k' \<Rightarrow> if ho_value H v then Some (code, hs @ [(k', v)]) else None))"

definition b_headers :: "http_ops \<Rightarrow> (string \<times> string) list \<Rightarrow> builder \<Rightarrow> builder" where
  "b_headers H kvs b = foldl (\<lambda>b (k, v). b_header H k v b) b kvs"

definition status_text :: "nat \<Rightarrow> string \<Rightarrow> response" where
  "status_text code text = \<lparr>re_status = code, re_headers = [], re_body = Full text\<rparr>"

definition builder_or_500 :: "builder \<Rightarrow> res_body \<Rightarrow> response" where
  "builder_or_500 b body =
     (case b of
        Some (code, hs) \<Rightarrow> \<lparr>re_status = code, re_headers = hs, re_body = body\<rparr>
      | None \<Rightarrow> status_text 500 ''Internal Server Error'')"

definition text_plain :: "string \<times> string" where
  "text_plain = (''content-type'', ''text/plain; charset=utf-8'')"

definition no_store :: "string \<times> string" where
  "no_store = (''cache-control'', ''no-store'')"

definition overloaded_response :: "http_ops \<Rightarrow> nat \<Rightarrow> response" where
  "overloaded_response H retry_after =
     builder_or_500 (b_headers H [(''retry-after'', show_nat retry_after), text_plain] (b_status H 503))
       (Full ''Service Unavailable'')"

definition pairs_response :: "http_ops \<Rightarrow> nat \<Rightarrow> (string \<times> string) list \<Rightarrow> response" where
  "pairs_response H code hs = builder_or_500 (b_headers H hs (b_status H code)) (Full [])"

text \<open>The \<^verbatim>\<open>content-length\<close> of a response to HEAD, unless the handler set one.\<close>

definition head_length :: "nat \<Rightarrow> builder \<Rightarrow> builder" where
  "head_length len b =
     (case b of
        None \<Rightarrow> None
      | Some (code, hs) \<Rightarrow>
          if list_ex (\<lambda>(k, v). k = ''content-length'') hs then Some (code, hs)
          else Some (code, hs @ [(''content-length'', show_nat len)]))"

definition cached_response ::
  "http_ops \<Rightarrow> hit \<Rightarrow> bool \<Rightarrow> string \<Rightarrow> string \<Rightarrow> metrics \<Rightarrow> response \<times> metrics" where
  "cached_response H h is_head rid id_header m =
     (let b = b_headers H (h_headers h @ [(id_header, rid), (''x-cache'', ''hit'')]) (b_status H (h_status h))
      in if is_head then (builder_or_500 (head_length (length (h_body h)) b) (Full []), m)
         else (builder_or_500 b (Full (h_body h)), add_response_bytes (of_nat (length (h_body h))) m))"

definition build_response :: "http_ops \<Rightarrow> js_response \<Rightarrow> bool \<Rightarrow> metrics \<Rightarrow> response \<times> metrics" where
  "build_response H res is_head m =
     (let b = b_headers H
            (map (\<lambda>p. (kv_key p, kv_value p)) (case jr_headers res of None \<Rightarrow> [] | Some hs \<Rightarrow> hs))
            (b_status H (default_status res));
          streamed = is_streamed res
      in if is_head then
           (builder_or_500 (if streamed then b else head_length (length (body_or_empty res)) b) (Full []), m)
         else if streamed then (builder_or_500 b Channel, m)
         else (builder_or_500 b (Full (body_or_empty res)),
               add_response_bytes (of_nat (length (body_or_empty res))) m))"

definition apply_cors :: "http_ops \<Rightarrow> cors option \<Rightarrow> string option \<Rightarrow> response \<Rightarrow> response" where
  "apply_cors H policy origin res =
     (case policy of
        None \<Rightarrow> res
      | Some c \<Rightarrow>
          foldl (\<lambda>r (k, v).
              case ho_name H k of
                None \<Rightarrow> r
              | Some k' \<Rightarrow> if ho_value H v then r\<lparr>re_headers := re_headers r @ [(k', v)]\<rparr> else r)
            res (actual c origin))"

text \<open>Probes and metrics; \<open>show_secs\<close> is the argument of the metrics encoder.\<close>

definition admin_response ::
  "http_ops \<Rightarrow> (u64 \<Rightarrow> string) \<Rightarrow> health_paths \<Rightarrow> readiness \<Rightarrow> metrics \<Rightarrow> string \<Rightarrow> string \<Rightarrow> response option" where
  "admin_response H show_secs p r m meth path =
     (if meth \<noteq> ''GET'' \<and> meth \<noteq> ''HEAD'' then None
      else if hp_health p \<noteq> [] \<and> path = hp_health p then
        Some (builder_or_500 (b_headers H [text_plain, no_store] (b_status H 200)) (Full ''ok''))
      else if hp_ready p \<noteq> [] \<and> path = hp_ready p then
        Some (builder_or_500
          (b_headers H [text_plain, no_store] (b_status H (if is_ready r then 200 else 503)))
          (Full (reason r)))
      else if hp_metrics p \<noteq> [] \<and> path = hp_metrics p then
        Some (builder_or_500
          (b_headers H [(''content-type'', ''text/plain; version=0.0.4; charset=utf-8''), no_store]
             (b_status H 200))
          (Full (encode show_secs m)))
      else None)"

section \<open>The access log\<close>

definition escape_char :: "char \<Rightarrow> string" where
  "escape_char c =
     (let n = of_char c :: nat
      in if n = 34 then [CHR 0x5C, CHR 0x22]
         else if n = 92 then [CHR 0x5C, CHR 0x5C]
         else if n = 10 then [CHR 0x5C, CHR ''n'']
         else if n = 13 then [CHR 0x5C, CHR ''r'']
         else if n = 9 then [CHR 0x5C, CHR ''t'']
         else if n < 32 then [CHR 0x5C, CHR ''u''] @ pad_left 4 (show_hex n)
         else [c])"

definition escape_json :: "string \<Rightarrow> string" where
  "escape_json s = concat (map escape_char s)"

definition dquote :: "string \<Rightarrow> string" where
  "dquote s = [CHR 0x22] @ s @ [CHR 0x22]"

text \<open>The line of a request; \<open>ms\<close> is the printed duration.\<close>

definition access_log :: "string \<Rightarrow> string \<Rightarrow> nat \<Rightarrow> string \<Rightarrow> string" where
  "access_log meth path status ms =
     ''{'' @ dquote ''level'' @ '':'' @ dquote ''info'' @ '','' @ dquote ''msg'' @ '':'' @ dquote ''request'' @
     '','' @ dquote ''method'' @ '':'' @ dquote meth @ '','' @ dquote ''path'' @ '':'' @ dquote (escape_json path) @
     '','' @ dquote ''status'' @ '':'' @ show_nat status @ '','' @ dquote ''durationMs'' @ '':'' @ ms @ ''}''"

section \<open>Lemmas\<close>

interpretation bf: size_guard limit "\<lambda>s. s" "body_feed limit" for limit
  by unfold_locales (auto simp: body_feed_def sat_add64_def Let_def split: if_splits)

interpretation bb: size_guard limit length "buffer_feed limit" for limit
  by unfold_locales (auto simp: buffer_feed_def split: if_splits)

text \<open>The data of a body that arrives without error and in time.\<close>

fun frame_data :: "incoming \<Rightarrow> bytes list" where
  "frame_data [] = []"
| "frame_data ((_, DataFrame d) # frs) = d # frame_data frs"
| "frame_data (_ # frs) = frame_data frs"

definition clean :: "nat option \<Rightarrow> incoming \<Rightarrow> bool" where
  "clean read_timeout frs \<longleftrightarrow> list_all (\<lambda>(wait, fr). \<not> expired read_timeout wait \<and> fr \<noteq> FrameErr) frs"

lemma clean_simps [simp]:
  "clean to []" "clean to ((wait, fr) # frs) \<longleftrightarrow> \<not> expired to wait \<and> fr \<noteq> FrameErr \<and> clean to frs"
  by (simp_all add: clean_def)

lemma buffer_from_clean:
  "clean to frs \<Longrightarrow>
   fst (buffer_from limit to buf frs m) =
     (case bb.feed_all limit buf (frame_data frs) of None \<Rightarrow> Inl BodyTooLarge | Some b \<Rightarrow> Inr b)"
proof (induction frs arbitrary: buf m rule: frame_data.induct)
  case (2 wait d frs)
  then show ?case by (cases "buffer_feed limit buf d") (simp_all add: Let_def)
qed simp_all

lemma buffer_feed_Some:
  "buffer_feed limit buf d = Some b \<longleftrightarrow> b = buf @ d \<and> \<not> over_limit limit (length buf + length d)"
  by (auto simp: buffer_feed_def)

lemma bb_feed_all_contents: "bb.feed_all limit buf ds = Some out \<Longrightarrow> out = buf @ concat ds"
proof (induction ds arbitrary: buf)
  case (Cons d ds)
  from Cons.prems obtain b1 where "buffer_feed limit buf d = Some b1" "bb.feed_all limit b1 ds = Some out"
    by (auto split: option.splits)
  with Cons.IH [of b1] show ?case by (simp add: buffer_feed_Some)
qed simp

text \<open>How an error of the buffered path reads on the streamed path.\<close>

fun err_reason :: "body_err \<Rightarrow> string" where
  "err_reason BodyTooLarge = BODY_LIMIT_EXCEEDED"
| "err_reason BodyTimeout = BODY_READ_TIMEOUT"
| "err_reason BodyAborted = BODY_READ_ABORTED"

definition with_msgs :: "body_io \<Rightarrow> body_msg list \<Rightarrow> body_io" where
  "with_msgs io msgs = io\<lparr>bi_req_rx := Some msgs\<rparr>"

lemma read_with_msgs [simp]:
  "read (with_msgs io []) = (Inr None, with_msgs io [])"
  "read (with_msgs io (Data b # ms)) = (Inr (Some b), with_msgs io ms)"
  "read (with_msgs io (Overflow # ms)) = (Inl BODY_LIMIT_EXCEEDED, with_msgs io ms)"
  "read (with_msgs io (Timeout # ms)) = (Inl BODY_READ_TIMEOUT, with_msgs io ms)"
  "read (with_msgs io (Aborted # ms)) = (Inl BODY_READ_ABORTED, with_msgs io ms)"
  by (simp_all add: read_def with_msgs_def)

lemma feeds_agree:
  "length buf + length d < 2 ^ 64 \<Longrightarrow>
   body_feed limit (length buf) d = map_option length (buffer_feed limit buf d)"
  by (auto simp: body_feed_def buffer_feed_def sat_add64_def Let_def)

lemma streamed_buffered:
  "length buf + length (concat (frame_data frs)) < 2 ^ 64 \<Longrightarrow> length frs < open_for \<Longrightarrow>
   length frs < fuel \<Longrightarrow>
   buffer_from limit to buf frs m = (res, m') \<Longrightarrow>
   (\<exists>msgs. read_body_task limit to open_for (length buf) frs m = (msgs, m') \<and>
      read_all fuel (with_msgs io msgs) buf =
        Some (case res of Inl e \<Rightarrow> Inl (err_reason e) | Inr b \<Rightarrow> Inr b))"
proof (induction frs arbitrary: buf m open_for fuel)
  case Nil
  then show ?case by (cases fuel) auto
next
  case (Cons x frs)
  obtain wait fr where x: "x = (wait, fr)" by (cases x)
  obtain f where f: "fuel = Suc f" using Cons.prems(3) by (cases fuel) auto
  show ?case
  proof (cases "expired to wait \<or> fr = FrameErr")
    case True
    with Cons.prems x f show ?thesis by (auto simp: last_msg_def)
  next
    case ok: False
    show ?thesis
    proof (cases fr)
      case Trailers
      with ok Cons.prems x f Cons.IH [of buf "open_for" fuel m] show ?thesis by simp
    next
      case (DataFrame d)
      let ?m = "add_request_bytes (of_nat (length d)) m"
      have agree: "body_feed limit (length buf) d = map_option length (buffer_feed limit buf d)"
        using Cons.prems(1) x DataFrame by (intro feeds_agree) simp
      show ?thesis
      proof (cases "buffer_feed limit buf d")
        case None
        with ok Cons.prems x f DataFrame agree show ?thesis by (auto simp: last_msg_def Let_def)
      next
        case (Some buf')
        then have buf': "buf' = buf @ d" by (simp add: buffer_feed_def split: if_splits)
        have "\<exists>msgs. read_body_task limit to (open_for - 1) (length buf') frs ?m = (msgs, m') \<and>
            read_all f (with_msgs io msgs) buf' = Some (case res of Inl e \<Rightarrow> Inl (err_reason e) | Inr b \<Rightarrow> Inr b)"
          using Cons.prems x f DataFrame ok Some buf' by (intro Cons.IH) (simp_all add: Let_def)
        then show ?thesis
          using ok Cons.prems(2) x f DataFrame agree Some buf' by (auto simp: Let_def)
      qed
    qed (use ok in simp)
  qed
qed

lemma streamed_as_buffered:
  assumes "length (concat (frame_data frs)) < 2 ^ 64" and "length frs < open_for" and "length frs < fuel"
    and "buffer_body limit read_timeout frs m = (res, m')"
  shows "\<exists>msgs. read_body_task limit read_timeout open_for 0 frs m = (msgs, m') \<and>
     read_all fuel (body_io_new (Some msgs) tx None ab) [] =
       Some (case res of Inl e \<Rightarrow> Inl (err_reason e) | Inr b \<Rightarrow> Inr b)"
proof -
  have io: "body_io_new (Some msgs) tx None ab = with_msgs (body_io_new None tx None ab) msgs" for msgs
    by (simp add: body_io_new_def with_msgs_def)
  show ?thesis
    unfolding io
    using streamed_buffered [of "[]" frs open_for fuel limit read_timeout m res m' "body_io_new None tx None ab"]
      assms by (simp add: buffer_body_def)
qed

subsection \<open>Reading back an escaped string\<close>

text \<open>A JSON string reader for the escapes the log uses; a bare quote or control character is
  an error, as in any JSON reader.\<close>

definition hex4 :: "string \<Rightarrow> nat" where
  "hex4 s = base_val 16 s"

fun unescape_json :: "string \<Rightarrow> string option" where
  "unescape_json [] = Some []"
| "unescape_json (c # cs) =
     (if c = CHR 0x5C then
        (case cs of
           [] \<Rightarrow> None
         | e # es \<Rightarrow>
             if e = CHR ''u'' then
               (if length es < 4 then None
                else map_option (Cons (char_of (hex4 (take 4 es)))) (unescape_json (drop 4 es)))
             else if e = CHR ''n'' then map_option (Cons (CHR 0x0A)) (unescape_json es)
             else if e = CHR ''r'' then map_option (Cons (CHR 0x0D)) (unescape_json es)
             else if e = CHR ''t'' then map_option (Cons (CHR 0x09)) (unescape_json es)
             else if e = CHR 0x22 \<or> e = CHR 0x5C then map_option (Cons e) (unescape_json es)
             else None)
      else if c = CHR 0x22 \<or> (of_char c :: nat) < 32 then None
      else map_option (Cons c) (unescape_json cs))"

lemma char_eq_code: "c = d \<longleftrightarrow> (of_char c :: nat) = of_char d"
  by (metis char_of_char)

lemma hex_length: "n < 32 \<Longrightarrow> length (show_hex n) \<le> 2"
proof -
  assume "n < 32"
  then have "n div 16 < 16" by arith
  then show ?thesis by (simp add: show_hex_def show_base.simps [of 16 n] show_base.simps [of 16 "n div 16"])
qed

lemma unescape_char: "unescape_json (escape_char c @ s) = map_option (Cons c) (unescape_json s)"
proof (cases "(of_char c :: nat) < 32 \<and> of_char c \<noteq> (10 :: nat) \<and> of_char c \<noteq> (13 :: nat) \<and> of_char c \<noteq> (9 :: nat)")
  case True
  define n where "n = (of_char c :: nat)"
  have len: "length (pad_left 4 (show_hex n)) = 4"
    using hex_length [of n] True by (simp add: pad_left_def n_def)
  have "escape_char c = CHR 0x5C # CHR ''u'' # pad_left 4 (show_hex n)"
    using True by (simp add: escape_char_def n_def Let_def)
  moreover have "char_of (hex4 (pad_left 4 (show_hex n))) = c"
    by (simp add: hex4_def base_val_pad_left n_def)
  ultimately show ?thesis using len by simp
next
  case False
  then consider "c \<in> {CHR 0x22, CHR 0x5C, CHR 0x0A, CHR 0x0D, CHR 0x09}"
    | "32 \<le> (of_char c :: nat)" "c \<noteq> CHR 0x22" "c \<noteq> CHR 0x5C"
    by (fastforce simp: char_eq_code)
  then show ?thesis
  proof cases
    case 1
    then show ?thesis by (auto simp: escape_char_def)
  next
    case 2
    then have "escape_char c = [c]" by (auto simp: escape_char_def Let_def char_eq_code)
    with 2 show ?thesis by simp
  qed
qed

text \<open>Without an error or a timeout the limit alone decides.\<close>

lemma buffer_body_clean:
  assumes "clean read_timeout frs" and "length (concat (frame_data frs)) < 2 ^ 64"
  shows "fst (buffer_body limit read_timeout frs m) =
     (if over_limit limit (length (concat (frame_data frs))) then Inl BodyTooLarge
      else Inr (concat (frame_data frs)))"
proof -
  have "bb.feed_all limit [] (frame_data frs) = None \<longleftrightarrow> over_limit limit (length (concat (frame_data frs)))"
    using bb.feed_all_None [of "[]" "frame_data frs" limit] assms(2) by (cases limit) auto
  then show ?thesis
    unfolding buffer_body_def buffer_from_clean [OF assms(1)]
    using bb_feed_all_contents [of limit "[]" "frame_data frs"] by (auto split: option.splits)
qed

section \<open>Properties\<close>

text \<open>The body limit is authoritative: a body that arrives without error and in time is
  buffered whole when its actual bytes are within the limit and refused as too large exactly
  when they are not, however it is cut into frames and whatever its declared length; where
  something is buffered it is all of the body.\<close>

theorem buffer_body_limit:
  assumes "clean read_timeout frs" and "length (concat (frame_data frs)) < 2 ^ 64"
  shows "fst (buffer_body limit read_timeout frs m) =
     (if over_limit limit (length (concat (frame_data frs))) then Inl BodyTooLarge
      else Inr (concat (frame_data frs)))"
  by (rule buffer_body_clean [OF assms])

text \<open>Streaming and buffering a body are the same to a handler, errors included: for every
  body, a handler that reads the streamed messages to the end gets the bytes the buffered
  path would give, or the error with the reason that stands for the buffered path's error
  (limit, timeout, aborted), and both paths count the same bytes.\<close>

theorem streamed_equals_buffered:
  assumes "length (concat (frame_data frs)) < 2 ^ 64" and "length frs < open_for" and "length frs < fuel"
    and "buffer_body limit read_timeout frs m = (res, m')"
  shows "\<exists>msgs. read_body_task limit read_timeout open_for 0 frs m = (msgs, m') \<and>
     read_all fuel (body_io_new (Some msgs) tx None ab) [] =
       Some (case res of Inl e \<Rightarrow> Inl (err_reason e) | Inr b \<Rightarrow> Inr b)"
  by (rule streamed_as_buffered [OF assms])

definition sample_body :: incoming where
  "sample_body = [(5, DataFrame [1, 2]), (0, Trailers), (7, DataFrame [3])]"

theorem buffer_body_limit_witness:
  "fst (buffer_body (Some 3) (Some 10) sample_body metrics_new) = Inr [1, 2, 3] \<and>
   fst (buffer_body (Some 2) (Some 10) sample_body metrics_new) = Inl BodyTooLarge"
  using buffer_body_limit [of "Some 10" sample_body "Some 3" metrics_new]
    buffer_body_limit [of "Some 10" sample_body "Some 2" metrics_new]
  by (simp add: sample_body_def expired_def)

theorem streamed_equals_buffered_witness:
  "\<exists>msgs m'. read_body_task (Some 2) None 9 0 sample_body metrics_new = (msgs, m') \<and>
     read_all 9 (body_io_new (Some msgs) True None abort_new) [] = Some (Inl BODY_LIMIT_EXCEEDED)"
proof -
  obtain res m' where r: "buffer_body (Some 2) None sample_body metrics_new = (res, m')"
    by (cases "buffer_body (Some 2) None sample_body metrics_new")
  then have "res = Inl BodyTooLarge"
    by (auto simp: buffer_body_def sample_body_def expired_def buffer_feed_def Let_def)
  with streamed_equals_buffered [OF _ _ _ r, of 9 9 True abort_new] show ?thesis
    by (auto simp: sample_body_def)
qed

text \<open>A path in the access log cannot break out of its JSON string: a reader that rejects
  bare quotes and control characters reads the escaped path back as exactly the path.\<close>

theorem escape_json_round_trip: "unescape_json (escape_json s) = Some s"
  by (induction s) (simp_all add: escape_json_def unescape_char)

text \<open>A request always has a client address: with a peer address the list of addresses is not
  empty, has no empty entry, and starts with the address reported, which is the peer's
  unless the first configured header with a value names another; a country, when there is
  one, is not empty.\<close>

theorem client_ip_present:
  assumes "peer_ip \<noteq> []" and "client_ip_country hs ip_headers country_headers peer_ip = (ip, ips, country)"
  shows "ip \<noteq> []" and "\<exists>rest. ips = ip # rest" and "[] \<notin> set ips"
    and "first_present hs ip_headers = None \<Longrightarrow> ip = peer_ip" and "country \<noteq> Some []"
proof -
  have fp: "first_present hs names \<noteq> Some [] \<and>
      (\<forall>v. first_present hs names = Some v \<longrightarrow> trim v = v)" for names
    by (induction names) (auto split: option.splits)
  have up: "to_uppercase v = [] \<longleftrightarrow> v = []" for v by (simp add: to_uppercase_def)
  show "country \<noteq> Some []"
    using assms(2) fp [of country_headers]
    by (auto simp: client_ip_country_def up split: option.splits prod.splits)
  show "ip \<noteq> []" "\<exists>rest. ips = ip # rest" "[] \<notin> set ips"
    "first_present hs ip_headers = None \<Longrightarrow> ip = peer_ip"
    using assms
    by (auto simp: client_ip_country_def Let_def filter_eq_Cons_iff
        split: option.splits list.splits if_splits)
qed

theorem client_ip_present_witness:
  "case client_ip_country [kv ''x-forwarded-for'' '' 1.1.1.1, 2.2.2.2''] [''X-Forwarded-For''] [] ''9.9.9.9''
   of (ip, ips, country) \<Rightarrow> ip \<noteq> [] \<and> (\<exists>rest. ips = ip # rest)"
  using client_ip_present(1,2) [of "''9.9.9.9''"] by (auto split: prod.splits)

text \<open>An automatic HEAD response is the GET response without its body: same status, same
  headers, and for a body that is not streamed a \<^verbatim>\<open>content-length\<close> (the handler's own, or the length of the
  body that is left out); nothing is counted as sent. A response the handler made illegal
  is \<^verbatim>\<open>500\<close> on both.\<close>

theorem auto_head_matches_get:
  "let (g, _) = build_response H res False m; (h, m') = build_response H res True m
   in re_status h = re_status g \<and> m' = m \<and>
      (re_body h = Full [] \<and> prefix (re_headers g) (re_headers h) \<and>
       (\<not> is_streamed res \<longrightarrow>
          (\<exists>v. (''content-length'', v) \<in> set (re_headers h) \<and>
            ((\<forall>w. (''content-length'', w) \<notin> set (re_headers g)) \<longrightarrow> v = show_nat (length (body_or_empty res)))))
       \<or> g = status_text 500 ''Internal Server Error'' \<and> h = g)"
proof -
  let ?b = "b_headers H
            (map (\<lambda>p. (kv_key p, kv_value p)) (case jr_headers res of None \<Rightarrow> [] | Some hs \<Rightarrow> hs))
            (b_status H (default_status res))"
  show ?thesis
  proof (cases ?b)
    case None
    then show ?thesis by (simp add: build_response_def builder_or_500_def head_length_def Let_def)
  next
    case (Some p)
    obtain code hs where p: "p = (code, hs)" by (cases p)
    show ?thesis
      using Some p
      by (auto simp: build_response_def builder_or_500_def head_length_def Let_def list_ex_iff)
  qed
qed

definition sample_http :: http_ops where
  "sample_http =
     \<lparr>ho_name = (\<lambda>k. if header_token k then Some (to_lowercase k) else None),
      ho_value = printable, ho_status = (\<lambda>n. 100 \<le> n \<and> n \<le> 999)\<rparr>"

definition sample_reply :: js_response where
  "sample_reply = \<lparr>jr_status = Some 201, jr_headers = Some [kv ''X-A'' ''1''], jr_body = Some ''hello'', jr_streamed = None\<rparr>"

theorem auto_head_matches_get_witness:
  "let (g, _) = build_response sample_http sample_reply False metrics_new;
       (h, _) = build_response sample_http sample_reply True metrics_new
   in re_status h = re_status g"
  using auto_head_matches_get [of sample_http sample_reply metrics_new]
  by (simp add: Let_def split: prod.splits)

end
