(* ===== verification/Bridge.thy ===== *)
theory Bridge
  imports Wire Contracts
begin

text \<open>
  The dispatch queue between the connection tasks and the JavaScript thread
  (\<^verbatim>\<open>src/bridge.rs\<close>): tickets, the table of pending requests, the batched queue and its doorbell.

  The doorbell (a thread-safe function of napi) is a count of calls that have not run yet. A
  oneshot sender is the name of its channel; \<open>br_done\<close> gives for every channel whether it is
  open, was completed with a response, or lost its sender, which is what the receiver sees.
  The type variable is the type of the body parts.
\<close>

section \<open>Definitions\<close>

datatype oneshot = Open | Sent js_response | SenderDropped

text \<open>A channel only moves up from open: what it ends with is final.\<close>

instantiation oneshot :: order
begin

definition less_eq_oneshot :: "oneshot \<Rightarrow> oneshot \<Rightarrow> bool" where
  "less_eq_oneshot c d \<longleftrightarrow> c = Open \<or> c = d"

definition less_oneshot :: "oneshot \<Rightarrow> oneshot \<Rightarrow> bool" where
  "less_oneshot c d \<longleftrightarrow> c = Open \<and> d \<noteq> Open"

instance
  by standard (auto simp: less_eq_oneshot_def less_oneshot_def)

end

lemma oneshot_le_simps [simp]:
  "Open \<le> c" "Sent res \<le> c \<longleftrightarrow> c = Sent res" "SenderDropped \<le> c \<longleftrightarrow> c = SenderDropped"
  by (auto simp: less_eq_oneshot_def)

record 'b pending =
  pd_body :: "'b option"
  pd_done :: nat

record 'b bridge =
  br_rings :: nat
  br_queue :: "matched_request list"
  br_pending :: "u32 \<Rightarrow> 'b pending option"
  br_next_id :: u32
  br_done :: "nat \<Rightarrow> oneshot"

definition bridge_new :: "'b bridge" where
  "bridge_new = \<lparr>br_rings = 0, br_queue = [], br_pending = (\<lambda>_. None), br_next_id = 0,
     br_done = (\<lambda>_. Open)\<rparr>"

definition next_req_id :: "'b bridge \<Rightarrow> u32 \<times> 'b bridge" where
  "next_req_id b = (br_next_id b, b\<lparr>br_next_id := br_next_id b + 1\<rparr>)"

text \<open>A oneshot whose receiver is gone ignores what is sent; a completed one stays completed.\<close>

definition close_sender :: "oneshot \<Rightarrow> oneshot" where
  "close_sender d = (case d of Open \<Rightarrow> SenderDropped | _ \<Rightarrow> d)"

definition send_done :: "js_response \<Rightarrow> oneshot \<Rightarrow> oneshot" where
  "send_done res d = (case d of Open \<Rightarrow> Sent res | _ \<Rightarrow> d)"

text \<open>\<^verbatim>\<open>pending.insert\<close>: the value a key held before is dropped, with its sender.\<close>

definition register :: "u32 \<Rightarrow> 'b pending \<Rightarrow> 'b bridge \<Rightarrow> 'b bridge" where
  "register rid p b =
     b\<lparr>br_pending := (br_pending b)(rid := Some p),
       br_done := (case br_pending b rid of
                     None \<Rightarrow> br_done b
                   | Some old \<Rightarrow> (br_done b)(pd_done old := close_sender (br_done b (pd_done old))))\<rparr>"

text \<open>The critical section on the queue, and the call of the doorbell.\<close>

definition push :: "matched_request \<Rightarrow> 'b bridge \<Rightarrow> bool \<times> 'b bridge" where
  "push req b = (br_queue b = [], b\<lparr>br_queue := br_queue b @ [req]\<rparr>)"

definition ring :: "'b bridge \<Rightarrow> 'b bridge" where
  "ring b = b\<lparr>br_rings := br_rings b + 1\<rparr>"

definition enqueue :: "matched_request \<Rightarrow> 'b pending \<Rightarrow> 'b bridge \<Rightarrow> 'b bridge" where
  "enqueue req p b =
     (case push req (register (mr_req_id req) p b) of
        (was_empty, b') \<Rightarrow> if was_empty then ring b' else b')"

definition take_batch :: "'b bridge \<Rightarrow> matched_request list \<times> 'b bridge" where
  "take_batch b = (br_queue b, b\<lparr>br_queue := []\<rparr>)"

definition take_body :: "u32 \<Rightarrow> 'b bridge \<Rightarrow> 'b option \<times> 'b bridge" where
  "take_body rid b =
     (case br_pending b rid of
        None \<Rightarrow> (None, b)
      | Some p \<Rightarrow> (pd_body p, b\<lparr>br_pending := (br_pending b)(rid := Some (p\<lparr>pd_body := None\<rparr>))\<rparr>))"

definition respond :: "u32 \<Rightarrow> js_response \<Rightarrow> 'b bridge \<Rightarrow> 'b bridge" where
  "respond rid res b =
     (case br_pending b rid of
        None \<Rightarrow> b
      | Some p \<Rightarrow>
          b\<lparr>br_pending := (br_pending b)(rid := None),
            br_done := (br_done b)(pd_done p := send_done res (br_done b (pd_done p)))\<rparr>)"

section \<open>The doorbell protocol\<close>

text \<open>
  Producers and the JavaScript thread as interleaved steps; each critical section is one step. \<open>dl_ringing\<close> counts the producers
  between their push on an empty queue and their call of the doorbell; \<open>dl_awake\<close> says that a
  doorbell call is being run by JavaScript, which takes batches until one is empty
  (\<open>drain\<close> in \<^verbatim>\<open>js/index.ts\<close>). Ghosts: everything pushed, and everything delivered.
\<close>

record 'b dstate =
  dl_bridge :: "'b bridge"
  dl_ringing :: nat
  dl_awake :: bool
  dl_pushed :: "matched_request list"
  dl_delivered :: "matched_request list"

inductive producer_step :: "'b dstate \<Rightarrow> 'b dstate \<Rightarrow> bool" where
  register_step: "producer_step s (s\<lparr>dl_bridge := register rid p (dl_bridge s)\<rparr>)"
| push_step: "push req (dl_bridge s) = (was_empty, b') \<Longrightarrow>
    producer_step s (s\<lparr>dl_bridge := b',
      dl_ringing := (if was_empty then dl_ringing s + 1 else dl_ringing s),
      dl_pushed := dl_pushed s @ [req]\<rparr>)"
| respond_step: "producer_step s (s\<lparr>dl_bridge := respond rid res (dl_bridge s)\<rparr>)"
| body_step: "producer_step s (s\<lparr>dl_bridge := snd (take_body rid (dl_bridge s))\<rparr>)"
| ticket_step: "producer_step s (s\<lparr>dl_bridge := snd (next_req_id (dl_bridge s))\<rparr>)"

inductive delivery_step :: "'b dstate \<Rightarrow> 'b dstate \<Rightarrow> bool" where
  ring_step: "dl_ringing s > 0 \<Longrightarrow>
    delivery_step s (s\<lparr>dl_bridge := ring (dl_bridge s), dl_ringing := dl_ringing s - 1\<rparr>)"
| wake_step: "br_rings (dl_bridge s) > 0 \<Longrightarrow> \<not> dl_awake s \<Longrightarrow>
    delivery_step s (s\<lparr>dl_bridge := (dl_bridge s)\<lparr>br_rings := br_rings (dl_bridge s) - 1\<rparr>, dl_awake := True\<rparr>)"
| batch_step: "dl_awake s \<Longrightarrow> take_batch (dl_bridge s) = (batch, b') \<Longrightarrow> batch \<noteq> [] \<Longrightarrow>
    delivery_step s (s\<lparr>dl_bridge := b', dl_delivered := dl_delivered s @ batch\<rparr>)"
| sleep_step: "dl_awake s \<Longrightarrow> take_batch (dl_bridge s) = ([], b') \<Longrightarrow>
    delivery_step s (s\<lparr>dl_bridge := b', dl_awake := False\<rparr>)"

definition dstart :: "'b dstate" where
  "dstart = \<lparr>dl_bridge = bridge_new, dl_ringing = 0, dl_awake = False, dl_pushed = [], dl_delivered = []\<rparr>"

definition dstep :: "'b dstate \<Rightarrow> 'b dstate \<Rightarrow> bool" where
  "dstep s s' \<longleftrightarrow> producer_step s s' \<or> delivery_step s s'"

inductive_simps producer_step_iff: "producer_step s s'"
inductive_simps delivery_step_iff: "delivery_step s s'"

section \<open>Lemmas\<close>

lemmas bridge_ops = register_def push_def ring_def take_batch_def

lemma register_frames [simp]:
  "br_queue (register rid p b) = br_queue b" "br_rings (register rid p b) = br_rings b"
  "br_next_id (register rid p b) = br_next_id b"
  by (simp_all add: register_def)

lemma respond_frames [simp]:
  "br_queue (respond rid res b) = br_queue b" "br_rings (respond rid res b) = br_rings b"
  by (simp_all add: respond_def split: option.splits)

lemma take_body_frames [simp]:
  "br_queue (snd (take_body rid b)) = br_queue b" "br_rings (snd (take_body rid b)) = br_rings b"
  "br_done (snd (take_body rid b)) = br_done b"
  by (simp_all add: take_body_def split: option.splits)

lemma next_req_id_frames [simp]:
  "br_next_id (snd (next_req_id b)) = br_next_id b + 1" "br_queue (snd (next_req_id b)) = br_queue b"
  "br_pending (snd (next_req_id b)) = br_pending b" "br_done (snd (next_req_id b)) = br_done b"
  "br_rings (snd (next_req_id b)) = br_rings b"
  by (simp_all add: next_req_id_def)

text \<open>No wake-up is lost, and the queue is what was pushed and not yet delivered.\<close>

definition dinv :: "'b dstate \<Rightarrow> bool" where
  "dinv s \<longleftrightarrow>
     (br_queue (dl_bridge s) \<noteq> [] \<longrightarrow> dl_awake s \<or> br_rings (dl_bridge s) > 0 \<or> dl_ringing s > 0) \<and>
     dl_delivered s @ br_queue (dl_bridge s) = dl_pushed s"

lemma dinv_step: "dstep s s' \<Longrightarrow> dinv s \<Longrightarrow> dinv s'"
  by (auto simp: dstep_def producer_step_iff delivery_step_iff dinv_def push_def ring_def take_batch_def split: if_splits)

lemma dinv_start: "dinv dstart"
  by (simp add: dinv_def dstart_def bridge_new_def)

interpretation doorbell: invariant dstep dinv dstart
  by unfold_locales (auto intro: dinv_start dinv_step)

interpretation deliveries: stable delivery_step dinv
  by unfold_locales (auto intro: dinv_step simp: dstep_def)

text \<open>No step changes what a channel ended with.\<close>

lemma oneshot_ups [simp]: "c \<le> close_sender c" "c \<le> send_done res c"
  by (cases c; simp add: close_sender_def send_done_def)+

lemma fun_upd_up: "f x \<le> y \<Longrightarrow> f \<le> f(x := y)" for f :: "'a \<Rightarrow> 'b :: order"
  by (simp add: le_fun_def)

lemma channels_step: "dstep s s' \<Longrightarrow> br_done (dl_bridge s) \<le> br_done (dl_bridge s')"
  by (auto simp: dstep_def producer_step_iff delivery_step_iff bridge_ops respond_def intro!: fun_upd_up
      split: option.splits)

interpretation channels: stable dstep "\<lambda>s. v \<le> br_done (dl_bridge s)" for v
  by unfold_locales (blast intro: order_trans channels_step)

text \<open>Every step towards delivery brings the system closer to rest.\<close>

definition dmeasure :: "'b dstate \<Rightarrow> nat" where
  "dmeasure s = 3 * dl_ringing s + 2 * br_rings (dl_bridge s) + length (br_queue (dl_bridge s)) +
     (if dl_awake s then 1 else 0)"

lemma delivery_decreases: "delivery_step s s' \<Longrightarrow> dmeasure s' < dmeasure s"
  by (auto simp: delivery_step_iff dmeasure_def bridge_ops)

lemma stuck_drained: "dinv s \<Longrightarrow> \<nexists>s'. delivery_step s s' \<Longrightarrow> br_queue (dl_bridge s) = [] \<and> \<not> dl_awake s"
  by (auto simp: delivery_step_iff dinv_def take_batch_def)

interpretation moves: settling delivery_step dmeasure
  by unfold_locales (rule delivery_decreases)

interpretation pushes: stable delivery_step "\<lambda>s. dl_pushed s = reqs" for reqs
  by unfold_locales (auto simp: delivery_step_iff)

subsection \<open>Pending requests\<close>

text \<open>Every pending request has a channel of its own, still open.\<close>

definition binv :: "'b bridge \<Rightarrow> bool" where
  "binv b \<longleftrightarrow>
     (\<forall>r p. br_pending b r = Some p \<longrightarrow> br_done b (pd_done p) = Open) \<and>
     (\<forall>r p r' p'. br_pending b r = Some p \<longrightarrow> br_pending b r' = Some p' \<longrightarrow>
        pd_done p = pd_done p' \<longrightarrow> r = r')"

lemma binvD:
  "binv b \<Longrightarrow> br_pending b r = Some p \<Longrightarrow> br_done b (pd_done p) = Open"
  "binv b \<Longrightarrow> br_pending b r = Some p \<Longrightarrow> br_pending b r' = Some p' \<Longrightarrow> pd_done p = pd_done p' \<Longrightarrow> r = r'"
  by (auto simp: binv_def)

lemma binv_respond: "binv b \<Longrightarrow> binv (respond rid res b)"
  unfolding binv_def by (auto simp: respond_def split: option.splits if_splits)

lemma binv_take_body: "binv b \<Longrightarrow> binv (snd (take_body rid b))"
  unfolding binv_def by (auto simp: take_body_def split: option.splits if_splits)

text \<open>A channel that no pending request has.\<close>

definition fresh_done :: "nat \<Rightarrow> 'b bridge \<Rightarrow> bool" where
  "fresh_done d b \<longleftrightarrow> br_done b d = Open \<and> (\<forall>r p. br_pending b r = Some p \<longrightarrow> pd_done p \<noteq> d)"

lemma enqueue_fields:
  "br_pending (enqueue req p b) = (br_pending b)(mr_req_id req := Some p)"
  "br_pending b (mr_req_id req) = None \<Longrightarrow> br_done (enqueue req p b) = br_done b"
  "br_queue (enqueue req p b) = br_queue b @ [req]"
  by (simp_all add: enqueue_def push_def ring_def register_def)

lemma binv_enqueue:
  "binv b \<Longrightarrow> br_pending b (mr_req_id req) = None \<Longrightarrow> fresh_done (pd_done p) b \<Longrightarrow> binv (enqueue req p b)"
  unfolding binv_def fresh_done_def enqueue_fields
  by (simp add: enqueue_fields) metis

text \<open>The tickets of successive calls of \<^verbatim>\<open>next_req_id\<close>.\<close>

fun tickets :: "nat \<Rightarrow> 'b bridge \<Rightarrow> u32 list" where
  "tickets 0 b = []"
| "tickets (Suc n) b = (case next_req_id b of (rid, b') \<Rightarrow> rid # tickets n b')"

lemma tickets_eq: "tickets n b = map (\<lambda>i. br_next_id b + of_nat i) [0..<n]"
proof (induction n arbitrary: b)
  case (Suc n)
  show ?case
    unfolding tickets.simps next_req_id_def upt_conv_Cons [OF zero_less_Suc]
    by (simp add: Suc.IH map_Suc_upt [symmetric] o_def add.assoc del: upt_Suc)
qed simp

section \<open>Properties\<close>

text \<open>C5: The doorbell protocol delivers every request exactly once and in order, under every
  interleaving of producers and the JavaScript thread. At any reachable moment what was
  delivered is a prefix of what was pushed; from there the system cannot keep moving for ever
  without a new request, some run comes to rest, and wherever it comes to rest everything
  pushed has been delivered: ringing only on the empty to non-empty transition loses no
  wake-up.\<close>

theorem doorbell_delivers_all:
  assumes "dstep\<^sup>*\<^sup>* dstart s"
  shows "prefix (dl_delivered s) (dl_pushed s) \<and>
    wfp (\<lambda>x y. delivery_step y (x :: 'b dstate)) \<and>
    (\<exists>s'. delivery_step\<^sup>*\<^sup>* s s' \<and> (\<nexists>s''. delivery_step s' s'')) \<and>
    (\<forall>s'. delivery_step\<^sup>*\<^sup>* s s' \<and> (\<nexists>s''. delivery_step s' s'') \<longrightarrow>
       dl_delivered s' = dl_pushed s \<and> br_queue (dl_bridge s') = [])"
proof (intro conjI allI impI)
  have inv: "dinv s" by (rule doorbell.always [OF assms])
  show "prefix (dl_delivered s) (dl_pushed s)"
    using inv by (metis dinv_def prefixI)
  show "wfp (\<lambda>x y. delivery_step y (x :: 'b dstate))"
    by (rule moves.never_forever)
  show "\<exists>s'. delivery_step\<^sup>*\<^sup>* s s' \<and> (\<nexists>s''. delivery_step s' s'')" by (rule moves.comes_to_rest)
  fix s' assume "delivery_step\<^sup>*\<^sup>* s s' \<and> (\<nexists>s''. delivery_step s' s'')"
  then have run: "delivery_step\<^sup>*\<^sup>* s s'" and rest: "\<nexists>s''. delivery_step s' s''" by simp_all
  have inv': "dinv s'" by (rule deliveries.along [OF run inv])
  show empty: "br_queue (dl_bridge s') = []" using stuck_drained [OF inv' rest] by simp
  with inv' show "dl_delivered s' = dl_pushed s" using pushes.along [OF run refl] by (simp add: dinv_def)
qed

text \<open>A request is completed at most once, and only its own: responding to a pending ticket
  completes exactly that request's channel with the response, touches no other channel,
  queue or request, and makes every further response to the ticket a no-op, as is a response
  to a ticket that is not pending.\<close>

theorem respond_exactly_once:
  assumes "binv b"
  shows "binv (respond rid res b) \<and>
    (\<forall>p. br_pending b rid = Some p \<longrightarrow> br_done (respond rid res b) = (br_done b)(pd_done p := Sent res)) \<and>
    respond rid res' (respond rid res b) = respond rid res b \<and>
    (\<forall>rid'. rid' \<noteq> rid \<longrightarrow> br_pending (respond rid res b) rid' = br_pending b rid') \<and>
    (br_pending b rid = None \<longrightarrow> respond rid res b = b)"
  using binvD(1) [OF assms] binv_respond [OF assms, of rid res]
  by (simp add: respond_def send_done_def split: option.splits)

text \<open>The body parts of a request can be taken exactly once: enqueuing under a free ticket
  makes the request pending and queued last, the first \<^verbatim>\<open>take_body\<close> yields its parts, every later
  one yields nothing, and neither affects how the request is completed.\<close>

theorem take_body_once:
  assumes "binv b" and "br_pending b (mr_req_id req) = None" and "fresh_done (pd_done p) b"
  shows "binv (enqueue req p b)"
    and "br_queue (enqueue req p b) = br_queue b @ [req]"
    and "take_body (mr_req_id req) (enqueue req p b) = (parts, b1) \<Longrightarrow>
           parts = pd_body p \<and> binv b1 \<and> fst (take_body (mr_req_id req) b1) = None \<and>
           br_done (respond (mr_req_id req) res b1) =
             br_done (respond (mr_req_id req) res (enqueue req p b))"
proof -
  show inv: "binv (enqueue req p b)" by (rule binv_enqueue [OF assms])
  show "br_queue (enqueue req p b) = br_queue b @ [req]" by (rule enqueue_fields)
  assume t: "take_body (mr_req_id req) (enqueue req p b) = (parts, b1)"
  have "binv b1" using binv_take_body [OF inv, of "mr_req_id req"] t by simp
  with t show "parts = pd_body p \<and> binv b1 \<and> fst (take_body (mr_req_id req) b1) = None \<and>
      br_done (respond (mr_req_id req) res b1) = br_done (respond (mr_req_id req) res (enqueue req p b))"
    by (auto simp: take_body_def enqueue_fields respond_def)
qed

text \<open>Tickets are 32-bit and wrap around, but up to \<open>2 ^ 32\<close> successive tickets are distinct, so
  a ticket is reused only when that many requests were accepted meanwhile.\<close>

theorem tickets_distinct:
  assumes "n \<le> 2 ^ 32"
  shows "distinct (tickets n b) \<and> tickets (Suc (2 ^ 32)) b ! (2 ^ 32) = br_next_id b"
proof -
  have "inj_on (\<lambda>i. br_next_id b + of_nat i :: u32) {0..<n}"
  proof (rule inj_onI)
    fix i j assume i: "i \<in> {0..<n}" and j: "j \<in> {0..<n}"
      and eq: "br_next_id b + (of_nat i :: u32) = br_next_id b + of_nat j"
    have "unat (of_nat k :: u32) = k" if "k \<in> {0..<n}" for k
      using that assms by (simp add: unat_of_nat take_bit_nat_eq_self)
    with i j eq show "i = j" by (metis add_left_cancel)
  qed
  then have "distinct (tickets n b)" by (simp add: tickets_eq distinct_map)
  moreover have "(of_nat (2 ^ 32) :: u32) = 0"
    using word_of_nat_eq_0_iff [of "2 ^ 32", where 'a = 32] by simp
  ultimately show ?thesis
    unfolding tickets_eq by (simp add: nth_append del: of_nat_power of_nat_numeral)
qed

text \<open>A bridge with one pending request.\<close>

definition sample_req :: matched_request where
  "sample_req = \<lparr>mr_req_id = 0, mr_leaf_id = 3, mr_method = ''GET'', mr_path = ''/'',
     mr_query_string = None, mr_params = [], mr_query = [], mr_headers = [], mr_ip = ''1.2.3.4'',
     mr_ips = [], mr_country = None, mr_id = ''r1'', mr_valid_body = None, mr_valid_query = None,
     mr_valid_params = None\<rparr>"

definition sample_bridge :: "string bridge" where
  "sample_bridge = enqueue sample_req \<lparr>pd_body = Some ''parts'', pd_done = 7\<rparr> bridge_new"

lemma binv_new: "binv bridge_new"
  by (simp add: binv_def bridge_new_def)

lemma sample_bridge_inv: "binv sample_bridge" "br_pending sample_bridge 0 = Some \<lparr>pd_body = Some ''parts'', pd_done = 7\<rparr>"
  unfolding sample_bridge_def
  by (rule binv_enqueue [OF binv_new])
     (simp_all add: fresh_done_def enqueue_fields sample_req_def bridge_new_def)

definition sample_res :: js_response where
  "sample_res = \<lparr>jr_status = Some 200, jr_headers = None, jr_body = Some ''hi'', jr_streamed = None\<rparr>"

theorem doorbell_delivers_all_witness:
  "\<exists>s' :: string dstate. dl_delivered s' = [sample_req] \<and> br_queue (dl_bridge s') = []"
proof -
  let ?p = "\<lparr>pd_body = Some ''parts'', pd_done = 7\<rparr> :: string pending"
  let ?r = "dstart\<lparr>dl_bridge := register (mr_req_id sample_req) ?p (dl_bridge dstart)\<rparr> :: string dstate"
  let ?s = "?r\<lparr>dl_bridge := snd (push sample_req (dl_bridge ?r)), dl_ringing := 1, dl_pushed := [sample_req]\<rparr>"
  have "dstep dstart ?r" by (simp add: dstep_def producer_step.register_step)
  moreover have "dstep ?r ?s"
    using producer_step.push_step [of sample_req ?r True]
    by (simp add: dstep_def dstart_def push_def bridge_new_def)
  ultimately have reach: "dstep\<^sup>*\<^sup>* dstart ?s" by (meson r_into_rtranclp rtranclp.rtrancl_into_rtrancl)
  from doorbell_delivers_all [OF reach] show ?thesis by (auto simp: dstart_def)
qed

theorem respond_exactly_once_witness:
  "br_done (respond 0 sample_res sample_bridge) = (br_done sample_bridge)(7 := Sent sample_res)"
  using respond_exactly_once [OF sample_bridge_inv(1), of 0 sample_res sample_res] sample_bridge_inv(2) by simp

theorem take_body_once_witness:
  "fst (take_body 0 sample_bridge) = Some ''parts'' \<and>
   fst (take_body 0 (snd (take_body 0 sample_bridge))) = None"
proof -
  obtain parts b1 where t: "take_body 0 sample_bridge = (parts, b1)" by (cases "take_body 0 sample_bridge")
  from take_body_once(3) [OF binv_new, of sample_req "\<lparr>pd_body = Some ''parts'', pd_done = 7\<rparr>" parts b1]
  show ?thesis
    using t by (simp add: sample_bridge_def sample_req_def fresh_done_def bridge_new_def)
qed

theorem tickets_distinct_witness:
  "distinct (tickets 3 sample_bridge) \<and> tickets (Suc (2 ^ 32)) sample_bridge ! (2 ^ 32) = br_next_id sample_bridge"
  by (rule tickets_distinct) simp

end
