(* ===== verification/Crowd.thy ===== *)
theory Crowd
  imports Bridge
begin

text \<open>
  Many requests at once on one bridge (\<^verbatim>\<open>src/bridge.rs\<close> as \<^verbatim>\<open>dispatch\<close> of \<^verbatim>\<open>src/server.rs\<close> uses it). Requests are
  numbered in the order of their tickets, and request \<open>i\<close> owns the oneshot channel \<open>i\<close>. Each takes a ticket,
  registers, pushes, waits, and is answered or dropped; JavaScript takes batches and bodies and responds to
  any ticket it likes, any number of times. Every critical section is one step, in any interleaving, on top
  of the doorbell protocol of \<open>Bridge\<close>.

  Ghosts: the calls of \<^verbatim>\<open>respond\<close> in their order, and how many there were when a request registered.
\<close>

section \<open>Definitions\<close>

datatype stage = Fresh | Ticketed u32 | Registered u32 | Awaits u32 | Answered "js_response option" | Dropped

record 'b crowd =
  cr_door :: "'b dstate"
  cr_count :: nat
  cr_stage :: "nat \<Rightarrow> stage"
  cr_log :: "(u32 \<times> js_response) list"
  cr_since :: "nat \<Rightarrow> nat"

definition crowd_start :: "'b crowd" where
  "crowd_start =
     \<lparr>cr_door = dstart, cr_count = 0, cr_stage = (\<lambda>_. Fresh), cr_log = [], cr_since = (\<lambda>_. 0)\<rparr>"

abbreviation cr_bridge :: "'b crowd \<Rightarrow> 'b bridge" where
  "cr_bridge s \<equiv> dl_bridge (cr_door s)"

definition set_bridge :: "'b bridge \<Rightarrow> 'b dstate \<Rightarrow> 'b dstate" where
  "set_bridge b d = d\<lparr>dl_bridge := b\<rparr>"

definition pushed :: "matched_request \<Rightarrow> 'b dstate \<Rightarrow> 'b dstate" where
  "pushed req d =
     (case push req (dl_bridge d) of
        (was_empty, b') \<Rightarrow> d\<lparr>dl_bridge := b', dl_ringing := (if was_empty then dl_ringing d + 1 else dl_ringing d),
                             dl_pushed := dl_pushed d @ [req]\<rparr>)"

text \<open>The steps of one request: \<^verbatim>\<open>next_req_id\<close>, the two critical sections of \<^verbatim>\<open>enqueue\<close>, the end of the await
  on the oneshot, and the drop of its future, which can happen only at that await.\<close>

inductive request_step :: "nat \<Rightarrow> 'b crowd \<Rightarrow> 'b crowd \<Rightarrow> bool" where
  ticket: "next_req_id (cr_bridge s) = (rid, b') \<Longrightarrow> i = cr_count s \<Longrightarrow>
    request_step i s (s\<lparr>cr_door := set_bridge b' (cr_door s), cr_count := cr_count s + 1,
                        cr_stage := (cr_stage s)(i := Ticketed rid)\<rparr>)"
| registers: "cr_stage s i = Ticketed rid \<Longrightarrow> pd_done p = i \<Longrightarrow>
    request_step i s (s\<lparr>cr_door := set_bridge (register rid p (cr_bridge s)) (cr_door s),
                        cr_stage := (cr_stage s)(i := Registered rid),
                        cr_since := (cr_since s)(i := length (cr_log s))\<rparr>)"
| pushes: "cr_stage s i = Registered rid \<Longrightarrow> mr_req_id req = rid \<Longrightarrow>
    request_step i s (s\<lparr>cr_door := pushed req (cr_door s), cr_stage := (cr_stage s)(i := Awaits rid)\<rparr>)"
| answered: "cr_stage s i = Awaits rid \<Longrightarrow> br_done (cr_bridge s) i = Sent res \<Longrightarrow>
    request_step i s (s\<lparr>cr_stage := (cr_stage s)(i := Answered (Some res))\<rparr>)"
| deserted: "cr_stage s i = Awaits rid \<Longrightarrow> br_done (cr_bridge s) i = SenderDropped \<Longrightarrow>
    request_step i s (s\<lparr>cr_stage := (cr_stage s)(i := Answered None)\<rparr>)"
| dropped: "cr_stage s i = Awaits rid \<Longrightarrow>
    request_step i s (s\<lparr>cr_stage := (cr_stage s)(i := Dropped)\<rparr>)"

text \<open>The steps of JavaScript and of the doorbell.\<close>

inductive js_step :: "'b crowd \<Rightarrow> 'b crowd \<Rightarrow> bool" where
  delivers: "delivery_step (cr_door s) d \<Longrightarrow> js_step s (s\<lparr>cr_door := d\<rparr>)"
| takes_body: "js_step s (s\<lparr>cr_door := set_bridge (snd (take_body rid (cr_bridge s))) (cr_door s)\<rparr>)"
| responds: "js_step s (s\<lparr>cr_door := set_bridge (respond rid res (cr_bridge s)) (cr_door s),
                        cr_log := cr_log s @ [(rid, res)]\<rparr>)"

definition crowd_step :: "'b crowd \<Rightarrow> 'b crowd \<Rightarrow> bool" where
  "crowd_step s s' \<longleftrightarrow> (\<exists>i. request_step i s s') \<or> js_step s s'"

inductive_simps request_step_iff: "request_step i s s'"
inductive_simps js_step_iff: "js_step s s'"

section \<open>Lemmas\<close>

lemma set_bridge_simps [simp]:
  "dl_bridge (set_bridge b d) = b" "dl_ringing (set_bridge b d) = dl_ringing d" "dl_awake (set_bridge b d) = dl_awake d"
  "dl_pushed (set_bridge b d) = dl_pushed d" "dl_delivered (set_bridge b d) = dl_delivered d"
  by (simp_all add: set_bridge_def)

lemma pushed_bridge [simp]: "dl_bridge (pushed req d) = (dl_bridge d)\<lparr>br_queue := br_queue (dl_bridge d) @ [req]\<rparr>"
  by (simp add: pushed_def push_def)

text \<open>Every step is one of the doorbell protocol or leaves it alone.\<close>

lemma crowd_doorbell: "crowd_step s s' \<Longrightarrow> cr_door s' = cr_door s \<or> dstep (cr_door s) (cr_door s')"
proof -
  note intros = register_step respond_step body_step
  have t: "producer_step d (set_bridge b' d)" if "next_req_id (dl_bridge d) = (rid, b')" for d :: "'b dstate" and rid b'
    using ticket_step [of d] that by (simp add: set_bridge_def)
  have p: "producer_step d (pushed req d)" for d :: "'b dstate" and req
    using push_step [of req d] by (simp add: pushed_def split: prod.splits)
  show "crowd_step s s' \<Longrightarrow> cr_door s' = cr_door s \<or> dstep (cr_door s) (cr_door s')"
    by (auto simp: crowd_step_def request_step_iff js_step_iff dstep_def p intro: t)
       (auto simp: set_bridge_def intro: intros)
qed

interpretation crowd_door: simulation_of_invariant crowd_step crowd_start dstep dstart "\<lambda>s d. cr_door s = d" dinv
proof unfold_locales
  show "\<exists>d'. dstep\<^sup>*\<^sup>* d d' \<and> cr_door s' = d'" if "crowd_step s s'" "cr_door s = d" for s s' :: "'b crowd" and d
    using crowd_doorbell [OF that(1)] that(2) by auto
qed (simp add: crowd_start_def)

text \<open>So the doorbell of the crowd keeps the promise of the doorbell protocol.\<close>

lemma crowd_dinv: "crowd_step\<^sup>*\<^sup>* crowd_start s \<Longrightarrow> dinv (cr_door s)"
  using crowd_door.conc.always by blast

lemma crowd_count: "crowd_step s s' \<Longrightarrow> cr_count s \<le> cr_count s'"
  by (auto simp: crowd_step_def request_step_iff js_step_iff)

text \<open>The first response to the ticket of request \<open>i\<close> after it registered.\<close>

definition answer :: "'b crowd \<Rightarrow> nat \<Rightarrow> js_response option" where
  "answer s i = map_of (drop (cr_since s i) (cr_log s)) (of_nat i)"

definition has_registered :: "stage \<Rightarrow> bool" where
  "has_registered st = (case st of Fresh \<Rightarrow> False | Ticketed _ \<Rightarrow> False | _ \<Rightarrow> True)"

definition holds :: "nat \<Rightarrow> stage \<Rightarrow> bool" where
  "holds i st = (case st of Ticketed r \<Rightarrow> r = of_nat i | Registered r \<Rightarrow> r = of_nat i | Awaits r \<Rightarrow> r = of_nat i | _ \<Rightarrow> True)"

lemma stage_simps [simp]:
  "\<not> has_registered Fresh" "\<not> has_registered (Ticketed r)" "has_registered (Registered r)" "has_registered (Awaits r)"
  "has_registered (Answered x)" "has_registered Dropped"
  "holds i Fresh" "holds i (Ticketed r) \<longleftrightarrow> r = of_nat i" "holds i (Registered r) \<longleftrightarrow> r = of_nat i"
  "holds i (Awaits r) \<longleftrightarrow> r = of_nat i" "holds i (Answered x)" "holds i Dropped"
  by (simp_all add: has_registered_def holds_def)

text \<open>The channel that a response to a ticket would complete.\<close>

definition channel_of :: "'b bridge \<Rightarrow> u32 \<Rightarrow> nat option" where
  "channel_of b rid = map_option pd_done (br_pending b rid)"

lemma channel_of_iff:
  "channel_of b rid = None \<longleftrightarrow> br_pending b rid = None"
  "channel_of b rid = Some i \<longleftrightarrow> (\<exists>p. br_pending b rid = Some p \<and> pd_done p = i)"
  by (auto simp: channel_of_def)

text \<open>The state of one request: nothing before it registers; afterwards its channel shows its answer, and it is
  pending exactly until there is one.\<close>

definition request_ok :: "'b crowd \<Rightarrow> nat \<Rightarrow> bool" where
  "request_ok s i \<longleftrightarrow>
     holds i (cr_stage s i) \<and>
     (if has_registered (cr_stage s i)
      then cr_since s i \<le> length (cr_log s) \<and>
           (case answer s i of
              None \<Rightarrow> br_done (cr_bridge s) i = Open \<and> channel_of (cr_bridge s) (of_nat i) = Some i
            | Some res \<Rightarrow> br_done (cr_bridge s) i = Sent res \<and> channel_of (cr_bridge s) (of_nat i) = None)
      else br_done (cr_bridge s) i = Open \<and> channel_of (cr_bridge s) (of_nat i) = None) \<and>
     (\<forall>x. cr_stage s i = Answered x \<longrightarrow> x = answer s i \<and> x \<noteq> None)"

definition crowd_inv :: "'b crowd \<Rightarrow> bool" where
  "crowd_inv s \<longleftrightarrow>
     br_next_id (cr_bridge s) = of_nat (cr_count s) \<and>
     (\<forall>i. cr_stage s i = Fresh \<longleftrightarrow> cr_count s \<le> i) \<and>
     (\<forall>i < 2 ^ 32. request_ok s i)"

lemma unat_ticket: "i < 2 ^ 32 \<Longrightarrow> unat (of_nat i :: u32) = i"
  by (simp add: unat_of_nat take_bit_nat_eq_self)

lemma ticket_eq: "i < 2 ^ 32 \<Longrightarrow> (rid :: u32) = of_nat i \<longleftrightarrow> i = unat rid"
  using unat_ticket [of i] by auto

lemma crowd_invD:
  assumes "crowd_inv s"
  shows "br_next_id (cr_bridge s) = of_nat (cr_count s)" and "cr_stage s i = Fresh \<longleftrightarrow> cr_count s \<le> i"
    and "i < 2 ^ 32 \<Longrightarrow> request_ok s i"
  using assms by (simp_all add: crowd_inv_def)

text \<open>What a pending entry says: its ticket and its channel belong to the same request, which has no answer.\<close>

lemma pending_owner:
  assumes "crowd_inv s" and "br_pending (cr_bridge s) rid = Some p"
  shows "pd_done p = unat rid" and "has_registered (cr_stage s (unat rid))" and "answer s (unat rid) = None"
proof -
  have "unat rid < 2 ^ 32" using unsigned_less [of rid] by simp
  from crowd_invD(3) [OF assms(1) this] assms(2)
  show "pd_done p = unat rid" "has_registered (cr_stage s (unat rid))" "answer s (unat rid) = None"
    by (auto simp: request_ok_def channel_of_def split: if_splits option.splits)
qed

lemma answer_log:
  "cr_since s i \<le> length (cr_log s) \<Longrightarrow>
   answer (s\<lparr>cr_door := d, cr_log := cr_log s @ [(rid, res)]\<rparr>) i =
     (case answer s i of None \<Rightarrow> if rid = of_nat i then Some res else None | Some r \<Rightarrow> Some r)"
  by (auto simp: answer_def map_add_def split: option.splits)

lemma answer_frames [simp]:
  "answer (s\<lparr>cr_door := d\<rparr>) = answer s"
  "answer (s\<lparr>cr_stage := st\<rparr>) = answer s"
  "answer (s\<lparr>cr_door := d, cr_stage := st\<rparr>) = answer s"
  "answer (s\<lparr>cr_door := d, cr_count := n, cr_stage := st\<rparr>) = answer s"
  by (simp_all add: answer_def fun_eq_iff)

text \<open>A step that keeps what a request can see of the bridge keeps its state.\<close>

definition same_view :: "'b bridge \<Rightarrow> 'b bridge \<Rightarrow> nat \<Rightarrow> bool" where
  "same_view b b' i \<longleftrightarrow> br_done b' i = br_done b i \<and>
     channel_of b' (of_nat i) = channel_of b (of_nat i)"

lemma request_ok_view:
  assumes "request_ok s i" and "same_view (cr_bridge s) (cr_bridge s') i" and "cr_stage s' i = cr_stage s i"
    and "cr_since s' i = cr_since s i" and "cr_log s' = cr_log s"
  shows "request_ok s' i"
proof -
  have "answer s' i = answer s i" using assms(4,5) by (simp add: answer_def)
  then show ?thesis using assms by (auto simp: request_ok_def same_view_def split: option.splits)
qed

lemma same_view_frames [simp]:
  "same_view b b i"
  "br_pending b' = br_pending b \<Longrightarrow> br_done b' = br_done b \<Longrightarrow> same_view b b' i"
  "same_view b (snd (take_body rid b)) i"
  by (auto simp: same_view_def channel_of_def take_body_def split: option.splits)

lemma delivery_view: "delivery_step d d' \<Longrightarrow> same_view (dl_bridge d) (dl_bridge d') i \<and> br_next_id (dl_bridge d') = br_next_id (dl_bridge d)"
  by (auto simp: delivery_step_iff ring_def take_batch_def)

subsection \<open>The invariant\<close>

lemma inv_start: "crowd_inv crowd_start"
  by (simp add: crowd_inv_def crowd_start_def request_ok_def channel_of_def dstart_def bridge_new_def)

text \<open>A step of request \<open>i\<close> that no other request sees anything of.\<close>

definition local_step :: "nat \<Rightarrow> 'b crowd \<Rightarrow> 'b crowd \<Rightarrow> bool" where
  "local_step i s s' \<longleftrightarrow>
     (\<forall>j. j \<noteq> i \<longrightarrow> j < 2 ^ 32 \<longrightarrow> same_view (cr_bridge s) (cr_bridge s') j \<and>
        cr_stage s' j = cr_stage s j \<and> cr_since s' j = cr_since s j) \<and> cr_log s' = cr_log s"

lemma local_ok:
  assumes "crowd_inv s" and "local_step i s s'" and "request_ok s' i" and "j < 2 ^ 32"
  shows "request_ok s' j"
proof (cases "j = i")
  case False
  show ?thesis
    by (rule request_ok_view [OF crowd_invD(3) [OF assms(1,4)]]) (use assms(2,4) False in \<open>simp_all add: local_step_def\<close>)
qed (use assms(3) in simp)

lemma inv_ticket:
  assumes inv: "crowd_inv s" and "cr_count s < 2 ^ 32"
  shows "crowd_inv (s\<lparr>cr_door := set_bridge ((cr_bridge s)\<lparr>br_next_id := br_next_id (cr_bridge s) + 1\<rparr>) (cr_door s),
      cr_count := cr_count s + 1, cr_stage := (cr_stage s)(cr_count s := Ticketed (br_next_id (cr_bridge s)))\<rparr>)"
    (is "crowd_inv ?s")
proof -
  have "cr_stage s (cr_count s) = Fresh" by (simp add: crowd_invD(2) [OF inv])
  then have "request_ok ?s (cr_count s)"
    using crowd_invD(3) [OF inv assms(2)] by (simp add: request_ok_def channel_of_def crowd_invD(1) [OF inv])
  moreover have "local_step (cr_count s) s ?s" by (simp add: local_step_def)
  ultimately have "request_ok ?s j" if "j < 2 ^ 32" for j using local_ok [OF inv _ _ that] by blast
  moreover have "(cr_stage ?s j = Fresh) = (cr_count ?s \<le> j)" for j using crowd_invD(2) [OF inv, of j] by auto
  ultimately show ?thesis unfolding crowd_inv_def using crowd_invD(1) [OF inv] by simp
qed

text \<open>A step of a request that has its ticket.\<close>

lemma inv_own:
  assumes inv: "crowd_inv s" and "cr_count s \<le> 2 ^ 32" and st: "cr_stage s i \<noteq> Fresh" "cr_stage s' i \<noteq> Fresh"
    and loc: "local_step i s s'" and others: "\<And>j. j \<noteq> i \<Longrightarrow> cr_stage s' j = cr_stage s j"
    and "cr_count s' = cr_count s" and "br_next_id (cr_bridge s') = br_next_id (cr_bridge s)"
    and ok: "i < 2 ^ 32 \<Longrightarrow> request_ok s i \<Longrightarrow> request_ok s' i"
  shows "crowd_inv s'"
proof -
  have "i < 2 ^ 32" using crowd_invD(2) [OF inv, of i] st(1) assms(2) by simp
  from ok [OF this crowd_invD(3) [OF inv this]] have "request_ok s' j" if "j < 2 ^ 32" for j
    using local_ok [OF inv loc _ that] by blast
  moreover have "(cr_stage s' j = Fresh) = (cr_count s' \<le> j)" for j
    using crowd_invD(2) [OF inv, of j] st others [of j] assms(7) by (cases "j = i") auto
  ultimately show ?thesis unfolding crowd_inv_def using crowd_invD(1) [OF inv] assms(7,8) by simp
qed

lemma register_ok:
  assumes "request_ok s i" and "i < 2 ^ 32" and "cr_stage s i = Ticketed rid" and "pd_done p = i"
  defines "s' \<equiv> s\<lparr>cr_door := set_bridge (register rid p (cr_bridge s)) (cr_door s),
      cr_stage := (cr_stage s)(i := Registered rid), cr_since := (cr_since s)(i := length (cr_log s))\<rparr>"
  shows "request_ok s' i" and "local_step i s s'"
proof -
  have rid: "rid = of_nat i" and none: "br_pending (cr_bridge s) rid = None" and op: "br_done (cr_bridge s) i = Open"
    using assms(1,3) by (simp_all add: request_ok_def channel_of_iff)
  show "request_ok s' i"
    using none op assms(4) by (simp add: s'_def rid request_ok_def channel_of_def answer_def register_def)
  have "(of_nat j :: u32) \<noteq> of_nat i" if "j \<noteq> i" "j < 2 ^ 32" for j
    using that assms(2) unat_ticket by metis
  then show "local_step i s s'"
    using none by (simp add: s'_def local_step_def same_view_def channel_of_def register_def rid)
qed

lemma inv_request:
  assumes inv: "crowd_inv s" and step: "request_step i s s'" and n: "cr_count s' \<le> 2 ^ 32"
  shows "crowd_inv s'"
  using step
proof (cases rule: request_step.cases)
  case (ticket rid b')
  then show ?thesis using inv_ticket [OF inv] n by (auto simp: next_req_id_def)
next
  case (registers rid p)
  have i: "i < 2 ^ 32" using crowd_invD(2) [OF inv, of i] registers n by (cases "cr_count s \<le> i") simp_all
  note ok = register_ok [OF crowd_invD(3) [OF inv i] i registers(2,3)]
  show ?thesis
    by (rule inv_own [OF inv, of i]) (use n registers ok in simp_all)
next
  case (pushes rid req)
  show ?thesis
    by (rule inv_own [OF inv, of i])
       (use n pushes in \<open>simp_all add: local_step_def request_ok_def channel_of_def split: option.splits\<close>)
next
  case (answered rid res)
  show ?thesis
    by (rule inv_own [OF inv, of i])
       (use n answered in \<open>simp_all add: local_step_def request_ok_def channel_of_def split: option.splits\<close>)
next
  case (deserted rid)
  have "i < 2 ^ 32" using crowd_invD(2) [OF inv, of i] deserted n by (cases "cr_count s \<le> i") simp_all
  with crowd_invD(3) [OF inv this] deserted show ?thesis by (simp add: request_ok_def split: option.splits)
next
  case (dropped rid)
  show ?thesis
    by (rule inv_own [OF inv, of i])
       (use n dropped in \<open>simp_all add: local_step_def request_ok_def channel_of_def split: option.splits\<close>)
qed

lemma next_id_frames [simp]:
  "br_next_id (respond rid res b) = br_next_id b" "br_next_id (snd (take_body rid b)) = br_next_id b"
  by (simp_all add: respond_def take_body_def split: option.splits)

lemma request_ok_respond:
  assumes inv: "crowd_inv s" and i: "i < 2 ^ 32"
  shows "request_ok (s\<lparr>cr_door := set_bridge (respond rid res (cr_bridge s)) (cr_door s), cr_log := cr_log s @ [(rid, res)]\<rparr>) i"
    (is "request_ok ?s i")
proof (cases "br_pending (cr_bridge s) rid")
  case None
  have ok: "request_ok s i" by (rule crowd_invD(3) [OF inv i])
  then show ?thesis using None ok
    by (auto simp: request_ok_def channel_of_def answer_log respond_def split: option.splits)
next
  case (Some p)
  note own = pending_owner [OF inv Some]
  have ok: "request_ok s i" by (rule crowd_invD(3) [OF inv i])
  then show ?thesis using Some own ticket_eq [OF i, of rid]
    by (cases "i = unat rid") (auto simp: request_ok_def channel_of_def answer_log respond_def send_done_def split: option.splits)
qed

lemma inv_js:
  assumes inv: "crowd_inv s" and step: "js_step s s'"
  shows "crowd_inv s'"
  using step
proof (cases rule: js_step.cases)
  case (delivers d)
  have "request_ok s' i" if "i < 2 ^ 32" for i
    by (rule request_ok_view [OF crowd_invD(3) [OF inv that]]) (simp_all add: delivers delivery_view)
  then show ?thesis using delivers delivery_view [OF delivers(2)] by (simp add: crowd_inv_def crowd_invD(1,2) [OF inv])
next
  case (takes_body rid)
  have "request_ok s' i" if "i < 2 ^ 32" for i
    by (rule request_ok_view [OF crowd_invD(3) [OF inv that]]) (simp_all add: takes_body)
  then show ?thesis using takes_body by (simp add: crowd_inv_def crowd_invD(1,2) [OF inv])
next
  case (responds rid res)
  then show ?thesis using request_ok_respond [OF inv]
    by (simp add: crowd_inv_def crowd_invD(1,2) [OF inv])
qed

interpretation crowd: invariant crowd_step "\<lambda>s. cr_count s \<le> 2 ^ 32 \<longrightarrow> crowd_inv s" crowd_start
proof unfold_locales
  fix s s' :: "'b crowd"
  assume "crowd_step s s'" and "cr_count s \<le> 2 ^ 32 \<longrightarrow> crowd_inv s"
  then show "cr_count s' \<le> 2 ^ 32 \<longrightarrow> crowd_inv s'"
    using crowd_count [of s s'] by (auto simp: crowd_step_def intro: inv_request inv_js)
qed (simp add: inv_start)

lemmas inv_reach = crowd.always [rule_format]

subsection \<open>One request among the others\<close>

text \<open>A registered request stays registered, and remembers when it did.\<close>

lemma registered_stays:
  "crowd_step s s' \<Longrightarrow> has_registered (cr_stage s i) \<Longrightarrow>
   has_registered (cr_stage s' i) \<and> cr_since s' i = cr_since s i \<or> cr_count s \<le> i"
  by (auto simp: crowd_step_def request_step_iff js_step_iff)

interpretation registered: stable crowd_step
  "\<lambda>s. has_registered (cr_stage s i) \<and> cr_since s i = k \<and> i < cr_count s" for i k
proof unfold_locales
  fix s s' :: "'b crowd"
  assume "crowd_step s s'" and "has_registered (cr_stage s i) \<and> cr_since s i = k \<and> i < cr_count s"
  then show "has_registered (cr_stage s' i) \<and> cr_since s' i = k \<and> i < cr_count s'"
    using registered_stays [of s s' i] crowd_count [of s s'] by auto
qed

lemma registered_run:
  "crowd_step\<^sup>*\<^sup>* s s' \<Longrightarrow> has_registered (cr_stage s i) \<Longrightarrow> i < cr_count s \<Longrightarrow>
   has_registered (cr_stage s' i) \<and> cr_since s' i = cr_since s i \<and> i < cr_count s'"
  by (rule registered.along) simp_all

text \<open>The steps that \<^const>\<open>enqueue\<close> makes for one request when nobody interferes.\<close>

lemma crowd_enqueue:
  assumes "mr_req_id req = br_next_id (cr_bridge s)" and "pd_done p = cr_count s"
  shows "\<exists>s1. crowd_step\<^sup>*\<^sup>* s s1 \<and> cr_bridge s1 = enqueue req p (snd (next_req_id (cr_bridge s))) \<and>
     cr_stage s1 (cr_count s) = Awaits (mr_req_id req) \<and> cr_since s1 (cr_count s) = length (cr_log s) \<and>
     cr_log s1 = cr_log s \<and> cr_count s1 = cr_count s + 1 \<and>
     (\<forall>j. j \<noteq> cr_count s \<longrightarrow> cr_stage s1 j = cr_stage s j \<and> cr_since s1 j = cr_since s j)"
proof -
  let ?i = "cr_count s" and ?rid = "mr_req_id req"
  let ?a = "s\<lparr>cr_door := set_bridge (snd (next_req_id (cr_bridge s))) (cr_door s), cr_count := ?i + 1,
      cr_stage := (cr_stage s)(?i := Ticketed ?rid)\<rparr>"
  let ?b = "?a\<lparr>cr_door := set_bridge (register ?rid p (cr_bridge ?a)) (cr_door ?a),
      cr_stage := (cr_stage ?a)(?i := Registered ?rid), cr_since := (cr_since ?a)(?i := length (cr_log ?a))\<rparr>"
  let ?c = "?b\<lparr>cr_door := pushed req (cr_door ?b), cr_stage := (cr_stage ?b)(?i := Awaits ?rid)\<rparr>"
  let ?d = "?c\<lparr>cr_door := (cr_door ?c)\<lparr>dl_bridge := ring (cr_bridge ?c), dl_ringing := dl_ringing (cr_door ?c) - 1\<rparr>\<rparr>"
  have "request_step ?i s ?a" by (rule ticket) (simp_all add: next_req_id_def assms(1))
  moreover have "request_step ?i ?a ?b" by (rule registers) (simp_all add: assms(2))
  moreover have "request_step ?i ?b ?c" by (rule pushes) simp_all
  ultimately have abc: "crowd_step\<^sup>*\<^sup>* s ?c"
    by (meson crowd.chain crowd_step_def rtranclp.rtrancl_refl)
  show ?thesis
  proof (cases "br_queue (cr_bridge s) = []")
    case True
    then have "delivery_step (cr_door ?c) (cr_door ?d)"
      using ring_step [of "cr_door ?c"] by (simp add: pushed_def push_def next_req_id_def)
    then have "crowd_step ?c ?d" using delivers [of ?c "cr_door ?d"] by (simp add: crowd_step_def)
    then have "crowd_step\<^sup>*\<^sup>* s ?d" using abc by (rule rtranclp.rtrancl_into_rtrancl [rotated])
    then show ?thesis using True
      by (intro exI [of _ ?d]) (simp add: enqueue_def push_def)
  next
    case False
    then show ?thesis using abc by (intro exI [of _ ?c]) (simp add: enqueue_def push_def)
  qed
qed

section \<open>Properties\<close>

text \<open>C6: No request ever gets the answer of another. In every interleaving of requests, JavaScript and the
  doorbell in which at most \<open>2 ^ 32\<close> tickets were taken: a request that was answered got the first response given
  to its own ticket after it registered, and none was deserted by its sender; two requests that wait have
  different tickets; a waiting request for which there is a response can take it, and one for which there is none still
  has its channel open and its ticket pending, so the next response to the ticket reaches it; what
  JavaScript was given is a prefix of what was pushed; and what a channel ended with stays in it, whatever comes after.\<close>

theorem crowd_isolation:
  assumes "crowd_step\<^sup>*\<^sup>* crowd_start s" and "cr_count s \<le> 2 ^ 32"
  shows "(\<forall>i x. cr_stage s i = Answered x \<longrightarrow> x = answer s i \<and> x \<noteq> None) \<and>
    (\<forall>i j rid. cr_stage s i = Awaits rid \<and> cr_stage s j = Awaits rid \<longrightarrow> i = j) \<and>
    (\<forall>i rid. cr_stage s i = Awaits rid \<longrightarrow> rid = of_nat i \<and>
       (case answer s i of
          Some res \<Rightarrow> request_step i s (s\<lparr>cr_stage := (cr_stage s)(i := Answered (Some res))\<rparr>)
        | None \<Rightarrow> \<forall>res. br_done (respond rid res (cr_bridge s)) i = Sent res)) \<and>
    prefix (dl_delivered (cr_door s)) (dl_pushed (cr_door s)) \<and>
    (\<forall>s'. crowd_step\<^sup>*\<^sup>* s s' \<longrightarrow> br_done (cr_bridge s) \<le> br_done (cr_bridge s'))"
proof (intro conjI allI impI)
  note inv = inv_reach [OF assms]
  have ok: "request_ok s i" "i < 2 ^ 32" if "cr_stage s i \<noteq> Fresh" for i
    using crowd_invD(2,3) [OF inv, of i] that assms(2) by simp_all
  show "x = answer s i" "x \<noteq> None" if "cr_stage s i = Answered x" for i x
    using ok(1) [of i] that by (fastforce simp: request_ok_def)+
  show rid: "rid = of_nat i" if "cr_stage s i = Awaits rid" for i rid
    using ok(1) [of i] that by (simp add: request_ok_def)
  show "i = j" if "cr_stage s i = Awaits rid \<and> cr_stage s j = Awaits rid" for i j rid
  proof -
    have "unat rid = k" if "cr_stage s k = Awaits rid" for k
      using unat_ticket [OF ok(2) [of k]] rid [OF that] that by simp
    with that show ?thesis by blast
  qed
  show "case answer s i of
          Some res \<Rightarrow> request_step i s (s\<lparr>cr_stage := (cr_stage s)(i := Answered (Some res))\<rparr>)
        | None \<Rightarrow> \<forall>res. br_done (respond rid res (cr_bridge s)) i = Sent res" if "cr_stage s i = Awaits rid" for i rid
  proof (cases "answer s i")
    case None
    then show ?thesis using ok(1) [of i] that rid [OF that]
      by (auto simp: request_ok_def channel_of_iff respond_def send_done_def)
  next
    case (Some res)
    then show ?thesis using ok(1) [of i] that by (simp add: request_ok_def request_step.answered)
  qed
  show "prefix (dl_delivered (cr_door s)) (dl_pushed (cr_door s))"
    using crowd_dinv [OF assms(1)] by (metis dinv_def prefixI)
  show "br_done (cr_bridge s) \<le> br_done (cr_bridge s')" if "crowd_step\<^sup>*\<^sup>* s s'" for s'
    using crowd_door.follows_run [OF that refl] channels.along by blast
qed

text \<open>Two requests, answered in the opposite order.\<close>

theorem crowd_isolation_witness:
  "\<exists>s :: unit crowd. cr_log s = [(1, sample_res), (0, sample_res\<lparr>jr_status := Some 404\<rparr>)] \<and>
     request_step 0 s (s\<lparr>cr_stage := (cr_stage s)(0 := Answered (Some (sample_res\<lparr>jr_status := Some 404\<rparr>)))\<rparr>) \<and>
     request_step 1 s (s\<lparr>cr_stage := (cr_stage s)(1 := Answered (Some sample_res))\<rparr>)"
proof -
  let ?p = "\<lambda>i. \<lparr>pd_body = Some (), pd_done = i\<rparr>" and ?r0 = "sample_res\<lparr>jr_status := Some 404\<rparr>"
  let ?say = "\<lambda>(rid, res) s. s\<lparr>cr_door := set_bridge (respond rid res (cr_bridge s)) (cr_door s), cr_log := cr_log s @ [(rid, res)]\<rparr>"
  have n0: "br_next_id (cr_bridge (crowd_start :: unit crowd)) = 0" "cr_count (crowd_start :: unit crowd) = 0"
    "cr_log (crowd_start :: unit crowd) = []"
    by (simp_all add: crowd_start_def dstart_def bridge_new_def)
  obtain s1 :: "unit crowd" where s1: "crowd_step\<^sup>*\<^sup>* crowd_start s1" "cr_stage s1 0 = Awaits 0" "cr_since s1 0 = 0"
    "cr_log s1 = []" "cr_count s1 = 1"
    using crowd_enqueue [of sample_req crowd_start "?p 0"] n0 by (auto simp: sample_req_def)
  have n1: "br_next_id (cr_bridge s1) = 1" using crowd_invD(1) [OF inv_reach [OF s1(1)]] s1(5) by simp
  obtain s2 where s2: "crowd_step\<^sup>*\<^sup>* s1 s2" "cr_stage s2 0 = Awaits 0" "cr_stage s2 1 = Awaits 1" "cr_since s2 0 = 0"
    "cr_since s2 1 = 0" "cr_log s2 = []" "cr_count s2 = 2"
    using crowd_enqueue [of "sample_req\<lparr>mr_req_id := 1\<rparr>" s1 "?p 1"] n1 s1 by auto
  let ?s = "?say (0, ?r0) (?say (1, sample_res) s2)"
  have say: "crowd_step s (?say (rid, res) s)" for s :: "unit crowd" and rid res
    using responds [of s rid res] by (simp add: crowd_step_def)
  have reach: "crowd_step\<^sup>*\<^sup>* crowd_start ?s"
    using rtranclp_trans [OF s1(1) s2(1)] say [of s2 1 sample_res] say [of "?say (1, sample_res) s2" 0 ?r0]
    by (meson rtranclp.rtrancl_into_rtrancl)
  have "answer ?s 0 = Some ?r0" "answer ?s 1 = Some sample_res" using s2(4-6) by (simp_all add: answer_def)
  with crowd_isolation [OF reach] s2 show ?thesis by (intro exI [of _ ?s]) fastforce
qed

end
