(* ===== verification/Idle.thy ===== *)
theory Idle
  imports Contracts
begin

text \<open>
  The idle timeout of a connection (\<^verbatim>\<open>src/idle.rs\<close>): the activity marker, the guard of a request
  in flight, the watchdog loop and the socket wrapper that touches the marker.

  Instants are nanoseconds since \<^verbatim>\<open>base\<close>; the marker keeps milliseconds as a \<^verbatim>\<open>u64\<close>. The watchdog
  is a loop over a shared state that others change: its argument \<open>obs\<close> gives the state it loads
  at an instant, and \<open>wake t d\<close> the instant at which \<^verbatim>\<open>tokio::time::sleep(d)\<close> started at \<open>t\<close>
  completes.
\<close>

section \<open>Definitions\<close>

definition MS :: nat where
  "MS = 1000000"

record activity =
  ac_last_ms :: u64
  ac_in_flight :: u64

definition activity_new :: activity where
  "activity_new = \<lparr>ac_last_ms = 0, ac_in_flight = 0\<rparr>"

definition touch :: "nat \<Rightarrow> activity \<Rightarrow> activity" where
  "touch now a = a\<lparr>ac_last_ms := of_nat (now div MS)\<rparr>"

definition idle_for :: "nat \<Rightarrow> activity \<Rightarrow> nat" where
  "idle_for now a = (let now_ms = of_nat (now div MS) :: u64 in (unat now_ms - unat (ac_last_ms a)) * MS)"

definition request_guard :: "activity \<Rightarrow> activity" where
  "request_guard a = a\<lparr>ac_in_flight := ac_in_flight a + 1\<rparr>"

definition guard_drop :: "activity \<Rightarrow> activity" where
  "guard_drop a = a\<lparr>ac_in_flight := ac_in_flight a - 1\<rparr>"

text \<open>\<^verbatim>\<open>clamp(50ms, 5s)\<close> of a tenth of the window.\<close>

definition poll_step :: "nat \<Rightarrow> nat" where
  "poll_step idle = max (50 * MS) (min (5000 * MS) (idle div 10))"

fun watch_idle :: "(nat \<Rightarrow> activity) \<Rightarrow> (nat \<Rightarrow> nat \<Rightarrow> nat) \<Rightarrow> nat \<Rightarrow> nat \<Rightarrow> nat \<Rightarrow> nat option" where
  "watch_idle obs wake idle 0 t = None"
| "watch_idle obs wake idle (Suc fuel) t =
     (if ac_in_flight (obs t) > 0 then watch_idle obs wake idle fuel (wake t (poll_step idle))
      else let quiet = idle_for t (obs t)
           in if quiet \<ge> idle then Some t
              else watch_idle obs wake idle fuel (wake t (idle - quiet)))"

lemma watch_idle_numeral [simp]:
  "watch_idle obs wake idle (numeral n) t =
     (if ac_in_flight (obs t) > 0
      then watch_idle obs wake idle (pred_numeral n) (wake t (poll_step idle))
      else let quiet = idle_for t (obs t)
           in if quiet \<ge> idle then Some t
              else watch_idle obs wake idle (pred_numeral n) (wake t (idle - quiet)))"
  by (simp only: numeral_eq_Suc watch_idle.simps)

subsection \<open>The socket wrapper\<close>

datatype 'e io_poll = Pending | ReadyOk nat | ReadyErr 'e

record 's activity_io =
  ai_inner :: 's
  ai_activity :: activity

definition activity_io_new :: "'s \<Rightarrow> activity \<Rightarrow> 's activity_io" where
  "activity_io_new s a = \<lparr>ai_inner = s, ai_activity = a\<rparr>"

fun made_progress :: "'e io_poll \<Rightarrow> bool" where
  "made_progress (ReadyOk n) = (n > 0)"
| "made_progress _ = False"

text \<open>\<^verbatim>\<open>poll_read\<close>, \<^verbatim>\<open>poll_write\<close> and \<^verbatim>\<open>poll_write_vectored\<close> pass the inner result on and touch the
  marker when bytes moved; \<open>io\<close> is the operation of the wrapped socket.\<close>

definition poll_io :: "('s \<Rightarrow> 'e io_poll \<times> 's) \<Rightarrow> nat \<Rightarrow> 's activity_io \<Rightarrow> 'e io_poll \<times> 's activity_io" where
  "poll_io io now me =
     (case io (ai_inner me) of (r, s') \<Rightarrow>
        (r, \<lparr>ai_inner = s',
             ai_activity = (if made_progress r then touch now (ai_activity me) else ai_activity me)\<rparr>))"

section \<open>Histories\<close>

text \<open>What happens on a connection: I/O operations that ended with a result, and request
  guards taken and dropped. The state at an instant is what the events up to it left.\<close>

datatype 'e activity_event = Io "'e io_poll" | Begin | End

fun activity_step :: "activity \<Rightarrow> nat \<times> 'e activity_event \<Rightarrow> activity" where
  "activity_step a (t, Io r) = (if made_progress r then touch t a else a)"
| "activity_step a (t, Begin) = request_guard a"
| "activity_step a (t, End) = guard_drop a"

definition activity_at :: "(nat \<times> 'e activity_event) list \<Rightarrow> nat \<Rightarrow> activity" where
  "activity_at evs t = foldl activity_step activity_new (filter (\<lambda>(u, _). u \<le> t) evs)"

definition begun :: "(nat \<times> 'e activity_event) list \<Rightarrow> nat \<Rightarrow> nat" where
  "begun evs t = length (filter (\<lambda>(u, e). u \<le> t \<and> e = Begin) evs)"

definition ended :: "(nat \<times> 'e activity_event) list \<Rightarrow> nat \<Rightarrow> nat" where
  "ended evs t = length (filter (\<lambda>(u, e). u \<le> t \<and> e = End) evs)"

section \<open>Lemmas\<close>

interpretation guards: gauge request_guard "\<lambda>_ :: unit. guard_drop" ac_in_flight
  by unfold_locales (simp_all add: request_guard_def guard_drop_def)

fun guard_ops :: "(nat \<times> 'e activity_event) list \<Rightarrow> unit gauge_op list" where
  "guard_ops [] = []"
| "guard_ops ((_, Io _) # es) = guard_ops es"
| "guard_ops ((_, Begin) # es) = Up # guard_ops es"
| "guard_ops ((_, End) # es) = Down () # guard_ops es"

lemma touch_in_flight [simp]: "ac_in_flight (touch t a) = ac_in_flight a"
  by (simp add: touch_def)

lemma guard_last_ms [simp]:
  "ac_last_ms (request_guard a) = ac_last_ms a" "ac_last_ms (guard_drop a) = ac_last_ms a"
  by (simp_all add: request_guard_def guard_drop_def)

lemma in_flight_cong:
  "ac_in_flight a = ac_in_flight b \<Longrightarrow>
   ac_in_flight (foldl activity_step a es) = ac_in_flight (foldl guards.gauge_step b (guard_ops es))"
proof (induction es arbitrary: a b rule: guard_ops.induct)
  case (2 t r es)
  show ?case using "2.IH" [of a b] "2.IH" [of "touch t a" b] "2.prems" by simp
qed (simp_all add: request_guard_def guard_drop_def)

lemma guard_ops_counts:
  "length (filter (\<lambda>e. e = Up) (guard_ops es)) = length (filter (\<lambda>(u, e). e = Begin) es)"
  "length (filter (\<lambda>e. e \<noteq> Up) (guard_ops es)) = length (filter (\<lambda>(u, e). e = End) es)"
  by (induction es rule: guard_ops.induct) simp_all

lemma in_flight_at: "ac_in_flight (activity_at evs t) = of_nat (begun evs t) - of_nat (ended evs t)"
  unfolding activity_at_def in_flight_cong [OF refl] guards.level_history guard_ops_counts
  by (simp add: begun_def ended_def activity_new_def split_def)

text \<open>The marker never falls behind progress that has happened, in whole milliseconds.\<close>

lemma last_ms_foldl:
  assumes "sorted (map fst es)" and "\<And>u e. (u, e) \<in> set es \<Longrightarrow> u div MS < 2 ^ 64"
    and "(u, Io r) \<in> set es" and "made_progress r"
  shows "u div MS \<le> unat (ac_last_ms (foldl activity_step a es))"
  using assms
proof (induction es rule: rev_induct)
  case (snoc x xs)
  obtain t e where x: "x = (t, e)" by (cases x)
  have small: "unat (of_nat (t div MS) :: u64) = t div MS"
    using snoc.prems(2) [of t e] x by (simp add: unat_of_nat take_bit_nat_eq_self)
  have le: "(u, Io r) \<in> set xs \<Longrightarrow> u \<le> t"
    using snoc.prems(1) x by (auto simp: sorted_append)
  have IH: "(u, Io r) \<in> set xs \<Longrightarrow> u div MS \<le> unat (ac_last_ms (foldl activity_step a xs))"
    using snoc by (auto simp: sorted_append)
  show ?case
  proof (cases e)
    case (Io r')
    then show ?thesis
      using x small le IH snoc.prems(3,4) by (auto simp: touch_def intro: div_le_mono)
  qed (use x IH snoc.prems(3) in auto)
qed simp

lemma watch_idle_returns:
  "watch_idle obs wake idle fuel t = Some t' \<Longrightarrow>
     ac_in_flight (obs t') = 0 \<and> idle \<le> idle_for t' (obs t')"
  by (induction obs wake idle fuel t rule: watch_idle.induct)
     (auto simp: Let_def word_gt_0 split: if_splits)

lemma watch_idle_mono:
  "watch_idle obs wake idle fuel t = Some t' \<Longrightarrow> (\<And>t d. t + d \<le> wake t d) \<Longrightarrow> t \<le> t'"
proof (induction obs wake idle fuel t rule: watch_idle.induct)
  case (2 obs wake idle fuel t)
  have "t \<le> wake t d" for d using "2.prems"(2) [of t d] by simp
  with 2 show ?case by (auto simp: Let_def split: if_splits intro: order_trans)
qed simp

text \<open>A quiet connection: from \<open>T\<close> on nothing is in flight and the marker stays at \<open>l\<close>, which
  lies in the past; clocks stay below \<open>2 ^ 64\<close> milliseconds up to \<open>H\<close>.\<close>

definition quiet_from :: "(nat \<Rightarrow> activity) \<Rightarrow> nat \<Rightarrow> nat \<Rightarrow> bool" where
  "quiet_from obs T l \<longleftrightarrow>
     (\<forall>t \<ge> T. ac_in_flight (obs t) = 0 \<and> unat (ac_last_ms (obs t)) = l) \<and> l \<le> T div MS"

lemma idle_for_quiet:
  "quiet_from obs T l \<Longrightarrow> T \<le> t \<Longrightarrow> t div MS < 2 ^ 64 \<Longrightarrow> idle_for t (obs t) = (t div MS - l) * MS"
  by (simp add: quiet_from_def idle_for_def Let_def unat_of_nat take_bit_nat_eq_self)

lemma MS_pos [simp]: "0 < MS"
  by (simp add: MS_def)

lemma div_MS_bounds: "t div MS * MS \<le> t" "t < t div MS * MS + MS"
  using div_mult_mod_eq [of t MS] mod_less_divisor [OF MS_pos, of t] by linarith+

text \<open>After the connection fell quiet two checks are enough.\<close>

lemma watch_idle_quiet:
  assumes q: "quiet_from obs T l" and idle: "idle = k * MS"
    and early: "\<And>t d. t + d \<le> wake t d" and late: "\<And>t d. wake t d \<le> t + d + slack"
    and "T \<le> t" and H: "(max t (T + idle + MS + slack)) div MS < 2 ^ 64"
  shows "\<exists>t'. watch_idle obs wake idle (Suc (Suc n)) t = Some t' \<and> t' \<le> max t (T + idle + MS + slack)"
proof (cases "idle \<le> idle_for t (obs t)")
  case True
  with q \<open>T \<le> t\<close> show ?thesis by (auto simp: quiet_from_def)
next
  case False
  have lT: "l \<le> T div MS" using q by (simp add: quiet_from_def)
  have lt: "l \<le> t div MS" using lT div_le_mono [OF \<open>T \<le> t\<close>, of MS] by simp
  have t64: "t div MS < 2 ^ 64"
    using H div_le_mono [of t "max t (T + idle + MS + slack)" MS] by simp
  let ?q = "t div MS - l"
  let ?t2 = "wake t (idle - ?q * MS)"
  have quiet: "idle_for t (obs t) = ?q * MS" by (rule idle_for_quiet [OF q \<open>T \<le> t\<close> t64])
  have qk: "?q < k" using False by (simp add: quiet idle)
  have rest: "idle - ?q * MS = (k - ?q) * MS" by (simp add: idle diff_mult_distrib)
  have t2_le: "?t2 \<le> T + idle + MS + slack"
  proof -
    have "?t2 \<le> t + (idle - ?q * MS) + slack" by (rule late)
    moreover have "t < t div MS * MS + MS" by (rule div_MS_bounds)
    moreover have "?q * MS = t div MS * MS - l * MS" by (simp add: diff_mult_distrib)
    moreover have "l * MS \<le> T"
      using mult_le_mono1 [OF lT, of MS] div_MS_bounds(1) [of T] by linarith
    moreover have "l * MS \<le> t div MS * MS" using lt by simp
    moreover have "?q * MS \<le> idle" using qk by (simp add: idle)
    ultimately show ?thesis by linarith
  qed
  have t2_ge: "t + (k - ?q) * MS \<le> ?t2" using early [of t "idle - ?q * MS"] by (simp add: rest)
  then have T2: "T \<le> ?t2" using \<open>T \<le> t\<close> by linarith
  have t2_64: "?t2 div MS < 2 ^ 64"
    using H div_le_mono [OF max.coboundedI2 [OF t2_le, of t], of MS] by (rule order_le_less_trans [rotated])
  have "t div MS + (k - ?q) \<le> ?t2 div MS"
    using div_le_mono [OF t2_ge, of MS] by simp
  then have "k \<le> ?t2 div MS - l" using qk lt by linarith
  then have "idle \<le> idle_for ?t2 (obs ?t2)"
    by (simp only: idle_for_quiet [OF q T2 t2_64]) (simp add: idle)
  then have "watch_idle obs wake idle (Suc (Suc n)) t = Some ?t2"
    using q \<open>T \<le> t\<close> T2 False quiet by (auto simp: quiet_from_def Let_def)
  with t2_le show ?thesis by auto
qed

lemma sleep_min:
  assumes "idle = k * MS" shows "MS \<le> poll_step idle"
    and "\<not> idle \<le> idle_for t a \<Longrightarrow> MS \<le> idle - idle_for t a"
proof -
  show "MS \<le> poll_step idle" by (simp add: poll_step_def)
  define q where "q = unat (of_nat (t div MS) :: u64) - unat (ac_last_ms a)"
  assume "\<not> idle \<le> idle_for t a"
  then have "q < k" by (simp add: assms idle_for_def Let_def q_def)
  then have "1 * MS \<le> (k - q) * MS" by (intro mult_le_mono1) simp
  then show "MS \<le> idle - idle_for t a"
    by (simp add: assms idle_for_def Let_def q_def diff_mult_distrib)
qed

lemma watch_idle_live:
  assumes q: "quiet_from obs T l" and idle: "idle = k * MS"
    and early: "\<And>t d. t + d \<le> wake t d" and late: "\<And>t d. wake t d \<le> t + d + slack"
    and H: "(T + max idle (poll_step idle) + MS + slack) div MS < 2 ^ 64"
  shows "t \<le> T + max idle (poll_step idle) + slack \<Longrightarrow> T + 2 * MS \<le> t + n * MS \<Longrightarrow> 2 \<le> n \<Longrightarrow>
    \<exists>t'. watch_idle obs wake idle n t = Some t' \<and> t' \<le> T + max idle (poll_step idle) + MS + slack"
proof (induction n arbitrary: t)
  case (Suc n)
  let ?B = "T + max idle (poll_step idle) + MS + slack"
  show ?case
  proof (cases "T \<le> t")
    case True
    from Suc.prems(3) obtain m where n: "n = Suc m" by (cases n) auto
    have "max t (T + idle + MS + slack) \<le> ?B" using Suc.prems(1) by simp
    moreover from this have "max t (T + idle + MS + slack) div MS < 2 ^ 64"
      using H div_le_mono [of _ ?B MS] order_le_less_trans by blast
    ultimately show ?thesis
      using watch_idle_quiet [OF q idle early late True, of m] n order_trans by blast
  next
    case False
    have step: "\<exists>t'. watch_idle obs wake idle n (wake t d) = Some t' \<and> t' \<le> ?B"
      if "MS \<le> d" "d \<le> max idle (poll_step idle)" for d
    proof (rule Suc.IH)
      show "wake t d \<le> T + max idle (poll_step idle) + slack"
        using late [of t d] False that(2) by linarith
      show "T + 2 * MS \<le> wake t d + n * MS"
        using early [of t d] that(1) Suc.prems(2) by simp
      have "2 * MS < Suc n * MS" using Suc.prems(2) False by linarith
      then show "2 \<le> n" using MS_pos by (metis Suc_leI less_Suc_eq_le mult_less_cancel2)
    qed
    show ?thesis
    proof (cases "ac_in_flight (obs t) > 0")
      case True
      with step [of "poll_step idle"] sleep_min(1) [OF idle] show ?thesis by simp
    next
      case nofl: False
      show ?thesis
      proof (cases "idle \<le> idle_for t (obs t)")
        case True
        with nofl False show ?thesis by (auto simp: Let_def)
      next
        case busy: False
        with step [of "idle - idle_for t (obs t)"] sleep_min(2) [OF idle busy] nofl
        show ?thesis by (simp add: Let_def)
      qed
    qed
  qed
qed simp

lemma last_ms_past:
  "\<forall>(u, e) \<in> set es. u \<le> T \<Longrightarrow> unat (ac_last_ms a) \<le> T div MS \<Longrightarrow>
   unat (ac_last_ms (foldl activity_step a es)) \<le> T div MS"
proof (induction es arbitrary: a rule: guard_ops.induct)
  case (2 t r es)
  have "unat (of_nat (t div MS) :: u64) \<le> t div MS" by (simp add: unat_of_nat)
  also have "\<dots> \<le> T div MS" using "2.prems"(1) by (simp add: div_le_mono)
  finally have "unat (ac_last_ms (touch t a)) \<le> T div MS" by (simp add: touch_def)
  with "2.IH" [of a] "2.IH" [of "touch t a"] "2.prems" show ?case by auto
next
  case (3 t es)
  with "3.IH" [of "request_guard a"] show ?case by auto
next
  case (4 t es)
  with "4.IH" [of "guard_drop a"] show ?case by auto
qed simp

lemma quiet_from_events:
  assumes "\<forall>(u, e) \<in> set evs. u \<le> T" and "begun evs T = ended evs T"
  shows "quiet_from (activity_at evs) T (unat (ac_last_ms (activity_at evs T)))"
proof -
  have same: "activity_at evs t = activity_at evs T" if "T \<le> t" for t
  proof -
    have "filter (\<lambda>(u, _). u \<le> t) evs = filter (\<lambda>(u, _). u \<le> T) evs"
      using assms(1) that by (intro filter_cong) (auto intro: order_trans)
    then show ?thesis by (simp add: activity_at_def)
  qed
  moreover have "ac_in_flight (activity_at evs T) = 0" by (simp add: in_flight_at assms(2))
  moreover have "unat (ac_last_ms (activity_at evs T)) \<le> T div MS"
    unfolding activity_at_def
    by (rule last_ms_past) (auto simp: activity_new_def)
  ultimately show ?thesis unfolding quiet_from_def using same by metis
qed

section \<open>Properties\<close>

text \<open>C25: The idle watchdog never closes a connection that is in use. Over any time-ordered
  history of socket operations and request guards of a connection, whatever the timer does,
  when the watchdog returns every request that was begun has ended, and the last operation
  that moved bytes is at least the idle window ago, up to the millisecond resolution of the
  marker.\<close>

theorem watch_idle_safe:
  assumes "watch_idle (activity_at evs) wake idle fuel t0 = Some t"
    and "sorted (map fst evs)" and "t div MS < 2 ^ 64"
    and "ended evs t \<le> begun evs t" and "begun evs t < 2 ^ 64"
  shows "begun evs t = ended evs t \<and>
    (\<forall>u r. (u, Io r) \<in> set evs \<and> made_progress r \<and> u \<le> t \<longrightarrow> u + idle < t + MS)"
proof (rule conjI)
  from watch_idle_returns [OF assms(1)]
  have fl: "ac_in_flight (activity_at evs t) = 0" and q: "idle \<le> idle_for t (activity_at evs t)"
    by simp_all
  from fl have "(of_nat (begun evs t - ended evs t) :: u64) = 0"
    using assms(4) by (simp add: in_flight_at)
  moreover have "unat (of_nat (begun evs t - ended evs t) :: u64) = begun evs t - ended evs t"
    using assms(5) by (simp add: unat_of_nat take_bit_nat_eq_self del: of_nat_diff)
  ultimately show "begun evs t = ended evs t" using assms(4) by (simp del: of_nat_diff)
  show "\<forall>u r. (u, Io r) \<in> set evs \<and> made_progress r \<and> u \<le> t \<longrightarrow> u + idle < t + MS"
  proof (intro allI impI)
    fix u and r assume u: "(u, Io r) \<in> set evs \<and> made_progress r \<and> u \<le> t"
    let ?l = "unat (ac_last_ms (activity_at evs t))"
    have "u div MS \<le> ?l"
      unfolding activity_at_def
    proof (rule last_ms_foldl)
      show "v div MS < 2 ^ 64" if "(v, e) \<in> set (filter (\<lambda>(u, _). u \<le> t) evs)" for v e
        using that assms(3) div_le_mono [of v t MS] by auto
    qed (use u assms(2) in \<open>auto intro: sorted_filter\<close>)
    moreover have "idle \<le> (t div MS - ?l) * MS"
      using q assms(3) by (simp add: idle_for_def Let_def unat_of_nat take_bit_nat_eq_self)
    ultimately have "idle \<le> (t div MS - u div MS) * MS"
      using diff_le_mono2 mult_le_mono1 order_trans by meson
    then have "u div MS * MS + idle \<le> t div MS * MS"
      using u mult_le_mono1 [OF div_le_mono [of u t MS], of MS] by (simp add: diff_mult_distrib le_diff_conv2 add.commute)
    then show "u + idle < t + MS" using div_MS_bounds [of u] div_MS_bounds [of t] by linarith
  qed
qed

definition sample_events :: "(nat \<times> unit activity_event) list" where
  "sample_events = [(0, Begin), (2000000, Io (ReadyOk 5)), (3000000, End)]"

theorem watch_idle_safe_witness:
  "watch_idle (activity_at sample_events) (+) (100 * MS) 6 0 = Some 102000000 \<and>
   begun sample_events 102000000 = ended sample_events 102000000"
proof
  show run: "watch_idle (activity_at sample_events) (+) (100 * MS) 6 0 = Some 102000000"
    by (simp add: Let_def idle_for_def activity_at_def sample_events_def MS_def activity_new_def
        touch_def request_guard_def guard_drop_def poll_step_def)
  show "begun sample_events 102000000 = ended sample_events 102000000"
    by (rule watch_idle_safe [OF run, THEN conjunct1]) (simp_all add: sample_events_def MS_def begun_def ended_def)
qed

text \<open>C26: The idle watchdog reclaims a connection that fell quiet, and in time. Where the timer
  never fires early and is at most \<open>slack\<close> late, where every event of the history is at or
  before \<open>T\<close> and every request begun has ended, the loop with a window of whole milliseconds
  returns, at the latest one window (or one polling step, for windows below 50 ms) after \<open>T\<close>,
  plus the slack and one millisecond of resolution; \<open>T / 1ms + 3\<close> iterations are enough.\<close>

theorem watch_idle_reclaims:
  assumes "\<And>t d. t + d \<le> wake t d" and "\<And>t d. wake t d \<le> t + d + slack"
    and "\<forall>(u, e) \<in> set evs. u \<le> T" and "begun evs T = ended evs T"
    and "idle = k * MS" and "(T + max idle (poll_step idle) + MS + slack) div MS < 2 ^ 64"
    and "T div MS + 3 \<le> fuel"
  shows "\<exists>t. watch_idle (activity_at evs) wake idle fuel 0 = Some t \<and>
             t \<le> T + max idle (poll_step idle) + MS + slack"
proof (rule watch_idle_live [OF quiet_from_events assms(5,1,2,6)])
  have "(T div MS + 3) * MS \<le> fuel * MS" using assms(7) by (rule mult_le_mono1)
  then show "T + 2 * MS \<le> 0 + fuel * MS"
    using div_MS_bounds(2) [of T] by (simp add: algebra_simps)
qed (use assms in auto)

theorem watch_idle_reclaims_witness:
  "\<exists>t. watch_idle (activity_at sample_events) (+) (100 * MS) 6 0 = Some t \<and>
       t \<le> 3000000 + max (100 * MS) (poll_step (100 * MS)) + MS + 0"
  by (rule watch_idle_reclaims [where k = 100])
     (auto simp: sample_events_def MS_def begun_def ended_def poll_step_def)

text \<open>The socket wrapper is transparent and marks exactly the useful operations: the result
  and the inner socket are those of the wrapped operation, the marker moves to the current
  millisecond when bytes moved, and is left alone on \<^verbatim>\<open>Pending\<close>, on an error and at end of
  stream; a connection's in-flight count is never touched.\<close>

theorem activity_io_transparent:
  "(case poll_io io now me of (r, me') \<Rightarrow>
      (r, ai_inner me') = io (ai_inner me) \<and>
      ac_last_ms (ai_activity me') =
        (if \<exists>n > 0. r = ReadyOk n then of_nat (now div MS) else ac_last_ms (ai_activity me)) \<and>
      ac_in_flight (ai_activity me') = ac_in_flight (ai_activity me))"
proof (cases "io (ai_inner me)")
  case (Pair r s')
  then show ?thesis by (cases r) (auto simp: poll_io_def touch_def)
qed

end
