(* ===== verification/Overload.thy ===== *)
theory Overload
  imports Contracts Idle "HOL-Library.Multiset"
begin

text \<open>
  The concurrency limiter of \<^verbatim>\<open>src/overload.rs\<close>.

  The semaphore of tokio is an argument, a record of its operations, with the documented
  behaviour the code relies on in \<open>sem_laws\<close>. \<^verbatim>\<open>acquire\<close> is given twice: as the sequence of a
  single caller, cut at its only await, and as a step relation in which every atomic operation
  of every caller is a step of its own, so that callers interleave. A caller whose future is
  dropped while it waits (the client went away) is the step \<open>cancel\<close>. The ghost component
  \<open>ls_leaked\<close> counts those steps. Instants are nanoseconds since \<^verbatim>\<open>base\<close>.
\<close>

section \<open>Definitions\<close>

datatype try_acquire = TryOk | NoPermits | Closed

record 'sem semaphore =
  sm_new :: "nat \<Rightarrow> 'sem"
  sm_try :: "'sem \<Rightarrow> try_acquire \<times> 'sem"
  sm_grant :: "'sem \<Rightarrow> 'sem option"
  sm_release :: "'sem \<Rightarrow> 'sem"

definition sem_laws :: "'sem semaphore \<Rightarrow> ('sem \<Rightarrow> nat) \<Rightarrow> bool" where
  "sem_laws S avail \<longleftrightarrow>
     (\<forall>n. avail (sm_new S n) = n) \<and>
     (\<forall>s. case sm_try S s of
            (TryOk, s') \<Rightarrow> avail s = Suc (avail s')
          | (NoPermits, s') \<Rightarrow> avail s = 0 \<and> avail s' = 0
          | (Closed, s') \<Rightarrow> False) \<and>
     (\<forall>s s'. sm_grant S s = Some s' \<longrightarrow> avail s = Suc (avail s')) \<and>
     (\<forall>s. avail (sm_release S s) = Suc (avail s))"

datatype slot = Acquired | Rejected nat

record 'sem limiter =
  lm_sem :: 'sem
  lm_max_queue :: nat
  lm_queue_timeout :: nat
  lm_queued :: u64
  lm_retry_after :: nat
  lm_shed_after :: "nat option"
  lm_saturated_since_ms :: u64

definition limiter_new :: "'sem semaphore \<Rightarrow> nat \<Rightarrow> nat \<Rightarrow> nat \<Rightarrow> nat \<Rightarrow> nat option \<Rightarrow> 'sem limiter" where
  "limiter_new S max_concurrent max_queue queue_timeout retry_after shed_after =
     \<lparr>lm_sem = sm_new S max_concurrent, lm_max_queue = max_queue, lm_queue_timeout = queue_timeout,
      lm_queued = 0, lm_retry_after = retry_after, lm_shed_after = shed_after,
      lm_saturated_since_ms = 0\<rparr>"

definition mark_saturated :: "nat \<Rightarrow> 'sem limiter \<Rightarrow> 'sem limiter" where
  "mark_saturated now l =
     (let now_ms = of_nat (now div MS) :: u64
      in if lm_saturated_since_ms l = 0 then l\<lparr>lm_saturated_since_ms := max now_ms 1\<rparr> else l)"

definition clear_saturation :: "'sem limiter \<Rightarrow> 'sem limiter" where
  "clear_saturation l = l\<lparr>lm_saturated_since_ms := 0\<rparr>"

definition should_shed :: "nat \<Rightarrow> 'sem limiter \<Rightarrow> bool" where
  "should_shed now l =
     (case lm_shed_after l of
        None \<Rightarrow> False
      | Some threshold \<Rightarrow>
          let since = lm_saturated_since_ms l
          in if since = 0 then False
             else let now_ms = of_nat (now div MS) :: u64
                  in (unat now_ms - unat since) * MS \<ge> threshold)"

text \<open>\<^verbatim>\<open>fetch_add\<close> on the queue depth with the test of the old value, and \<^verbatim>\<open>fetch_sub\<close>.\<close>

definition queue_enter :: "'sem limiter \<Rightarrow> bool \<times> 'sem limiter" where
  "queue_enter l =
     (let depth = lm_queued l
      in (unat depth < lm_max_queue l, l\<lparr>lm_queued := depth + 1\<rparr>))"

definition queue_leave :: "'sem limiter \<Rightarrow> 'sem limiter" where
  "queue_leave l = l\<lparr>lm_queued := lm_queued l - 1\<rparr>"

text \<open>\<^verbatim>\<open>acquire\<close> up to its await: a slot, or \<^const>\<open>None\<close> when the caller goes on to wait.\<close>

definition acquire_fast :: "'sem semaphore \<Rightarrow> nat \<Rightarrow> 'sem limiter \<Rightarrow> slot option \<times> 'sem limiter" where
  "acquire_fast S now l =
     (case sm_try S (lm_sem l) of
        (TryOk, sem') \<Rightarrow> (Some Acquired, clear_saturation (l\<lparr>lm_sem := sem'\<rparr>))
      | (Closed, sem') \<Rightarrow> (Some (Rejected (lm_retry_after l)), l\<lparr>lm_sem := sem'\<rparr>)
      | (NoPermits, sem') \<Rightarrow>
          let l1 = mark_saturated now (l\<lparr>lm_sem := sem'\<rparr>)
          in if lm_max_queue l1 = 0 then (Some (Rejected (lm_retry_after l1)), l1)
             else case queue_enter l1 of
                    (True, l2) \<Rightarrow> (None, l2)
                  | (False, l2) \<Rightarrow> (Some (Rejected (lm_retry_after l1)), queue_leave l2))"

text \<open>\<^verbatim>\<open>acquire\<close> after its await: \<open>granted\<close> says whether the wait ended with a permit.\<close>

definition acquire_wake :: "bool \<Rightarrow> 'sem limiter \<Rightarrow> slot \<times> 'sem limiter" where
  "acquire_wake granted l =
     (let l = queue_leave l in (if granted then Acquired else Rejected (lm_retry_after l), l))"

text \<open>The whole of \<^verbatim>\<open>acquire\<close>; \<open>wait\<close> is the await, with what the others did meanwhile.\<close>

definition acquire ::
  "'sem semaphore \<Rightarrow> nat \<Rightarrow> ('sem limiter \<Rightarrow> bool \<times> 'sem limiter) \<Rightarrow> 'sem limiter \<Rightarrow> slot \<times> 'sem limiter" where
  "acquire S now wait l =
     (case acquire_fast S now l of
        (Some slot, l') \<Rightarrow> (slot, l')
      | (None, l') \<Rightarrow> (case wait l' of (granted, l'') \<Rightarrow> acquire_wake granted l''))"

section \<open>Interleaved callers\<close>

text \<open>Where a caller of \<^verbatim>\<open>acquire\<close> stands. \<open>Leaving\<close> remembers whether it got a permit.\<close>

datatype phase = Start | Clearing | Marking | Counting | Refusing | Waiting | Leaving bool | Holding

record 'sem lstate =
  ls_lim :: "'sem limiter"
  ls_tasks :: "phase multiset"
  ls_leaked :: nat

inductive lstep :: "'sem semaphore \<Rightarrow> nat \<Rightarrow> 'sem lstate \<Rightarrow> 'sem lstate \<Rightarrow> bool"
  for S :: "'sem semaphore" and N :: nat where
  arrive: "size T < N \<Longrightarrow> lstep S N \<lparr>ls_lim = l, ls_tasks = T, ls_leaked = k\<rparr>
      \<lparr>ls_lim = l, ls_tasks = add_mset Start T, ls_leaked = k\<rparr>"
| try_ok: "sm_try S (lm_sem l) = (TryOk, sem') \<Longrightarrow>
      lstep S N \<lparr>ls_lim = l, ls_tasks = add_mset Start T, ls_leaked = k\<rparr>
        \<lparr>ls_lim = l\<lparr>lm_sem := sem'\<rparr>, ls_tasks = add_mset Clearing T, ls_leaked = k\<rparr>"
| try_closed: "sm_try S (lm_sem l) = (Closed, sem') \<Longrightarrow>
      lstep S N \<lparr>ls_lim = l, ls_tasks = add_mset Start T, ls_leaked = k\<rparr>
        \<lparr>ls_lim = l\<lparr>lm_sem := sem'\<rparr>, ls_tasks = T, ls_leaked = k\<rparr>"
| try_full: "sm_try S (lm_sem l) = (NoPermits, sem') \<Longrightarrow>
      lstep S N \<lparr>ls_lim = l, ls_tasks = add_mset Start T, ls_leaked = k\<rparr>
        \<lparr>ls_lim = l\<lparr>lm_sem := sem'\<rparr>, ls_tasks = add_mset Marking T, ls_leaked = k\<rparr>"
| clear: "lstep S N \<lparr>ls_lim = l, ls_tasks = add_mset Clearing T, ls_leaked = k\<rparr>
      \<lparr>ls_lim = clear_saturation l, ls_tasks = add_mset Holding T, ls_leaked = k\<rparr>"
| mark: "lstep S N \<lparr>ls_lim = l, ls_tasks = add_mset Marking T, ls_leaked = k\<rparr>
      \<lparr>ls_lim = mark_saturated now l,
       ls_tasks = (if lm_max_queue l = 0 then T else add_mset Counting T), ls_leaked = k\<rparr>"
| count: "queue_enter l = (fits, l') \<Longrightarrow>
      lstep S N \<lparr>ls_lim = l, ls_tasks = add_mset Counting T, ls_leaked = k\<rparr>
        \<lparr>ls_lim = l', ls_tasks = add_mset (if fits then Waiting else Refusing) T, ls_leaked = k\<rparr>"
| refuse: "lstep S N \<lparr>ls_lim = l, ls_tasks = add_mset Refusing T, ls_leaked = k\<rparr>
      \<lparr>ls_lim = queue_leave l, ls_tasks = T, ls_leaked = k\<rparr>"
| grant: "sm_grant S (lm_sem l) = Some sem' \<Longrightarrow>
      lstep S N \<lparr>ls_lim = l, ls_tasks = add_mset Waiting T, ls_leaked = k\<rparr>
        \<lparr>ls_lim = l\<lparr>lm_sem := sem'\<rparr>, ls_tasks = add_mset (Leaving True) T, ls_leaked = k\<rparr>"
| timeout: "lstep S N \<lparr>ls_lim = l, ls_tasks = add_mset Waiting T, ls_leaked = k\<rparr>
      \<lparr>ls_lim = l, ls_tasks = add_mset (Leaving False) T, ls_leaked = k\<rparr>"
| leave: "lstep S N \<lparr>ls_lim = l, ls_tasks = add_mset (Leaving g) T, ls_leaked = k\<rparr>
      \<lparr>ls_lim = queue_leave l, ls_tasks = (if g then add_mset Holding T else T), ls_leaked = k\<rparr>"
| cancel: "lstep S N \<lparr>ls_lim = l, ls_tasks = add_mset Waiting T, ls_leaked = k\<rparr>
      \<lparr>ls_lim = l, ls_tasks = T, ls_leaked = Suc k\<rparr>"
| release: "lstep S N \<lparr>ls_lim = l, ls_tasks = add_mset Holding T, ls_leaked = k\<rparr>
      \<lparr>ls_lim = l\<lparr>lm_sem := sm_release S (lm_sem l)\<rparr>, ls_tasks = T, ls_leaked = k\<rparr>"

definition lstart :: "'sem limiter \<Rightarrow> 'sem lstate" where
  "lstart l = \<lparr>ls_lim = l, ls_tasks = {#}, ls_leaked = 0\<rparr>"

section \<open>The invariant\<close>

text \<open>Permits out, and callers inside the queue counter.\<close>

definition permits_out :: "phase multiset \<Rightarrow> nat" where
  "permits_out T = count T Clearing + count T (Leaving True) + count T Holding"

definition in_queue :: "phase multiset \<Rightarrow> nat" where
  "in_queue T = count T Waiting + count T (Leaving True) + count T (Leaving False)"

definition linv :: "('sem \<Rightarrow> nat) \<Rightarrow> nat \<Rightarrow> nat \<Rightarrow> nat \<Rightarrow> 'sem lstate \<Rightarrow> bool" where
  "linv avail N C Q s \<longleftrightarrow>
     lm_max_queue (ls_lim s) = Q \<and> size (ls_tasks s) \<le> N \<and>
     avail (lm_sem (ls_lim s)) + permits_out (ls_tasks s) = C \<and>
     lm_queued (ls_lim s) = of_nat (count (ls_tasks s) Refusing + in_queue (ls_tasks s) + ls_leaked s) \<and>
     in_queue (ls_tasks s) + ls_leaked s \<le> Q"

lemmas limiter_ops =
  mark_saturated_def clear_saturation_def queue_enter_def queue_leave_def Let_def

lemma limiter_frames [simp]:
  "lm_sem (mark_saturated now l) = lm_sem l" "lm_sem (clear_saturation l) = lm_sem l"
  "lm_sem (queue_leave l) = lm_sem l"
  "lm_queued (mark_saturated now l) = lm_queued l" "lm_queued (clear_saturation l) = lm_queued l"
  "lm_max_queue (mark_saturated now l) = lm_max_queue l"
  "lm_max_queue (clear_saturation l) = lm_max_queue l" "lm_max_queue (queue_leave l) = lm_max_queue l"
  "lm_retry_after (mark_saturated now l) = lm_retry_after l"
  "lm_retry_after (queue_leave l) = lm_retry_after l"
  by (simp_all add: limiter_ops)

lemma phase_counts [simp]:
  "permits_out (add_mset p T) = permits_out T + (if p \<in> {Clearing, Leaving True, Holding} then 1 else 0)"
  "in_queue (add_mset p T) = in_queue T + (if p \<in> {Waiting, Leaving True, Leaving False} then 1 else 0)"
  "permits_out {#} = 0" "in_queue {#} = 0"
  by (auto simp: permits_out_def in_queue_def)

lemma sem_lawsD:
  assumes "sem_laws S avail"
  shows "avail (sm_new S n) = n" and "sm_try S s = (TryOk, s') \<Longrightarrow> avail s = Suc (avail s')"
    and "sm_try S s = (NoPermits, s') \<Longrightarrow> avail s = 0 \<and> avail s' = 0"
    and "sm_try S s \<noteq> (Closed, s')"
    and "sm_grant S s = Some s' \<Longrightarrow> avail s = Suc (avail s')"
    and "avail (sm_release S s) = Suc (avail s)"
  using assms by (auto simp: sem_laws_def dest!: spec [of _ s])

text \<open>The depth a caller reads is the exact number of callers counted, below the wrap-around.\<close>

lemma queued_exact:
  assumes "linv avail N C Q s" and "N + Q < 2 ^ 64"
  shows "unat (lm_queued (ls_lim s)) = count (ls_tasks s) Refusing + in_queue (ls_tasks s) + ls_leaked s"
proof -
  have "count (ls_tasks s) Refusing \<le> size (ls_tasks s)" by (rule count_le_size)
  with assms show ?thesis
    by (simp add: linv_def unat_of_nat take_bit_nat_eq_self del: of_nat_add)
qed

lemma linv_step:
  assumes "lstep S N s s'" and "linv avail N C Q s" and "sem_laws S avail" and "N + Q < 2 ^ 64"
  shows "linv avail N C Q s'"
  using assms(1)
proof cases
  case (count l fits l' T k)
  have "unat (lm_queued l) = count T Refusing + in_queue T + k"
    using queued_exact [OF assms(2,4)] count by simp
  with count assms(2) show ?thesis by (auto simp: linv_def queue_enter_def Let_def)
qed (use assms(2) sem_lawsD [OF assms(3)] in
  \<open>auto simp: linv_def queue_leave_def intro: Suc_leI\<close>)

interpretation limited: stable "lstep S N" "\<lambda>s. sem_laws S avail \<and> N + Q < 2 ^ 64 \<and> linv avail N C Q s"
  for S N avail C Q
  by unfold_locales (auto intro: linv_step)

lemma linv_start:
  "sem_laws S avail \<Longrightarrow> linv avail N C Q (lstart (limiter_new S C Q timeout retry shed))"
  by (simp add: linv_def lstart_def limiter_new_def sem_lawsD)

lemma linv_reachable:
  assumes "sem_laws S avail" and "N + Q < 2 ^ 64"
    and "(lstep S N)\<^sup>*\<^sup>* (lstart (limiter_new S C Q timeout retry shed)) s"
  shows "linv avail N C Q s"
  using limited.along [OF assms(3), of avail Q C] assms(1,2) linv_start [OF assms(1)] by blast

lemma leaked_mono_step: "lstep S N s s' \<Longrightarrow> ls_leaked s \<le> ls_leaked s'"
  by (cases rule: lstep.cases) auto

interpretation leaks: stable "lstep S N" "\<lambda>s. n \<le> ls_leaked s" for S N n
  by unfold_locales (auto dest: leaked_mono_step)

section \<open>Overload streaks\<close>

datatype streak_event = Mark nat | Clear

fun streak_step :: "'sem limiter \<Rightarrow> streak_event \<Rightarrow> 'sem limiter" where
  "streak_step l (Mark t) = mark_saturated t l"
| "streak_step l Clear = clear_saturation l"

text \<open>\<open>t\<close> is the first mark after the last clear of the history.\<close>

definition streak :: "streak_event list \<Rightarrow> nat \<Rightarrow> bool" where
  "streak es t \<longleftrightarrow>
     (\<exists>xs ys. es = xs @ Mark t # ys \<and> Clear \<notin> set ys \<and> (xs = [] \<or> last xs = Clear))"

lemma mark_value:
  "t div MS < 2 ^ 64 \<Longrightarrow> unat (max (of_nat (t div MS) :: u64) 1) = max 1 (t div MS)"
  by (auto simp: max_def word_le_nat_alt unat_of_nat take_bit_nat_eq_self)

lemma max_word_nonzero: "max x (1 :: u64) \<noteq> 0"
  by (auto simp: max_def word_le_nat_alt)

lemma streak_snoc_Clear: "\<not> streak (es @ [Clear]) t"
proof
  assume "streak (es @ [Clear]) t"
  then obtain xs ys where eq: "es @ [Clear] = xs @ Mark t # ys" and "Clear \<notin> set ys"
    by (auto simp: streak_def)
  then show False by (cases ys rule: rev_cases) auto
qed

lemma streak_snoc_Mark: "streak (es @ [Mark u]) t \<longleftrightarrow> streak es t \<or> ((es = [] \<or> last es = Clear) \<and> t = u)"
proof
  assume "streak (es @ [Mark u]) t"
  then obtain xs ys where eq: "es @ [Mark u] = xs @ Mark t # ys" and "Clear \<notin> set ys"
    and "xs = [] \<or> last xs = Clear" by (auto simp: streak_def)
  then show "streak es t \<or> ((es = [] \<or> last es = Clear) \<and> t = u)"
    by (cases ys rule: rev_cases) (auto simp: streak_def)
next
  assume "streak es t \<or> ((es = [] \<or> last es = Clear) \<and> t = u)"
  then show "streak (es @ [Mark u]) t"
  proof
    assume "streak es t"
    then obtain xs ys where "es = xs @ Mark t # ys" "Clear \<notin> set ys" "xs = [] \<or> last xs = Clear"
      by (auto simp: streak_def)
    then have "es @ [Mark u] = xs @ Mark t # (ys @ [Mark u])" "Clear \<notin> set (ys @ [Mark u])"
      by simp_all
    with \<open>xs = [] \<or> last xs = Clear\<close> show ?thesis unfolding streak_def by blast
  next
    assume "(es = [] \<or> last es = Clear) \<and> t = u"
    then show ?thesis unfolding streak_def by (intro exI [of _ es] exI [of _ "[]"]) simp
  qed
qed

lemma streak_ends: "streak es t \<Longrightarrow> es \<noteq> [] \<and> last es \<noteq> Clear"
  by (auto simp: streak_def split: if_splits) (metis last_in_set)+

lemma streak_exists: "es \<noteq> [] \<Longrightarrow> last es \<noteq> Clear \<Longrightarrow> \<exists>t. streak es t"
proof (induction es rule: rev_induct)
  case (snoc e es)
  then obtain u where e: "e = Mark u" by (cases e) auto
  with snoc.IH show ?case by (cases "es = [] \<or> last es = Clear") (auto simp: streak_snoc_Mark)
qed simp

lemma streak_unique: "streak es t \<Longrightarrow> streak es u \<Longrightarrow> t = u"
proof (induction es rule: rev_induct)
  case (snoc e es)
  then show ?case
    by (cases e) (auto simp: streak_snoc_Mark streak_snoc_Clear dest: streak_ends)
qed (simp add: streak_def)

text \<open>The stored origin is that of the current streak, and zero outside one.\<close>

lemma saturated_streak:
  assumes "lm_saturated_since_ms l = 0"
  shows "(\<forall>t. streak es t \<longrightarrow>
            lm_saturated_since_ms (foldl streak_step l es) = max (of_nat (t div MS)) 1) \<and>
         ((\<nexists>t. streak es t) \<longrightarrow> lm_saturated_since_ms (foldl streak_step l es) = 0)"
proof (induction es rule: rev_induct)
  case Nil
  show ?case by (simp add: streak_def assms)
next
  case (snoc e es)
  show ?case
  proof (cases e)
    case Clear
    then show ?thesis by (simp add: streak_snoc_Clear clear_saturation_def)
  next
    case (Mark u)
    show ?thesis
    proof (cases "\<exists>t. streak es t")
      case True
      then show ?thesis
        using snoc.IH Mark
        by (auto simp: streak_snoc_Mark mark_saturated_def max_word_nonzero dest: streak_ends)
    next
      case False
      then have "es = [] \<or> last es = Clear" using streak_exists by blast
      with False Mark snoc.IH show ?thesis by (auto simp: streak_snoc_Mark mark_saturated_def)
    qed
  qed
qed

lemmas saturated_since = saturated_streak [THEN conjunct1, rule_format]
  saturated_streak [THEN conjunct2, rule_format]

lemma shed_after_frame [simp]: "lm_shed_after (foldl streak_step l es) = lm_shed_after l"
proof (induction es arbitrary: l)
  case (Cons e es)
  then show ?case by (cases e) (simp_all add: limiter_ops)
qed simp

section \<open>Properties\<close>

text \<open>C12: The limiter holds its two bounds under every interleaving of any number of callers,
  time-outs, cancellations and releases: at most \<^verbatim>\<open>max_concurrent\<close> callers hold a slot, every
  permit is accounted for, at most \<^verbatim>\<open>max_queue\<close> callers wait, and the depth counter is exactly
  the callers counted in it plus those that were dropped while waiting.\<close>

theorem limiter_bounds:
  assumes "sem_laws S avail" and "N + Q < 2 ^ 64"
    and "(lstep S N)\<^sup>*\<^sup>* (lstart (limiter_new S C Q timeout retry shed)) s"
  shows "count (ls_tasks s) Holding \<le> C \<and>
    avail (lm_sem (ls_lim s)) + permits_out (ls_tasks s) = C \<and>
    count (ls_tasks s) Waiting + ls_leaked s \<le> Q \<and>
    unat (lm_queued (ls_lim s)) = count (ls_tasks s) Refusing + in_queue (ls_tasks s) + ls_leaked s"
proof (intro conjI)
  have inv: "linv avail N C Q s"
    by (rule linv_reachable [OF assms(1-3)])
  then show "count (ls_tasks s) Holding \<le> C"
    and "avail (lm_sem (ls_lim s)) + permits_out (ls_tasks s) = C"
    and "count (ls_tasks s) Waiting + ls_leaked s \<le> Q"
    by (auto simp: linv_def permits_out_def in_queue_def)
  show "unat (lm_queued (ls_lim s)) = count (ls_tasks s) Refusing + in_queue (ls_tasks s) + ls_leaked s"
    by (rule queued_exact [OF inv assms(2)])
qed

text \<open>A counting semaphore, as an instance of the laws.\<close>

definition nat_sem :: "nat semaphore" where
  "nat_sem =
     \<lparr>sm_new = (\<lambda>n. n), sm_try = (\<lambda>s. if s = 0 then (NoPermits, s) else (TryOk, s - 1)),
      sm_grant = (\<lambda>s. if s = 0 then None else Some (s - 1)), sm_release = Suc\<rparr>"

lemma nat_sem_laws: "sem_laws nat_sem (\<lambda>s. s)"
  by (simp add: sem_laws_def nat_sem_def)

text \<open>One slot, one place in the queue: a first caller takes the slot, a second one waits and is
  dropped, the first one releases.\<close>

definition sample_limiter :: "nat limiter" where
  "sample_limiter = limiter_new nat_sem 1 1 0 1 None"

definition sample_busy :: "nat lstate" where
  "sample_busy =
     \<lparr>ls_lim = sample_limiter\<lparr>lm_sem := 0, lm_saturated_since_ms := 1, lm_queued := 1\<rparr>,
      ls_tasks = {#Holding#}, ls_leaked = 1\<rparr>"

lemma sample_path: "(lstep nat_sem 2)\<^sup>*\<^sup>* (lstart sample_limiter) sample_busy"
  unfolding lstart_def sample_busy_def sample_limiter_def limiter_new_def
  apply (rule step_run, rule arrive, simp)
  apply (rule step_run, rule try_ok, simp add: nat_sem_def)
  apply (rule step_run, rule clear)
  apply (rule step_run, rule arrive, simp)
  apply (rule step_run, rule try_full, simp add: nat_sem_def clear_saturation_def)
  apply (rule step_run, rule mark [where now = 0])
  apply (simp add: limiter_ops)
  apply (rule step_run, rule count, simp add: limiter_ops)
  apply simp
  apply (rule step_run, rule cancel)
  apply simp
  done

theorem limiter_bounds_witness:
  "count (ls_tasks sample_busy) Holding = 1 \<and> count (ls_tasks sample_busy) Holding \<le> 1 \<and>
   count (ls_tasks sample_busy) Waiting + ls_leaked sample_busy \<le> 1"
  using limiter_bounds [OF nat_sem_laws, of 2 1 1 0 1 None sample_busy] sample_path
  by (simp add: sample_limiter_def sample_busy_def)

text \<open>A caller that is dropped while it waits keeps its place in the queue for ever: the
  number of lost places never falls, so after \<^verbatim>\<open>max_queue\<close> such cancellations no caller can
  wait again in any later state (every burst is refused at once), and with nobody left in
  the limiter the depth counter still shows the lost places.\<close>

theorem cancelled_waiters_shrink_the_queue:
  assumes "sem_laws S avail" and "N + Q < 2 ^ 64"
    and "(lstep S N)\<^sup>*\<^sup>* (lstart (limiter_new S C Q timeout retry shed)) s"
    and "(lstep S N)\<^sup>*\<^sup>* s s'"
  shows "count (ls_tasks s') Waiting + ls_leaked s \<le> Q"
    and "ls_tasks s' = {#} \<Longrightarrow> ls_leaked s \<le> unat (lm_queued (ls_lim s'))"
proof -
  have reach: "(lstep S N)\<^sup>*\<^sup>* (lstart (limiter_new S C Q timeout retry shed)) s'"
    using assms(3,4) by (rule rtranclp_trans)
  then have inv: "linv avail N C Q s'"
    by (rule linv_reachable [OF assms(1,2)])
  have le: "ls_leaked s \<le> ls_leaked s'" by (rule leaks.along [OF assms(4) order_refl])
  with inv show "count (ls_tasks s') Waiting + ls_leaked s \<le> Q"
    by (auto simp: linv_def in_queue_def)
  show "ls_leaked s \<le> unat (lm_queued (ls_lim s'))" if "ls_tasks s' = {#}"
    using le queued_exact [OF inv assms(2)] that by simp
qed

theorem cancelled_waiters_shrink_the_queue_witness:
  "\<exists>s'. (lstep nat_sem 2)\<^sup>*\<^sup>* sample_busy s' \<and> ls_tasks s' = {#} \<and> 1 \<le> unat (lm_queued (ls_lim s'))"
proof -
  let ?s' = "sample_busy\<lparr>ls_lim := ls_lim sample_busy\<lparr>lm_sem := 1\<rparr>, ls_tasks := {#}\<rparr>"
  have step: "(lstep nat_sem 2)\<^sup>*\<^sup>* sample_busy ?s'"
    using release [of nat_sem 2 "ls_lim sample_busy" "{#}" 1]
    by (intro r_into_rtranclp) (simp add: sample_busy_def nat_sem_def)
  have "ls_leaked sample_busy \<le> unat (lm_queued (ls_lim ?s'))"
    by (rule cancelled_waiters_shrink_the_queue(2)
        [OF nat_sem_laws _ sample_path [unfolded sample_limiter_def] step]) simp_all
  then show ?thesis using step by (intro exI [of _ ?s']) (simp add: sample_busy_def)
qed

text \<open>Readiness is dropped exactly under sustained overload: over any history of refusals
  and free slots of a limiter, \<^verbatim>\<open>should_shed\<close> holds precisely when the first refusal since the
  last time a slot was free at once is at least the configured threshold ago (in whole
  milliseconds, a streak that began in millisecond zero counting from one).\<close>

theorem should_shed_spec:
  assumes "lm_saturated_since_ms l = 0" and "lm_shed_after l = Some threshold"
    and "now div MS < 2 ^ 64" and "\<forall>t. Mark t \<in> set es \<longrightarrow> t div MS < 2 ^ 64"
  shows "should_shed now (foldl streak_step l es) \<longleftrightarrow>
           (\<exists>t. streak es t \<and> threshold \<le> (now div MS - max 1 (t div MS)) * MS)"
proof (cases "\<exists>t. streak es t")
  case True
  then obtain t where t: "streak es t" by blast
  then have "Mark t \<in> set es" by (auto simp: streak_def)
  with assms(4) have "t div MS < 2 ^ 64" by blast
  then have "should_shed now (foldl streak_step l es) \<longleftrightarrow>
      threshold \<le> (now div MS - max 1 (t div MS)) * MS"
    using assms(2,3)
    by (simp add: should_shed_def saturated_since(1) [OF assms(1) t] mark_value max_word_nonzero
        Let_def unat_of_nat take_bit_nat_eq_self)
  with t streak_unique [OF t] show ?thesis by blast
next
  case False
  then show ?thesis
    using saturated_since(2) [OF assms(1) False] assms(2) by (simp add: should_shed_def)
qed

theorem should_shed_spec_witness:
  "should_shed 130000000 (foldl streak_step (sample_limiter\<lparr>lm_shed_after := Some 120000000\<rparr>)
     [Mark 5000000, Mark 130000000]) \<longleftrightarrow>
   (\<exists>t. streak [Mark 5000000, Mark 130000000] t \<and> 120000000 \<le> (130000000 div MS - max 1 (t div MS)) * MS)"
  by (rule should_shed_spec) (auto simp: sample_limiter_def limiter_new_def MS_def)

text \<open>What a caller runs between its awaits is a run of the interleaved model: starting with
  a caller at its first instruction, the sequential code up to the await is reached by steps
  of that caller alone and leaves it holding a slot, refused, or waiting, as the code says.\<close>

theorem acquire_fast_refines_steps:
  assumes "acquire_fast S now l = (res, l')"
  shows "(lstep S N)\<^sup>*\<^sup>* \<lparr>ls_lim = l, ls_tasks = add_mset Start T, ls_leaked = k\<rparr>
     \<lparr>ls_lim = l',
      ls_tasks = (case res of None \<Rightarrow> add_mset Waiting T
                  | Some Acquired \<Rightarrow> add_mset Holding T | Some (Rejected _) \<Rightarrow> T),
      ls_leaked = k\<rparr>"
proof -
  obtain r sem' where r: "sm_try S (lm_sem l) = (r, sem')" by (cases "sm_try S (lm_sem l)")
  show ?thesis
  proof (cases r)
    case TryOk
    from two_steps [of "lstep S N", OF lstep.try_ok [OF r [unfolded TryOk], of N T k] lstep.clear]
    show ?thesis
      using assms r TryOk by (auto simp: acquire_fast_def)
  next
    case Closed
    from lstep.try_closed [OF r [unfolded Closed]] show ?thesis
      using assms r Closed by (auto simp: acquire_fast_def)
  next
    case NoPermits
    let ?l1 = "mark_saturated now (l\<lparr>lm_sem := sem'\<rparr>)"
    have full: "lstep S N \<lparr>ls_lim = l, ls_tasks = add_mset Start T, ls_leaked = k\<rparr>
        \<lparr>ls_lim = l\<lparr>lm_sem := sem'\<rparr>, ls_tasks = add_mset Marking T, ls_leaked = k\<rparr>"
      by (rule lstep.try_full [OF r [unfolded NoPermits]])
    note mark = lstep.mark [of S N "l\<lparr>lm_sem := sem'\<rparr>" T k now]
    show ?thesis
    proof (cases "lm_max_queue l = 0")
      case True
      with two_steps [of "lstep S N", OF full mark] assms r NoPermits show ?thesis
        by (auto simp: acquire_fast_def Let_def)
    next
      case False
      obtain fits l2 where q: "queue_enter ?l1 = (fits, l2)" by (cases "queue_enter ?l1")
      have count: "lstep S N \<lparr>ls_lim = ?l1, ls_tasks = add_mset Counting T, ls_leaked = k\<rparr>
          \<lparr>ls_lim = l2, ls_tasks = add_mset (if fits then Waiting else Refusing) T, ls_leaked = k\<rparr>"
        by (rule lstep.count [OF q])
      have "(lstep S N)\<^sup>*\<^sup>* \<lparr>ls_lim = l, ls_tasks = add_mset Start T, ls_leaked = k\<rparr>
          \<lparr>ls_lim = l2, ls_tasks = add_mset (if fits then Waiting else Refusing) T, ls_leaked = k\<rparr>"
        using two_steps [of "lstep S N", OF full mark] count False
        by (auto intro: rtranclp.rtrancl_into_rtrancl)
      with lstep.refuse [of S N l2 T k] assms r NoPermits False q show ?thesis
        by (auto simp: acquire_fast_def Let_def intro: rtranclp.rtrancl_into_rtrancl split: if_splits bool.splits)
    qed
  qed
qed

theorem acquire_fast_refines_steps_witness:
  "(lstep nat_sem 2)\<^sup>*\<^sup>* \<lparr>ls_lim = sample_limiter, ls_tasks = {#Start#}, ls_leaked = 0\<rparr>
     \<lparr>ls_lim = sample_limiter\<lparr>lm_sem := 0\<rparr>, ls_tasks = {#Holding#}, ls_leaked = 0\<rparr>"
proof -
  have "acquire_fast nat_sem 0 sample_limiter = (Some Acquired, sample_limiter\<lparr>lm_sem := 0\<rparr>)"
    by (simp add: acquire_fast_def sample_limiter_def limiter_new_def nat_sem_def clear_saturation_def)
  from acquire_fast_refines_steps [OF this, of 2 "{#}" 0] show ?thesis by simp
qed

end
