(* ===== verification/Compress.thy ===== *)
theory Compress
  imports Contracts
begin

text \<open>
  Decoding of compressed request bodies (\<^verbatim>\<open>src/compress.rs\<close>). The decoders of \<^verbatim>\<open>flate2\<close> and
  \<^verbatim>\<open>brotli\<close> are arguments: a constructor per format and the \<^verbatim>\<open>Read::read\<close> of a decoder, which
  gives the bytes of one read (no bytes at the end of the stream) or fails. The read loop has
  fuel; with a limit configured a fuel of the limit plus two is always enough.
\<close>

section \<open>Definitions\<close>

datatype decode_err = Unsupported | Invalid | TooLarge

type_synonym 'd reader = "'d \<Rightarrow> (bytes \<times> 'd) option"

record 'd decoders =
  dc_gzip :: "bytes \<Rightarrow> 'd"
  dc_zlib :: "bytes \<Rightarrow> 'd"
  dc_brotli :: "bytes \<Rightarrow> 'd"
  dc_read :: "'d reader"

definition CHUNK :: nat where
  "CHUNK = 8192"

text \<open>The body of the loop after a read: extend, then test the limit.\<close>

definition bounded_extend :: "nat option \<Rightarrow> bytes \<Rightarrow> bytes \<Rightarrow> bytes option" where
  "bounded_extend limit out b =
     (let out = out @ b in if over_limit limit (length out) then None else Some out)"

fun read_bounded :: "'d reader \<Rightarrow> nat option \<Rightarrow> nat \<Rightarrow> 'd \<Rightarrow> bytes \<Rightarrow> (decode_err + bytes) option" where
  "read_bounded rd limit 0 r out = None"
| "read_bounded rd limit (Suc fuel) r out =
     (case rd r of
        None \<Rightarrow> Some (Inl Invalid)
      | Some (b, r') \<Rightarrow>
          if b = [] then Some (Inr out)
          else case bounded_extend limit out b of
                 None \<Rightarrow> Some (Inl TooLarge)
               | Some out' \<Rightarrow> read_bounded rd limit fuel r' out')"

definition decode :: "'d decoders \<Rightarrow> nat \<Rightarrow> string \<Rightarrow> bytes \<Rightarrow> nat option \<Rightarrow> (decode_err + bytes) option" where
  "decode dc fuel encoding body limit =
     (if encoding = ''gzip'' \<or> encoding = ''x-gzip''
      then read_bounded (dc_read dc) limit fuel (dc_gzip dc body) []
      else if encoding = ''deflate''
      then read_bounded (dc_read dc) limit fuel (dc_zlib dc body) []
      else if encoding = ''br''
      then read_bounded (dc_read dc) limit fuel (dc_brotli dc body) []
      else Some (Inl Unsupported))"

section \<open>Lemmas\<close>

interpretation dec: size_guard limit length "bounded_extend limit" for limit
  by unfold_locales (auto simp: bounded_extend_def Let_def split: if_splits)

text \<open>Which decoder an encoding names.\<close>

definition decoder_of :: "'d decoders \<Rightarrow> string \<Rightarrow> bytes \<Rightarrow> 'd option" where
  "decoder_of dc encoding body =
     map_of [(''gzip'', dc_gzip dc body), (''x-gzip'', dc_gzip dc body),
             (''deflate'', dc_zlib dc body), (''br'', dc_brotli dc body)] encoding"

lemma decode_decoder_of:
  "decode dc fuel encoding body limit =
     (case decoder_of dc encoding body of
        None \<Rightarrow> Some (Inl Unsupported)
      | Some r \<Rightarrow> read_bounded (dc_read dc) limit fuel r [])"
  by (simp add: decode_def decoder_of_def)

text \<open>The reads a decoder gives before it stops, and how it stops: at the end of its stream
  (an empty read), or because a read fails.\<close>

fun yields :: "'d reader \<Rightarrow> 'd \<Rightarrow> bytes list \<Rightarrow> bool \<Rightarrow> bool" where
  "yields rd r [] ended = (case rd r of None \<Rightarrow> \<not> ended | Some (b, _) \<Rightarrow> ended \<and> b = [])"
| "yields rd r (c # cs) ended =
     (case rd r of None \<Rightarrow> False | Some (b, r') \<Rightarrow> b \<noteq> [] \<and> b = c \<and> yields rd r' cs ended)"

lemma bounded_extend_Some:
  "bounded_extend limit out b = Some out' \<longleftrightarrow> out' = out @ b \<and> \<not> over_limit limit (length out + length b)"
  by (auto simp: bounded_extend_def Let_def)

lemma feed_all_contents: "dec.feed_all limit out cs = Some out' \<Longrightarrow> out' = out @ concat cs"
proof (induction cs arbitrary: out)
  case (Cons c cs)
  from Cons.prems obtain o1 where "bounded_extend limit out c = Some o1" "dec.feed_all limit o1 cs = Some out'"
    by (auto split: option.splits)
  with Cons.IH [of o1] show ?case by (simp add: bounded_extend_Some)
qed simp

text \<open>On a decoder that stops, the loop is the guard fed with its reads.\<close>

lemma read_bounded_yields:
  "yields rd r cs ended \<Longrightarrow> length cs < fuel \<Longrightarrow>
   read_bounded rd limit fuel r out =
     Some (case dec.feed_all limit out cs of
             None \<Rightarrow> Inl TooLarge | Some out' \<Rightarrow> if ended then Inr out' else Inl Invalid)"
proof (induction cs arbitrary: fuel r out)
  case Nil
  then show ?case by (cases fuel) (auto split: option.splits)
next
  case (Cons c cs)
  then show ?case by (cases fuel) (auto split: option.splits)
qed

lemma read_bounded_fits:
  "read_bounded rd limit fuel r out = Some (Inr out') \<Longrightarrow> \<not> over_limit limit (length out) \<Longrightarrow>
   \<not> over_limit limit (length out')"
proof (induction fuel arbitrary: r out)
  case (Suc fuel)
  obtain b r' where rd: "rd r = Some (b, r')"
    using Suc.prems(1) by (auto split: option.splits)
  show ?case
  proof (cases "b = []")
    case False
    then obtain o1 where "bounded_extend limit out b = Some o1" "read_bounded rd limit fuel r' o1 = Some (Inr out')"
      using Suc.prems(1) rd by (auto split: option.splits)
    with Suc.IH [of r' o1] show ?thesis by (simp add: bounded_extend_Some)
  qed (use Suc.prems rd in simp)
qed simp

text \<open>Every round adds at least one byte, so a limit bounds the number of rounds.\<close>

lemma read_bounded_ends:
  "l + 1 < fuel + length out \<Longrightarrow> length out \<le> l \<Longrightarrow> \<exists>res. read_bounded rd (Some l) fuel r out = Some res"
proof (induction fuel arbitrary: r out)
  case (Suc fuel)
  show ?case
  proof (cases "rd r")
    case (Some p)
    obtain b r' where p: "p = (b, r')" by (cases p)
    show ?thesis
    proof (cases "b = [] \<or> bounded_extend (Some l) out b = None")
      case False
      then obtain out' where o': "bounded_extend (Some l) out b = Some out'" by auto
      then have "out' = out @ b" "length out + length b \<le> l"
        by (auto simp: bounded_extend_Some)
      with False Suc.prems have "\<exists>res. read_bounded rd (Some l) fuel r' out' = Some res"
        by (intro Suc.IH) (cases b; simp)+
      with Some p o' False show ?thesis by simp
    qed (use Some p in auto)
  qed simp
qed simp

section \<open>Properties\<close>

text \<open>C27: A decoded body is the whole decoded stream or nothing: for each implemented encoding,
  when the decoder of that format yields some sequence of reads and then stops, the result is
  \<^verbatim>\<open>TooLarge\<close> if the reads together pass the limit; otherwise it is their concatenation when the
  decoder stopped at the end of its stream, and \<^verbatim>\<open>Invalid\<close> when it stopped with an error, whatever was
  decoded before; however the decoder cuts its output. An encoding without a decoder is
  \<^verbatim>\<open>Unsupported\<close>. The reads together are assumed to be below \<open>2 ^ 64\<close> bytes; a fuel above their number
  is enough.\<close>

theorem decode_whole_or_too_large:
  assumes "decoder_of dc encoding body = Some r" and "yields (dc_read dc) r cs ended"
    and "length cs < fuel" and "length (concat cs) < 2 ^ 64"
  shows "decode dc fuel encoding body limit =
      Some (if over_limit limit (length (concat cs)) then Inl TooLarge
            else if ended then Inr (concat cs) else Inl Invalid) \<and>
    (\<forall>other. decoder_of dc other body = None \<longrightarrow> decode dc fuel other body limit = Some (Inl Unsupported))"
proof (intro conjI allI impI)
  have res: "(case dec.feed_all limit [] cs of
        None \<Rightarrow> Inl TooLarge | Some out' \<Rightarrow> if ended then Inr out' else Inl Invalid) =
      (if over_limit limit (length (concat cs)) then Inl TooLarge else if ended then Inr (concat cs) else Inl Invalid)"
    using dec.feed_all_None [of "[]" cs limit] assms(4) feed_all_contents [of limit "[]" cs]
    by (cases limit) (auto split: option.splits)
  show "decode dc fuel encoding body limit =
      Some (if over_limit limit (length (concat cs)) then Inl TooLarge
            else if ended then Inr (concat cs) else Inl Invalid)"
    using read_bounded_yields [OF assms(2,3), of limit "[]"] assms(1)
    by (simp add: decode_decoder_of res)
qed (simp add: decode_decoder_of)

text \<open>C28: A zip bomb is harmless: with a body limit every decode returns after at most the limit
  plus two reads, even from a decoder that never ends, and what it returns is within the
  limit.\<close>

theorem decode_terminates_bounded:
  assumes "l + 2 \<le> fuel"
  shows "\<exists>res. decode dc fuel encoding body (Some l) = Some res \<and>
               (case res of Inr out \<Rightarrow> length out \<le> l | Inl _ \<Rightarrow> True)"
proof -
  have ends: "\<exists>res. read_bounded (dc_read dc) (Some l) fuel r [] = Some res" for r
    using assms by (intro read_bounded_ends) simp_all
  have fits: "length out \<le> l" if "read_bounded (dc_read dc) (Some l) fuel r [] = Some (Inr out)" for r out
    using read_bounded_fits [OF that] by simp
  have "\<exists>res. decode dc fuel encoding body (Some l) = Some res"
    using ends by (auto simp: decode_def)
  then obtain res where res: "decode dc fuel encoding body (Some l) = Some res" by blast
  have "length out \<le> l" if "res = Inr out" for out
    using res that fits by (auto simp: decode_def split: if_splits)
  with res show ?thesis by (auto split: sum.splits)
qed

text \<open>A decoder that repeats one byte for ever, as a bomb would, one that copies its input, and one
  that gives its input in one read and then fails.\<close>

definition bomb_decoders :: "bytes decoders" where
  "bomb_decoders =
     \<lparr>dc_gzip = (\<lambda>b. b), dc_zlib = (\<lambda>b. b), dc_brotli = (\<lambda>b. b), dc_read = (\<lambda>r. Some ([0], r))\<rparr>"

definition copy_decoders :: "bytes decoders" where
  "copy_decoders =
     \<lparr>dc_gzip = (\<lambda>b. b), dc_zlib = (\<lambda>b. b), dc_brotli = (\<lambda>b. b),
      dc_read = (\<lambda>r. Some (take 2 r, drop 2 r))\<rparr>"

definition broken_decoders :: "bytes decoders" where
  "broken_decoders =
     \<lparr>dc_gzip = (\<lambda>b. b), dc_zlib = (\<lambda>b. b), dc_brotli = (\<lambda>b. b),
      dc_read = (\<lambda>r. if r = [] then None else Some (r, []))\<rparr>"

theorem decode_terminates_bounded_witness:
  "\<exists>res. decode bomb_decoders 6 ''br'' [1] (Some 4) = Some res \<and>
         (case res of Inr out \<Rightarrow> length out \<le> 4 | Inl _ \<Rightarrow> True)"
  by (rule decode_terminates_bounded) simp

theorem decode_whole_or_too_large_witness:
  "decode copy_decoders 4 ''gzip'' [1, 2, 3] (Some 3) = Some (Inr [1, 2, 3]) \<and>
   decode copy_decoders 4 ''deflate'' [1, 2, 3] (Some 2) = Some (Inl TooLarge) \<and>
   decode broken_decoders 4 ''br'' [1, 2, 3] (Some 3) = Some (Inl Invalid)"
  using decode_whole_or_too_large
      [of copy_decoders "''gzip''" "[1, 2, 3]" "[1, 2, 3]" "[[1, 2], [3]]" True 4 "Some 3"]
    decode_whole_or_too_large
      [of copy_decoders "''deflate''" "[1, 2, 3]" "[1, 2, 3]" "[[1, 2], [3]]" True 4 "Some 2"]
    decode_whole_or_too_large
      [of broken_decoders "''br''" "[1, 2, 3]" "[1, 2, 3]" "[[1, 2, 3]]" False 4 "Some 3"]
  by (simp add: copy_decoders_def broken_decoders_def decoder_of_def)

end
