(* ===== verification/Schema.thy ===== *)
theory Schema
  imports Wire
begin

text \<open>
  Native request validation (\<^verbatim>\<open>src/schema.rs\<close>). The libraries \<^verbatim>\<open>serde_json\<close> and \<^verbatim>\<open>jsonschema\<close> and the
  reading of an \<^verbatim>\<open>f64\<close> are arguments, the record \<open>json_ops\<close>: parsing and printing of documents,
  compilation of a schema, and the errors a validator reports for an instance (the pointer to
  the offending value, the message and the debug text of its kind). A JSON object is the list
  of its entries without duplicate keys.
\<close>

section \<open>Definitions\<close>

datatype json =
    JNull | JBool bool | JInt int | JFloat string | JStr string | JArr "json list"
  | JObj "(string \<times> json) list"

record 'v json_ops =
  jo_from_str :: "string \<Rightarrow> string + json"
  jo_show :: "json \<Rightarrow> string"
  jo_validator_for :: "json \<Rightarrow> string + 'v"
  jo_iter_errors :: "'v \<Rightarrow> json \<Rightarrow> (string \<times> string \<times> string) list"
  jo_parse_f64 :: "string \<Rightarrow> json option"

record 'v compiled =
  cp_validator :: 'v
  cp_schema :: json

record 'v leaf_schema =
  sc_body :: "'v option"
  sc_query :: "'v compiled option"
  sc_params :: "'v compiled option"

record issue =
  is_location :: string
  is_path :: string
  is_message :: string
  is_code :: string

record schema_def =
  sd_body :: "string option"
  sd_query :: "string option"
  sd_params :: "string option"

record validated =
  va_body :: "string option"
  va_query :: "string option"
  va_params :: "string option"

definition compile :: "'v json_ops \<Rightarrow> string option \<Rightarrow> string + 'v compiled option" where
  "compile J src =
     (case src of
        None \<Rightarrow> Inr None
      | Some s \<Rightarrow>
          (case jo_from_str J s of
             Inl e \<Rightarrow> Inl (''invalid JSON Schema: '' @ e)
           | Inr schema \<Rightarrow>
               (case jo_validator_for J schema of
                  Inl e \<Rightarrow> Inl (''schema compilation: '' @ e)
                | Inr v \<Rightarrow> Inr (Some \<lparr>cp_validator = v, cp_schema = schema\<rparr>))))"

definition schema_build :: "'v json_ops \<Rightarrow> schema_def \<Rightarrow> string + 'v leaf_schema" where
  "schema_build J d =
     (case compile J (sd_body d) of
        Inl e \<Rightarrow> Inl e
      | Inr b \<Rightarrow>
          (case compile J (sd_query d) of
             Inl e \<Rightarrow> Inl e
           | Inr q \<Rightarrow>
               (case compile J (sd_params d) of
                  Inl e \<Rightarrow> Inl e
                | Inr p \<Rightarrow> Inr \<lparr>sc_body = map_option cp_validator b, sc_query = q, sc_params = p\<rparr>)))"

definition schema_is_empty :: "'v leaf_schema \<Rightarrow> bool" where
  "schema_is_empty s = (sc_body s = None \<and> sc_query s = None \<and> sc_params s = None)"

definition schema_has_body :: "'v leaf_schema \<Rightarrow> bool" where
  "schema_has_body s = (sc_body s \<noteq> None)"

text \<open>\<^verbatim>\<open>Value::get\<close> and \<^verbatim>\<open>Map::insert\<close>.\<close>

definition json_get :: "json \<Rightarrow> string \<Rightarrow> json option" where
  "json_get v k = (case v of JObj es \<Rightarrow> map_of es k | _ \<Rightarrow> None)"

fun obj_insert :: "string \<Rightarrow> json \<Rightarrow> (string \<times> json) list \<Rightarrow> (string \<times> json) list" where
  "obj_insert k v [] = [(k, v)]"
| "obj_insert k v ((k', v') # es) = (if k' = k then (k, v) # es else (k', v') # obj_insert k v es)"

definition schema_type :: "json option \<Rightarrow> string option" where
  "schema_type prop =
     (case prop of
        None \<Rightarrow> None
      | Some s \<Rightarrow> (case json_get s ''type'' of Some (JStr t) \<Rightarrow> Some t | _ \<Rightarrow> None))"

definition coerce_scalar :: "'v json_ops \<Rightarrow> string \<Rightarrow> json option \<Rightarrow> json" where
  "coerce_scalar J raw prop =
     (case schema_type prop of
        None \<Rightarrow> JStr raw
      | Some ty \<Rightarrow>
          if ty = ''integer'' then
            (case parse_i64 raw of Some n \<Rightarrow> JInt n | None \<Rightarrow> JStr raw)
          else if ty = ''number'' then
            (case jo_parse_f64 J raw of Some x \<Rightarrow> x | None \<Rightarrow> JStr raw)
          else if ty = ''boolean'' then
            (if raw = ''true'' then JBool True else if raw = ''false'' then JBool False else JStr raw)
          else JStr raw)"

definition schema_prop :: "json \<Rightarrow> string \<Rightarrow> json option" where
  "schema_prop schema k =
     (case json_get schema ''properties'' of None \<Rightarrow> None | Some p \<Rightarrow> json_get p k)"

definition coerce_pairs :: "'v json_ops \<Rightarrow> (string \<times> string) list \<Rightarrow> json \<Rightarrow> (string \<times> json) list" where
  "coerce_pairs J pairs schema =
     foldl (\<lambda>m (k, v). obj_insert k (coerce_scalar J v (schema_prop schema k)) m) [] pairs"

definition coerce_query :: "'v json_ops \<Rightarrow> kv_pair list \<Rightarrow> json \<Rightarrow> json" where
  "coerce_query J pairs schema = JObj (coerce_pairs J (map (\<lambda>p. (kv_key p, kv_value p)) pairs) schema)"

definition coerce_params :: "'v json_ops \<Rightarrow> (string \<times> string) list \<Rightarrow> json \<Rightarrow> json" where
  "coerce_params J params schema = JObj (coerce_pairs J params schema)"

text \<open>\<^verbatim>\<open>trim_start_matches('/').replace('/', ".")\<close>.\<close>

definition pointer_to_path :: "string \<Rightarrow> string" where
  "pointer_to_path ptr =
     map (\<lambda>c. if c = CHR ''/'' then CHR ''.'' else c) (dropWhile (\<lambda>c. c = CHR ''/'') ptr)"

definition kind_code :: "string \<Rightarrow> string" where
  "kind_code dbg =
     to_lowercase (takeWhile (\<lambda>c. c \<noteq> CHR '' '' \<and> c \<noteq> CHR ''('' \<and> c \<noteq> CHR ''{'') dbg)"

definition collect :: "'v json_ops \<Rightarrow> 'v \<Rightarrow> json \<Rightarrow> string \<Rightarrow> issue list" where
  "collect J v inst location =
     map (\<lambda>(ptr, msg, kind).
            \<lparr>is_location = location, is_path = pointer_to_path ptr, is_message = msg,
             is_code = kind_code kind\<rparr>)
       (jo_iter_errors J v inst)"

definition body_issue :: "string \<Rightarrow> string \<Rightarrow> issue" where
  "body_issue message code =
     \<lparr>is_location = ''body'', is_path = [], is_message = message, is_code = code\<rparr>"

text \<open>The three blocks of \<^verbatim>\<open>validate\<close>, each with the issues it adds and the value it stores.\<close>

definition validate_query :: "'v json_ops \<Rightarrow> 'v leaf_schema \<Rightarrow> kv_pair list \<Rightarrow> issue list \<times> string option" where
  "validate_query J s query =
     (case sc_query s of
        None \<Rightarrow> ([], None)
      | Some c \<Rightarrow>
          let value = coerce_query J query (cp_schema c)
          in (collect J (cp_validator c) value ''query'', Some (jo_show J value)))"

definition validate_params :: "'v json_ops \<Rightarrow> 'v leaf_schema \<Rightarrow> (string \<times> string) list \<Rightarrow> issue list \<times> string option" where
  "validate_params J s params =
     (case sc_params s of
        None \<Rightarrow> ([], None)
      | Some c \<Rightarrow>
          let value = coerce_params J params (cp_schema c)
          in (collect J (cp_validator c) value ''params'', Some (jo_show J value)))"

definition validate_body :: "'v json_ops \<Rightarrow> 'v leaf_schema \<Rightarrow> string option \<Rightarrow> issue list \<times> string option" where
  "validate_body J s body =
     (case sc_body s of
        None \<Rightarrow> ([], None)
      | Some v \<Rightarrow>
          (case body of
             None \<Rightarrow> ([body_issue ''body is required'' ''required''], None)
           | Some bytes \<Rightarrow>
               (case jo_from_str J bytes of
                  Inl e \<Rightarrow> ([body_issue (''invalid JSON: '' @ e) ''invalid_json''], None)
                | Inr value \<Rightarrow> (collect J v value ''body'', Some (jo_show J value)))))"

definition validate :: "'v json_ops \<Rightarrow> 'v leaf_schema \<Rightarrow> kv_pair list \<Rightarrow> (string \<times> string) list \<Rightarrow> string option
    \<Rightarrow> issue list + validated" where
  "validate J s query params body =
     (case validate_query J s query of (iq, oq) \<Rightarrow>
      case validate_params J s params of (ip, op) \<Rightarrow>
      case validate_body J s body of (ib, ob) \<Rightarrow>
        let issues = iq @ ip @ ib
        in if issues = [] then Inr \<lparr>va_body = ob, va_query = oq, va_params = op\<rparr> else Inl issues)"

definition errors_json :: "issue list \<Rightarrow> json" where
  "errors_json issues =
     JObj [(''error'', JStr ''validation''),
           (''issues'', JArr (map (\<lambda>i. JObj [(''in'', JStr (is_location i)), (''path'', JStr (is_path i)),
                (''message'', JStr (is_message i)), (''code'', JStr (is_code i))]) issues))]"

definition errors_body :: "'v json_ops \<Rightarrow> issue list \<Rightarrow> string" where
  "errors_body J issues = jo_show J (errors_json issues)"

section \<open>Lemmas\<close>

lemma map_of_obj_insert [simp]: "map_of (obj_insert k v es) = (map_of es)(k \<mapsto> v)"
  by (induction k v es rule: obj_insert.induct) auto

lemma keys_obj_insert: "fst ` set (obj_insert k v es) = insert k (fst ` set es)"
  by (induction k v es rule: obj_insert.induct) auto

lemma distinct_obj_insert: "distinct (map fst es) \<Longrightarrow> distinct (map fst (obj_insert k v es))"
proof (induction k v es rule: obj_insert.induct)
  case (2 k v k' v' es)
  then show ?case using keys_obj_insert [of k v es] by auto
qed simp

text \<open>The last pair with a key wins.\<close>

lemma coerce_pairs_lookup:
  "map_of (coerce_pairs J pairs schema) k =
     map_option (\<lambda>v. coerce_scalar J v (schema_prop schema k)) (map_of (rev pairs) k)"
  unfolding coerce_pairs_def
  by (induction pairs rule: rev_induct) (auto split: option.splits)

lemma coerce_pairs_distinct: "distinct (map fst (coerce_pairs J pairs schema))"
  unfolding coerce_pairs_def
  by (induction pairs rule: rev_induct) (auto simp: distinct_obj_insert)

lemma collect_Nil [simp]: "collect J v inst loc = [] \<longleftrightarrow> jo_iter_errors J v inst = []"
  by (simp add: collect_def)

section \<open>Properties\<close>

text \<open>C21: Validation is sound and complete with respect to the route's schemas: a request
  passes exactly when the coerced query, the coerced parameters and the parsed body each have
  no error under their schema, where the route has one (a body being required when it has a
  body schema), and then the values handed on are exactly the validated documents; otherwise
  the answer lists at least one issue, each naming one of the three places.\<close>

theorem validate_sound_complete:
  "(case validate J s query params body of
      Inr out \<Rightarrow>
        (case sc_query s of
           None \<Rightarrow> va_query out = None
         | Some c \<Rightarrow> jo_iter_errors J (cp_validator c) (coerce_query J query (cp_schema c)) = [] \<and>
                    va_query out = Some (jo_show J (coerce_query J query (cp_schema c)))) \<and>
        (case sc_params s of
           None \<Rightarrow> va_params out = None
         | Some c \<Rightarrow> jo_iter_errors J (cp_validator c) (coerce_params J params (cp_schema c)) = [] \<and>
                    va_params out = Some (jo_show J (coerce_params J params (cp_schema c)))) \<and>
        (case sc_body s of
           None \<Rightarrow> va_body out = None
         | Some v \<Rightarrow> \<exists>bytes value. body = Some bytes \<and> jo_from_str J bytes = Inr value \<and>
                    jo_iter_errors J v value = [] \<and> va_body out = Some (jo_show J value))
    | Inl issues \<Rightarrow>
        issues \<noteq> [] \<and> is_location ` set issues \<subseteq> {''query'', ''params'', ''body''} \<and>
        ((\<exists>c. sc_query s = Some c \<and> jo_iter_errors J (cp_validator c) (coerce_query J query (cp_schema c)) \<noteq> []) \<or>
         (\<exists>c. sc_params s = Some c \<and> jo_iter_errors J (cp_validator c) (coerce_params J params (cp_schema c)) \<noteq> []) \<or>
         (\<exists>v. sc_body s = Some v \<and>
            (case body of None \<Rightarrow> True
             | Some bytes \<Rightarrow> (case jo_from_str J bytes of Inl _ \<Rightarrow> True | Inr value \<Rightarrow> jo_iter_errors J v value \<noteq> [])))))"
  by (auto simp: validate_def validate_query_def validate_params_def validate_body_def Let_def
      body_issue_def collect_def split: option.splits sum.splits)

text \<open>Coercion follows the schema and loses nothing: in the coerced query each key occurs once
  and has the value of its last pair; a printed 64-bit integer under an integer property
  becomes that integer; and a text that does not read as its property's type stays that
  very text, for the validator to report.\<close>

theorem coerce_query_spec:
  "(\<exists>es. coerce_query J pairs schema = JObj es \<and> distinct (map fst es) \<and>
      (\<forall>k. map_of es k = map_option (\<lambda>v. coerce_scalar J v (schema_prop schema k))
             (map_of (rev (map (\<lambda>p. (kv_key p, kv_value p)) pairs)) k))) \<and>
   (schema_type prop = Some ''integer'' \<longrightarrow>
      (\<forall>n \<in> {- (2 ^ 63) ..< 2 ^ 63}. coerce_scalar J (show_int n) prop = JInt n) \<and>
      (parse_i64 raw = None \<longrightarrow> coerce_scalar J raw prop = JStr raw)) \<and>
   (schema_type prop = Some ''boolean'' \<longrightarrow> raw \<notin> {''true'', ''false''} \<longrightarrow>
      coerce_scalar J raw prop = JStr raw) \<and>
   (schema_type prop = None \<longrightarrow> coerce_scalar J raw prop = JStr raw)"
proof -
  have "coerce_scalar J (show_int n) prop = JInt n"
    if "schema_type prop = Some ''integer''" "n \<in> {- (2 ^ 63) ..< 2 ^ 63}" for n
    using that parse_i64_show [of n] by (simp add: coerce_scalar_def)
  moreover have "\<exists>es. coerce_query J pairs schema = JObj es \<and> distinct (map fst es) \<and>
      (\<forall>k. map_of es k = map_option (\<lambda>v. coerce_scalar J v (schema_prop schema k))
             (map_of (rev (map (\<lambda>p. (kv_key p, kv_value p)) pairs)) k))"
    by (simp add: coerce_query_def coerce_pairs_distinct coerce_pairs_lookup)
  ultimately show ?thesis by (simp add: coerce_scalar_def)
qed

text \<open>A library that knows no document and no schema errors, enough for the coercions.\<close>

definition plain_json :: "unit json_ops" where
  "plain_json =
     \<lparr>jo_from_str = (\<lambda>s. Inr (JStr s)), jo_show = (\<lambda>_. []), jo_validator_for = (\<lambda>_. Inr ()),
      jo_iter_errors = (\<lambda>_ _. []), jo_parse_f64 = (\<lambda>_. None)\<rparr>"

definition integer_prop :: json where
  "integer_prop = JObj [(''type'', JStr ''integer'')]"

theorem coerce_query_spec_witness:
  "coerce_scalar plain_json (show_int (-42)) (Some integer_prop) = JInt (-42) \<and>
   coerce_scalar plain_json ''4x'' (Some integer_prop) = JStr ''4x''"
proof -
  have ty: "schema_type (Some integer_prop) = Some ''integer''"
    by (simp add: schema_type_def integer_prop_def json_get_def)
  have "parse_i64 ''4x'' = None" by code_simp
  with coerce_query_spec [of plain_json "[]" JNull "Some integer_prop" "''4x''"] ty show ?thesis by auto
qed

end
