(* ===== verification/Listener.thy ===== *)
theory Listener
  imports Prelude
begin

text \<open>
  Binding sockets (\<^verbatim>\<open>src/listener.rs\<close>). The kernel is an argument: which system call fails, with which
  error. \<^verbatim>\<open>bind_tcp\<close> is the sequence of its calls, \<^verbatim>\<open>bind_unix\<close> works on a map from paths to kinds of files,
  without symbolic links.
\<close>

section \<open>Definitions\<close>

record socket_options =
  so_backlog :: int
  so_reuse_port :: bool
  so_nodelay :: bool

definition default_socket_options :: socket_options where
  "default_socket_options = \<lparr>so_backlog = 1024, so_reuse_port = False, so_nodelay = True\<rparr>"

subsection \<open>TCP\<close>

datatype sys_call = NewSocket bool | SetReuseAddress | SetReusePort | BindAddr string | Listen int | SetNonblocking

text \<open>Calls run in order until one fails; the result has the calls that were made.\<close>

fun run_calls :: "(sys_call \<Rightarrow> string option) \<Rightarrow> sys_call list \<Rightarrow> sys_call list \<times> (string + unit)" where
  "run_calls os_err [] = ([], Inr ())"
| "run_calls os_err (c # cs) =
     (case os_err c of
        Some err \<Rightarrow> ([c], Inl err)
      | None \<Rightarrow> (case run_calls os_err cs of (made, r) \<Rightarrow> (c # made, r)))"

text \<open>\<open>literal\<close> parses an address, \<open>resolve\<close> looks a host up; both give the address and whether it is IPv6.\<close>

definition bind_tcp ::
  "(string \<Rightarrow> (string \<times> bool) option) \<Rightarrow> (string \<Rightarrow> string + (string \<times> bool) list) \<Rightarrow> (sys_call \<Rightarrow> string option)
   \<Rightarrow> string \<Rightarrow> nat \<Rightarrow> socket_options \<Rightarrow> sys_call list \<times> (string + unit)" where
  "bind_tcp literal resolve os_err host port opts =
     (let addr = (case literal (host @ '':'' @ show_nat port) of
                    Some a \<Rightarrow> Inr a
                  | None \<Rightarrow> (case resolve host of
                               Inl err \<Rightarrow> Inl err
                             | Inr [] \<Rightarrow> Inl ''address does not resolve''
                             | Inr (a # _) \<Rightarrow> Inr a))
      in case addr of
           Inl err \<Rightarrow> ([], Inl err)
         | Inr (a, ipv6) \<Rightarrow>
             run_calls os_err
               ([NewSocket ipv6, SetReuseAddress] @ (if so_reuse_port opts then [SetReusePort] else [])
                @ [BindAddr a, Listen (so_backlog opts), SetNonblocking]))"

subsection \<open>Unix sockets\<close>

datatype file_kind = SocketFile | OtherFile

text \<open>\<open>meta_err\<close>, \<open>remove_err\<close>, \<open>bind_err\<close> and \<open>nonblocking_err\<close> are failures of the calls on the path, apart
  from the absence of the file; binding to a path that exists fails.\<close>

record unix_faults =
  uf_meta :: "string option"
  uf_remove :: "string option"
  uf_bind :: "string option"
  uf_nonblocking :: "string option"

definition unix_bind :: "unix_faults \<Rightarrow> string \<Rightarrow> (string \<Rightarrow> file_kind option) \<Rightarrow> (string \<Rightarrow> file_kind option) \<times> (string + unit)" where
  "unix_bind uf path fs =
     (case uf_bind uf of
        Some err \<Rightarrow> (fs, Inl err)
      | None \<Rightarrow>
          if fs path \<noteq> None then (fs, Inl ''address in use'')
          else case uf_nonblocking uf of
                 Some err \<Rightarrow> (fs(path \<mapsto> SocketFile), Inl err)
               | None \<Rightarrow> (fs(path \<mapsto> SocketFile), Inr ()))"

definition bind_unix :: "unix_faults \<Rightarrow> string \<Rightarrow> (string \<Rightarrow> file_kind option) \<Rightarrow> (string \<Rightarrow> file_kind option) \<times> (string + unit)" where
  "bind_unix uf path fs =
     (case uf_meta uf of
        Some err \<Rightarrow> (fs, Inl err)
      | None \<Rightarrow>
          (case fs path of
             None \<Rightarrow> unix_bind uf path fs
           | Some OtherFile \<Rightarrow> (fs, Inl (path @ '': file exists and is not a socket''))
           | Some SocketFile \<Rightarrow>
               (case uf_remove uf of
                  Some err \<Rightarrow> (fs, Inl err)
                | None \<Rightarrow> unix_bind uf path (fs(path := None)))))"

section \<open>Lemmas\<close>

lemma run_calls_ok: "snd (run_calls os_err cs) = Inr () \<longleftrightarrow> (\<forall>c \<in> set cs. os_err c = None)"
  by (induction cs) (auto split: option.splits prod.splits)

lemma run_calls_all: "snd (run_calls os_err cs) = Inr () \<Longrightarrow> fst (run_calls os_err cs) = cs"
  by (induction cs) (auto split: option.splits prod.splits)

section \<open>Properties\<close>

text \<open>Listening on a Unix path never destroys anything but a stale socket. Whatever fails, no other path
  changes and a file that is not a socket is left alone and reported; success leaves a socket at the
  path, and a stale socket alone is never the reason of a failure.\<close>

theorem bind_unix_safe:
  assumes "bind_unix uf path fs = (fs', r)"
  shows "\<forall>p. p \<noteq> path \<longrightarrow> fs' p = fs p"
    and "fs path = Some OtherFile \<longrightarrow> fs' = fs \<and> (\<exists>err. r = Inl err)"
    and "r = Inr () \<longrightarrow> fs' path = Some SocketFile"
    and "uf = \<lparr>uf_meta = None, uf_remove = None, uf_bind = None, uf_nonblocking = None\<rparr> \<longrightarrow> fs path \<noteq> Some OtherFile \<longrightarrow> r = Inr ()"
  using assms
  by (auto simp: bind_unix_def unix_bind_def split: option.splits file_kind.splits if_splits)

theorem bind_unix_safe_witness:
  "\<exists>fs'. bind_unix \<lparr>uf_meta = None, uf_remove = None, uf_bind = None, uf_nonblocking = None\<rparr> ''/run/a'' [''/run/a'' \<mapsto> SocketFile] =
     (fs', Inr ()) \<and> fs' ''/run/a'' = Some SocketFile"
proof -
  let ?u = "\<lparr>uf_meta = None, uf_remove = None, uf_bind = None, uf_nonblocking = None\<rparr>"
  obtain fs' r where b: "bind_unix ?u ''/run/a'' [''/run/a'' \<mapsto> SocketFile] = (fs', r)"
    by (cases "bind_unix ?u ''/run/a'' [''/run/a'' \<mapsto> SocketFile]")
  from bind_unix_safe(3,4) [OF b] b show ?thesis by simp
qed

end
