(* ===== verification/Tls.thy ===== *)
theory Tls
  imports Prelude
begin

text \<open>
  The TLS acceptor (\<^verbatim>\<open>src/tls.rs\<close>). The PEM reader and the checks of rustls are third-party: the record
  \<open>rustls\<close> gives what they yield on a text. Certificates and keys are the strings they decode to.
\<close>

section \<open>Definitions\<close>

record rustls =
  rl_certs :: "string \<Rightarrow> (string + string) list"
  rl_private_key :: "string \<Rightarrow> string + string option"
  rl_single_cert :: "string list \<Rightarrow> string \<Rightarrow> string option"

record tls_acceptor =
  ta_certs :: "string list"
  ta_key :: string
  ta_alpn :: "string list"

text \<open>\<^verbatim>\<open>collect::<Result<_, _>>()\<close>: the first error, or all values.\<close>

fun collect_results :: "('e + 'a) list \<Rightarrow> 'e + 'a list" where
  "collect_results [] = Inr []"
| "collect_results (Inl e # rs) = Inl e"
| "collect_results (Inr x # rs) = and_then (collect_results rs) (\<lambda>xs. Inr (x # xs))"

text \<open>\<^const>\<open>rl_single_cert\<close> is the error of \<^verbatim>\<open>with_single_cert\<close>, if there is one.\<close>

definition build_acceptor :: "rustls \<Rightarrow> string \<Rightarrow> string \<Rightarrow> string + tls_acceptor" where
  "build_acceptor R cert_pem key_pem =
     and_then (map_err (\<lambda>e. ''reading certificate: '' @ e) (collect_results (rl_certs R cert_pem))) (\<lambda>certs.
     and_then (if certs = [] then Inl ''no certificate found in PEM'' else Inr ()) (\<lambda>_.
     and_then (map_err (\<lambda>e. ''reading key: '' @ e) (rl_private_key R key_pem)) (\<lambda>key.
     and_then (case key of None \<Rightarrow> Inl ''no private key found in PEM'' | Some k \<Rightarrow> Inr k) (\<lambda>key.
       case rl_single_cert R certs key of
         Some e \<Rightarrow> Inl (''TLS config: '' @ e)
       | None \<Rightarrow> Inr \<lparr>ta_certs = certs, ta_key = key, ta_alpn = [''h2'', ''http/1.1'']\<rparr>))))"

section \<open>Lemmas\<close>

lemma collect_results_Inr: "collect_results rs = Inr xs \<longleftrightarrow> rs = map Inr xs"
  by (induction rs arbitrary: xs rule: collect_results.induct) (auto simp: and_then_Inr)

lemma collect_results_map [simp]: "collect_results (map Inr xs) = Inr xs"
  by (simp add: collect_results_Inr)

text \<open>There is an acceptor exactly when the whole certificate text reads as a chain that is not empty, the key
  text has a key, and rustls accepts the pair; it then serves that chain and offers HTTP/2 before HTTP/1.1.\<close>

lemma build_acceptor_Inr:
  "build_acceptor R cert_pem key_pem = Inr a \<longleftrightarrow>
     rl_certs R cert_pem = map Inr (ta_certs a) \<and> ta_certs a \<noteq> [] \<and>
     rl_private_key R key_pem = Inr (Some (ta_key a)) \<and> rl_single_cert R (ta_certs a) (ta_key a) = None \<and>
     ta_alpn a = [''h2'', ''http/1.1'']"
    (is "?l \<longleftrightarrow> ?r")
proof
  assume ?l
  then obtain certs key where "rl_certs R cert_pem = map Inr certs" "certs \<noteq> []"
    "rl_private_key R key_pem = Inr (Some key)" "rl_single_cert R certs key = None"
    "a = \<lparr>ta_certs = certs, ta_key = key, ta_alpn = [''h2'', ''http/1.1'']\<rparr>"
    unfolding build_acceptor_def and_then_Inr map_err_Inr collect_results_Inr
    by (fastforce split: option.splits if_splits)
  then show ?r by simp
next
  assume ?r
  then show ?l by (cases a) (simp add: build_acceptor_def map_err_def)
qed

text \<open>A reader for the witnesses: one text is one certificate or one key, the empty text has none.\<close>

definition plain_rustls :: rustls where
  "plain_rustls =
     \<lparr>rl_certs = (\<lambda>s. if s = [] then [] else [Inr s]), rl_private_key = (\<lambda>s. Inr (if s = [] then None else Some s)),
      rl_single_cert = (\<lambda>_ _. None)\<rparr>"

end
