(* ===== verification/Access_Log.thy ===== *)
theory Access_Log
  imports Http
begin

text \<open>
  The queue of the access log (\<^verbatim>\<open>access_log\<close>, \<^verbatim>\<open>access_log_tx\<close> of \<^verbatim>\<open>src/server.rs\<close>): a bounded channel to a
  writer thread, a counter of the lines that did not fit, and the warnings that report them. The
  tasks that log and the writer interleave as steps. Lines and the counters of lines dropped and
  reported are the state; the lines accepted and what was written are kept beside it.
\<close>

section \<open>Definitions\<close>

definition ACCESS_LOG_QUEUE :: nat where "ACCESS_LOG_QUEUE = 8192"

datatype out_line = AccessLine string | DroppedWarning u64

record log_state =
  lg_queue :: "string list"
  lg_dropped :: u64
  lg_reported :: u64
  lg_alive :: bool
  lg_out :: "out_line list"

definition log_start :: log_state where
  "log_start = \<lparr>lg_queue = [], lg_dropped = 0, lg_reported = 0, lg_alive = True, lg_out = []\<rparr>"

text \<open>\<^verbatim>\<open>try_send\<close> fails when the queue is full or the writer is gone; the failure is counted.\<close>

definition log_line :: "string \<Rightarrow> log_state \<Rightarrow> log_state" where
  "log_line line s =
     (if lg_alive s \<and> length (lg_queue s) < ACCESS_LOG_QUEUE then s\<lparr>lg_queue := lg_queue s @ [line]\<rparr>
      else s\<lparr>lg_dropped := lg_dropped s + 1\<rparr>)"

text \<open>One turn of the writer; \<open>broken\<close> says that \<^verbatim>\<open>stdout\<close> is gone, which ends it and its channel.\<close>

definition write_line :: "bool \<Rightarrow> log_state \<Rightarrow> log_state" where
  "write_line broken s =
     (case lg_queue s of
        [] \<Rightarrow> s
      | line # rest \<Rightarrow>
          if broken then s\<lparr>lg_alive := False, lg_queue := []\<rparr>
          else let s = s\<lparr>lg_queue := rest, lg_out := lg_out s @ [AccessLine line]\<rparr>
               in if lg_dropped s > lg_reported s
                  then s\<lparr>lg_out := lg_out s @ [DroppedWarning (lg_dropped s - lg_reported s)], lg_reported := lg_dropped s\<rparr>
                  else s)"

datatype log_event = Logged string | WriterTurn

fun log_step :: "log_state \<Rightarrow> log_event \<Rightarrow> log_state" where
  "log_step s (Logged line) = log_line line s"
| "log_step s WriterTurn = (if lg_alive s then write_line False s else s)"

section \<open>Lemmas\<close>

fun out_access :: "out_line list \<Rightarrow> string list" where
  "out_access [] = []"
| "out_access (AccessLine l # os) = l # out_access os"
| "out_access (DroppedWarning _ # os) = out_access os"

fun out_dropped :: "out_line list \<Rightarrow> u64" where
  "out_dropped [] = 0"
| "out_dropped (AccessLine _ # os) = out_dropped os"
| "out_dropped (DroppedWarning n # os) = n + out_dropped os"

lemma out_append [simp]:
  "out_access (a @ b) = out_access a @ out_access b" "out_dropped (a @ b) = out_dropped a + out_dropped b"
  by (induction a rule: out_access.induct) (simp_all add: add.assoc)

fun logged :: "log_event list \<Rightarrow> string list" where
  "logged [] = []"
| "logged (Logged l # es) = l # logged es"
| "logged (WriterTurn # es) = logged es"

lemma logged_append [simp]: "logged (a @ b) = logged a @ logged b"
  by (induction a rule: logged.induct) simp_all

definition log_inv :: "log_event list \<Rightarrow> log_state \<Rightarrow> bool" where
  "log_inv es s \<longleftrightarrow> lg_alive s \<and> length (lg_queue s) \<le> ACCESS_LOG_QUEUE \<and>
     subseq (out_access (lg_out s) @ lg_queue s) (logged es) \<and>
     of_nat (length (logged es)) = of_nat (length (out_access (lg_out s) @ lg_queue s)) + lg_dropped s \<and>
     out_dropped (lg_out s) = lg_reported s"

lemma log_inv_step: "log_inv es s \<Longrightarrow> log_inv (es @ [e]) (log_step s e)"
proof (cases e)
  case (Logged l)
  assume inv: "log_inv es s"
  have 1: "subseq ((out_access (lg_out s) @ lg_queue s) @ [l]) (logged es @ [l])"
    using inv by (intro list_emb_append_mono) (auto simp: log_inv_def)
  have 2: "subseq (out_access (lg_out s) @ lg_queue s) (logged es @ [l])"
    using inv by (auto simp: log_inv_def intro: list_emb_prefix)
  show ?thesis
    using inv 1 2 by (auto simp: Logged log_line_def log_inv_def)
next
  case WriterTurn
  assume "log_inv es s"
  then show ?thesis
    by (cases "lg_queue s") (auto simp: WriterTurn write_line_def log_inv_def Let_def)
qed

lemma log_inv_run: "log_inv es (foldl log_step log_start es)"
proof (induction es rule: rev_induct)
  case (snoc e es)
  then show ?case using log_inv_step by simp
qed (simp add: log_inv_def log_start_def)

section \<open>Properties\<close>

text \<open>The access log never blocks, never reorders and never loses a line in silence. In every
  interleaving of the requests that log and a writer that can write, the lines written and queued are,
  in order, among the lines logged; the queue stays within its bound; the rest of the lines are in the
  counter; and the warnings written report exactly the drops the writer has seen.\<close>

theorem access_log_accounts:
  "let s = foldl log_step log_start es in
     length (lg_queue s) \<le> ACCESS_LOG_QUEUE \<and>
     subseq (out_access (lg_out s) @ lg_queue s) (logged es) \<and>
     of_nat (length (logged es)) = of_nat (length (out_access (lg_out s) @ lg_queue s)) + lg_dropped s \<and>
     out_dropped (lg_out s) = lg_reported s"
  using log_inv_run [of es] by (simp add: log_inv_def Let_def)

end
