(* ===== verification/Server.thy ===== *)
theory Server
  imports Router Http Crowd Overload Compress Schema Listener Tls Access_Log
begin

text \<open>
  The request pipeline of \<^verbatim>\<open>src/server.rs\<close>: \<^verbatim>\<open>handle\<close>, \<^verbatim>\<open>handle_inner\<close>, \<^verbatim>\<open>route_and_dispatch\<close> and \<^verbatim>\<open>dispatch\<close>,
  over the components of the other theories.

  Everything the server shares between requests is the record \<open>shared\<close>, passed through. The
  third-party code is the record \<open>libs\<close>. What a request takes from its surroundings (clock
  readings, the next UUID, the name of its oneshot channel, how many body messages its
  handler takes) is the record \<open>env\<close>. \<^verbatim>\<open>dispatch\<close> is cut at its await into \<open>dispatch_pre\<close>, everything up
  to the hand-over to JavaScript, and \<open>dispatch_finish\<close>; what JavaScript and the other requests do
  in between is an argument, a function on the shared state.
\<close>

section \<open>State\<close>

record tuning =
  tu_tls :: "tls_acceptor option"
  tu_h2c :: bool
  tu_header_read_timeout :: "nat option"
  tu_body_read_timeout :: "nat option"
  tu_idle_timeout :: "nat option"
  tu_shutdown_timeout :: nat
  tu_max_connections :: "nat option"
  tu_proxy_protocol :: bool
  tu_health_paths :: health_paths
  tu_admin_port :: "u16 option"
  tu_access_log :: bool
  tu_handshake_timeout :: "nat option"
  tu_max_headers :: "nat option"
  tu_max_header_size :: "nat option"
  tu_max_concurrent_streams :: "u32 option"
  tu_initial_window_size :: "u32 option"
  tu_max_reset_streams :: "nat option"
  tu_socket :: socket_options

record body_parts =
  bp_req_rx :: "body_msg list option"
  bp_resp_tx :: bool
  bp_mp_rx :: "mp_event list option"
  bp_abort :: abort_signal

record ('r, 'v, 'sem) shared =
  sh_bridge :: "body_parts bridge"
  sh_routes :: "'r routes"
  sh_has_not_found :: bool
  sh_custom_ip_headers :: "string list"
  sh_custom_country_headers :: "string list"
  sh_request_id_header :: string
  sh_body_limit :: "nat option"
  sh_cors :: "cors option"
  sh_schemas :: "'v leaf_schema list"
  sh_multipart :: "multipart_config option list"
  sh_cache :: "leaf_cache option list"
  sh_tuning :: tuning
  sh_metrics :: metrics
  sh_readiness :: readiness
  sh_overload :: "'sem limiter option"

record ('r, 'v, 'd, 'sem) libs =
  lb_matchit :: "'r matchit"
  lb_json :: "'v json_ops"
  lb_decoders :: "'d decoders"
  lb_sem :: "'sem semaphore"
  lb_http :: http_ops
  lb_urlencoded :: "string \<Rightarrow> (string \<times> string) list"
  lb_parse_boundary :: "string \<Rightarrow> string option"
  lb_multer :: "string \<Rightarrow> incoming \<Rightarrow> mp_form"
  lb_hash_bytes :: "bytes \<Rightarrow> u64"
  lb_show_secs :: "u64 \<Rightarrow> string"
  lb_rustls :: rustls

record env =
  en_now :: nat
  en_uuid :: string
  en_done :: nat
  en_open :: nat
  en_fuel :: nat
  en_store :: "nat \<times> nat \<times> nat"

record http_request =
  rq_method :: string
  rq_path :: string
  rq_query :: "string option"
  rq_headers :: "kv_pair list"
  rq_body :: incoming

record req_data =
  da_method :: string
  da_path :: string
  da_query_string :: "string option"
  da_query :: "kv_pair list"
  da_headers :: "kv_pair list"

section \<open>Dispatch\<close>

subsection \<open>The leaf's configuration\<close>

definition leaf_nth :: "'a list \<Rightarrow> int \<Rightarrow> 'a option" where
  "leaf_nth xs leaf_id = (if leaf_id \<ge> 0 \<and> nat leaf_id < length xs then Some (xs ! nat leaf_id) else None)"

definition leaf_schema_of :: "('r, 'v, 'sem) shared \<Rightarrow> int \<Rightarrow> 'v leaf_schema option" where
  "leaf_schema_of sh leaf_id =
     (case leaf_nth (sh_schemas sh) leaf_id of
        None \<Rightarrow> None
      | Some s \<Rightarrow> if schema_is_empty s then None else Some s)"

definition leaf_multipart_of :: "('r, 'v, 'sem) shared \<Rightarrow> int \<Rightarrow> multipart_config option" where
  "leaf_multipart_of sh leaf_id = (case leaf_nth (sh_multipart sh) leaf_id of None \<Rightarrow> None | Some c \<Rightarrow> c)"

definition leaf_cache_of :: "('r, 'v, 'sem) shared \<Rightarrow> int \<Rightarrow> leaf_cache option" where
  "leaf_cache_of sh leaf_id = (case leaf_nth (sh_cache sh) leaf_id of None \<Rightarrow> None | Some c \<Rightarrow> c)"

definition set_leaf_cache :: "int \<Rightarrow> leaf_cache \<Rightarrow> ('r, 'v, 'sem) shared \<Rightarrow> ('r, 'v, 'sem) shared" where
  "set_leaf_cache leaf_id c sh = sh\<lparr>sh_cache := (sh_cache sh)[nat leaf_id := Some c]\<rparr>"

definition effective_method :: "bool \<Rightarrow> req_data \<Rightarrow> string" where
  "effective_method is_head d = (if is_head then ''GET'' else da_method d)"

definition cacheable :: "('r, 'v, 'sem) shared \<Rightarrow> int \<Rightarrow> string \<Rightarrow> bool" where
  "cacheable sh leaf_id meth =
     (leaf_cache_of sh leaf_id \<noteq> None \<and> leaf_multipart_of sh leaf_id = None \<and>
      (meth = ''GET'' \<or> meth = ''HEAD'' \<or> meth = ''QUERY''))"

subsection \<open>The phases before JavaScript\<close>

text \<open>Each phase gives the response of an early return (\<^const>\<open>Inl\<close>) or what the next phases need.\<close>

definition cache_phase ::
  "('r, 'v, 'd, 'sem) libs \<Rightarrow> env \<Rightarrow> int \<Rightarrow> req_data \<Rightarrow> bool \<Rightarrow> string \<Rightarrow> u64 option
   \<Rightarrow> ('r, 'v, 'sem) shared \<Rightarrow> (response + string option) \<times> ('r, 'v, 'sem) shared" where
  "cache_phase L e leaf_id d is_head rid body_hash sh =
     (case leaf_cache_of sh leaf_id of
        None \<Rightarrow> (Inr None, sh)
      | Some leaf \<Rightarrow>
          let key = cache_key leaf (effective_method is_head d) (da_path d) (da_query_string d) (da_headers d) body_hash
          in case lookup leaf key (en_now e) of
               (Some h, leaf') \<Rightarrow>
                 (case cached_response (lb_http L) h is_head rid (sh_request_id_header sh)
                         (cache_hit (sh_metrics sh)) of
                    (r, m) \<Rightarrow> (Inl r, set_leaf_cache leaf_id leaf' (sh\<lparr>sh_metrics := m\<rparr>)))
             | (None, leaf') \<Rightarrow>
                 (Inr (Some key), set_leaf_cache leaf_id leaf' (sh\<lparr>sh_metrics := cache_miss (sh_metrics sh)\<rparr>)))"

definition multipart_phase ::
  "('r, 'v, 'd, 'sem) libs \<Rightarrow> env \<Rightarrow> ('r, 'v, 'sem) shared \<Rightarrow> int \<Rightarrow> req_data \<Rightarrow> incoming
   \<Rightarrow> response + mp_event list option" where
  "multipart_phase L e sh leaf_id d frs =
     (case leaf_multipart_of sh leaf_id of
        None \<Rightarrow> Inr None
      | Some cfg \<Rightarrow>
          (case Option.bind (map_option kv_value (find_header ''content-type'' (da_headers d))) (lb_parse_boundary L) of
             Some boundary \<Rightarrow> Inr (Some (parse_task cfg (en_open e) (lb_multer L boundary frs)))
           | None \<Rightarrow> Inl (status_text 415 ''Unsupported Media Type'')))"

definition needs_schema_body :: "('r, 'v, 'sem) shared \<Rightarrow> int \<Rightarrow> bool \<Rightarrow> bool" where
  "needs_schema_body sh leaf_id has_body =
     (leaf_multipart_of sh leaf_id = None \<and>
      (case leaf_schema_of sh leaf_id of None \<Rightarrow> False | Some s \<Rightarrow> schema_has_body s) \<and> has_body)"

definition needs_cache_body :: "('r, 'v, 'sem) shared \<Rightarrow> int \<Rightarrow> string \<Rightarrow> bool \<Rightarrow> bool" where
  "needs_cache_body sh leaf_id meth has_body = (cacheable sh leaf_id meth \<and> meth = ''QUERY'' \<and> has_body)"

fun body_err_response :: "body_err \<Rightarrow> response" where
  "body_err_response BodyTooLarge = status_text 413 ''Payload Too Large''"
| "body_err_response BodyTimeout = status_text 408 ''Request Timeout''"
| "body_err_response BodyAborted = status_text 400 ''Bad Request''"

fun decode_err_response :: "decode_err \<Rightarrow> response" where
  "decode_err_response Unsupported = status_text 415 ''Unsupported Media Type''"
| "decode_err_response TooLarge = status_text 413 ''Payload Too Large''"
| "decode_err_response Invalid = status_text 400 ''Invalid compressed body''"

text \<open>Buffering and decoding: the raw bytes for JavaScript and the decoded ones for the schema.
  \<^const>\<open>None\<close> stands for a decoder that does not come to an end within the fuel.\<close>

definition decode_phase ::
  "('r, 'v, 'd, 'sem) libs \<Rightarrow> env \<Rightarrow> nat option \<Rightarrow> req_data \<Rightarrow> bytes \<Rightarrow> (response + bytes) option" where
  "decode_phase L e limit d raw =
     (case content_encoding (da_headers d) of
        None \<Rightarrow> Some (Inr raw)
      | Some enc \<Rightarrow>
          (case decode (lb_decoders L) (en_fuel e) enc raw limit of
             None \<Rightarrow> None
           | Some (Inr plain) \<Rightarrow> Some (Inr plain)
           | Some (Inl err) \<Rightarrow> Some (Inl (decode_err_response err))))"

definition buffer_phase ::
  "('r, 'v, 'd, 'sem) libs \<Rightarrow> env \<Rightarrow> int \<Rightarrow> req_data \<Rightarrow> bool \<Rightarrow> bool \<Rightarrow> incoming \<Rightarrow> ('r, 'v, 'sem) shared
   \<Rightarrow> ((response + bytes option \<times> bytes option) \<times> ('r, 'v, 'sem) shared) option" where
  "buffer_phase L e leaf_id d is_head has_body frs sh =
     (if needs_schema_body sh leaf_id has_body \<or> needs_cache_body sh leaf_id (effective_method is_head d) has_body
      then case buffer_body (sh_body_limit sh) (tu_body_read_timeout (sh_tuning sh)) frs (sh_metrics sh) of
             (Inl err, m) \<Rightarrow> Some (Inl (body_err_response err), sh\<lparr>sh_metrics := m\<rparr>)
           | (Inr raw, m) \<Rightarrow>
               if needs_schema_body sh leaf_id has_body
               then (case decode_phase L e (sh_body_limit sh) d raw of
                       None \<Rightarrow> None
                     | Some (Inl r) \<Rightarrow> Some (Inl r, sh\<lparr>sh_metrics := m\<rparr>)
                     | Some (Inr plain) \<Rightarrow> Some (Inr (Some raw, Some plain), sh\<lparr>sh_metrics := m\<rparr>))
               else Some (Inr (Some raw, None), sh\<lparr>sh_metrics := m\<rparr>)
      else Some (Inr (None, None), sh))"

definition validation_response :: "('r, 'v, 'd, 'sem) libs \<Rightarrow> issue list \<Rightarrow> response" where
  "validation_response L issues =
     builder_or_500 (b_headers (lb_http L) [(''content-type'', ''application/json; charset=utf-8'')] (b_status (lb_http L) 400))
       (Full (errors_body (lb_json L) issues))"

definition no_validated :: validated where
  "no_validated = \<lparr>va_body = None, va_query = None, va_params = None\<rparr>"

definition schema_phase ::
  "('r, 'v, 'd, 'sem) libs \<Rightarrow> ('r, 'v, 'sem) shared \<Rightarrow> int \<Rightarrow> req_data \<Rightarrow> (string \<times> string) list \<Rightarrow> bytes option
   \<Rightarrow> response + validated" where
  "schema_phase L sh leaf_id d params decoded =
     (case leaf_schema_of sh leaf_id of
        None \<Rightarrow> Inr no_validated
      | Some s \<Rightarrow>
          (case validate (lb_json L) s (da_query d) params (map_option bytes_str decoded) of
             Inr v \<Rightarrow> Inr v
           | Inl issues \<Rightarrow> Inl (validation_response L issues)))"

text \<open>The request body channel: one chunk when the body was buffered, the reading task when it
  was not.\<close>

definition body_channel ::
  "env \<Rightarrow> int \<Rightarrow> bytes option \<Rightarrow> bool \<Rightarrow> incoming \<Rightarrow> ('r, 'v, 'sem) shared
   \<Rightarrow> body_msg list option \<times> ('r, 'v, 'sem) shared" where
  "body_channel e leaf_id buffered has_body frs sh =
     (if leaf_multipart_of sh leaf_id \<noteq> None then (None, sh)
      else case buffered of
             Some b \<Rightarrow> (Some [Data b], sh)
           | None \<Rightarrow>
               if has_body
               then (case read_body_task (sh_body_limit sh) (tu_body_read_timeout (sh_tuning sh)) (en_open e) 0 frs (sh_metrics sh) of
                       (msgs, m) \<Rightarrow> (Some msgs, sh\<lparr>sh_metrics := m\<rparr>))
               else (None, sh))"

subsection \<open>The hand-over\<close>

text \<open>What the waiting request keeps: its leaf, the cache key and path, whether it answers HEAD,
  and its oneshot channel.\<close>

record waiting =
  wa_leaf :: int
  wa_key :: "(string \<times> string) option"
  wa_head :: bool
  wa_done :: nat

definition matched_of ::
  "u32 \<Rightarrow> int \<Rightarrow> req_data \<Rightarrow> (string \<times> string) list \<Rightarrow> string \<times> string list \<times> string option \<Rightarrow> string
   \<Rightarrow> validated \<Rightarrow> matched_request" where
  "matched_of req_id leaf_id d params ipc rid v =
     (case ipc of (ip, ips, country) \<Rightarrow>
        \<lparr>mr_req_id = req_id, mr_leaf_id = leaf_id, mr_method = da_method d, mr_path = da_path d,
         mr_query_string = da_query_string d, mr_params = params, mr_query = da_query d,
         mr_headers = da_headers d, mr_ip = ip, mr_ips = ips, mr_country = country, mr_id = rid,
         mr_valid_body = va_body v, mr_valid_query = va_query v, mr_valid_params = va_params v\<rparr>)"

definition parts_of :: "body_msg list option \<Rightarrow> mp_event list option \<Rightarrow> body_parts" where
  "parts_of req_rx mp_events =
     \<lparr>bp_req_rx = req_rx, bp_resp_tx = True, bp_mp_rx = mp_events, bp_abort = abort_new\<rparr>"

definition hand_over ::
  "env \<Rightarrow> int \<Rightarrow> req_data \<Rightarrow> (string \<times> string) list \<Rightarrow> bool \<Rightarrow> string \<times> string list \<times> string option \<Rightarrow> string
   \<Rightarrow> string option \<Rightarrow> validated \<Rightarrow> body_msg list option \<Rightarrow> mp_event list option \<Rightarrow> ('r, 'v, 'sem) shared
   \<Rightarrow> waiting \<times> ('r, 'v, 'sem) shared" where
  "hand_over e leaf_id d params is_head ipc rid key v req_rx mp_events sh =
     (case next_req_id (sh_bridge sh) of (req_id, b) \<Rightarrow>
        (\<lparr>wa_leaf = leaf_id, wa_key = map_option (\<lambda>k. (k, da_path d)) key, wa_head = is_head, wa_done = en_done e\<rparr>,
         sh\<lparr>sh_bridge := enqueue (matched_of req_id leaf_id d params ipc rid v)
              \<lparr>pd_body = Some (parts_of req_rx mp_events), pd_done = en_done e\<rparr> b\<rparr>))"

definition dispatch_pre ::
  "('r, 'v, 'd, 'sem) libs \<Rightarrow> env \<Rightarrow> string \<Rightarrow> int \<Rightarrow> req_data \<Rightarrow> (string \<times> string) list \<Rightarrow> bool \<Rightarrow> incoming \<Rightarrow> bool
   \<Rightarrow> ('r, 'v, 'sem) shared \<Rightarrow> ((response + waiting) \<times> ('r, 'v, 'sem) shared) option" where
  "dispatch_pre L e peer_ip leaf_id d params is_head frs has_body sh =
     (let ipc = client_ip_country (da_headers d) (sh_custom_ip_headers sh) (sh_custom_country_headers sh) peer_ip;
          rid = request_id (en_uuid e) (da_headers d) (sh_request_id_header sh);
          meth = effective_method is_head d;
          cached = cacheable sh leaf_id meth
      in case (if cached \<and> meth \<noteq> ''QUERY'' then cache_phase L e leaf_id d is_head rid None sh else (Inr None, sh)) of
           (Inl r, sh1) \<Rightarrow> Some (Inl r, sh1)
         | (Inr key1, sh1) \<Rightarrow>
             (case multipart_phase L e sh1 leaf_id d frs of
                Inl r \<Rightarrow> Some (Inl r, sh1)
              | Inr mp_events \<Rightarrow>
                  (case buffer_phase L e leaf_id d is_head has_body frs sh1 of
                     None \<Rightarrow> None
                   | Some (Inl r, sh2) \<Rightarrow> Some (Inl r, sh2)
                   | Some (Inr (buffered, decoded), sh2) \<Rightarrow>
                       (case (if cached \<and> meth = ''QUERY''
                              then cache_phase L e leaf_id d is_head rid (map_option (lb_hash_bytes L) buffered) sh2
                              else (Inr key1, sh2)) of
                          (Inl r, sh3) \<Rightarrow> Some (Inl r, sh3)
                        | (Inr key, sh3) \<Rightarrow>
                            (case schema_phase L sh3 leaf_id d params decoded of
                               Inl r \<Rightarrow> Some (Inl r, sh3)
                             | Inr v \<Rightarrow>
                                 (case body_channel e leaf_id buffered has_body frs sh3 of
                                    (req_rx, sh4) \<Rightarrow>
                                      (case hand_over e leaf_id d params is_head ipc rid key v req_rx mp_events sh4 of
                                         (w, sh5) \<Rightarrow> Some (Inr w, sh5))))))))"

text \<open>After the await: a response was sent, or the sender vanished.\<close>

definition dispatch_finish ::
  "('r, 'v, 'd, 'sem) libs \<Rightarrow> env \<Rightarrow> waiting \<Rightarrow> js_response option \<Rightarrow> ('r, 'v, 'sem) shared
   \<Rightarrow> response \<times> ('r, 'v, 'sem) shared" where
  "dispatch_finish L e w done sh =
     (case done of
        None \<Rightarrow> (status_text 500 ''Internal Server Error'', sh)
      | Some res \<Rightarrow>
          let sh = (case (leaf_cache_of sh (wa_leaf w), wa_key w) of
                      (Some leaf, Some (key, path)) \<Rightarrow>
                        (case en_store e of (t_entry, t_sweep, pick) \<Rightarrow>
                           set_leaf_cache (wa_leaf w)
                             (maybe_store leaf key path res (sh_request_id_header sh) t_entry t_sweep pick) sh)
                    | _ \<Rightarrow> sh)
          in case build_response (lb_http L) res (wa_head w) (sh_metrics sh) of
               (r, m) \<Rightarrow> (r, sh\<lparr>sh_metrics := m\<rparr>))"

text \<open>The whole of \<^verbatim>\<open>dispatch\<close>; \<open>js\<close> is what happens to the shared state while it awaits. A request
  that is never answered stays \<^const>\<open>None\<close>.\<close>

definition dispatch ::
  "('r, 'v, 'd, 'sem) libs \<Rightarrow> env \<Rightarrow> (('r, 'v, 'sem) shared \<Rightarrow> ('r, 'v, 'sem) shared) \<Rightarrow> string \<Rightarrow> int \<Rightarrow> req_data
   \<Rightarrow> (string \<times> string) list \<Rightarrow> bool \<Rightarrow> incoming \<Rightarrow> bool \<Rightarrow> ('r, 'v, 'sem) shared
   \<Rightarrow> (response \<times> ('r, 'v, 'sem) shared) option" where
  "dispatch L e js peer_ip leaf_id d params is_head frs has_body sh =
     (case dispatch_pre L e peer_ip leaf_id d params is_head frs has_body sh of
        None \<Rightarrow> None
      | Some (Inl r, sh1) \<Rightarrow> Some (r, sh1)
      | Some (Inr w, sh1) \<Rightarrow>
          let sh2 = js sh1
          in case br_done (sh_bridge sh2) (wa_done w) of
               Open \<Rightarrow> None
             | Sent res \<Rightarrow> Some (dispatch_finish L e w (Some res) sh2)
             | SenderDropped \<Rightarrow> Some (dispatch_finish L e w None sh2))"

text \<open>The abort signal of a request: completed and then fired by its guard when the request
  finished, fired alone when its future is dropped.\<close>

definition abort_after :: "bool \<Rightarrow> abort_signal" where
  "abort_after finished = fire (if finished then complete abort_new else abort_new)"

section \<open>Routing\<close>

definition allow_response :: "http_ops \<Rightarrow> nat \<Rightarrow> string list \<Rightarrow> string \<Rightarrow> response" where
  "allow_response H code allowed text =
     builder_or_500 (b_header H ''allow'' (join '', '' allowed) (b_status H code)) (Full text)"

definition route_and_dispatch ::
  "('r, 'v, 'd, 'sem) libs \<Rightarrow> env \<Rightarrow> (('r, 'v, 'sem) shared \<Rightarrow> ('r, 'v, 'sem) shared) \<Rightarrow> string \<Rightarrow> req_data
   \<Rightarrow> incoming \<Rightarrow> bool \<Rightarrow> ('r, 'v, 'sem) shared \<Rightarrow> (response \<times> ('r, 'v, 'sem) shared) option" where
  "route_and_dispatch L e js peer_ip d frs has_body sh =
     (case match_route (lb_matchit L) (sh_routes sh) (da_method d) (da_path d) of
        Some m \<Rightarrow> dispatch L e js peer_ip (md_leaf_id m) d (md_params m) False frs has_body sh
      | None \<Rightarrow>
          (case (if da_method d = ''HEAD'' then match_route (lb_matchit L) (sh_routes sh) ''GET'' (da_path d) else None) of
             Some m \<Rightarrow> dispatch L e js peer_ip (md_leaf_id m) d (md_params m) True frs has_body sh
           | None \<Rightarrow>
               let allowed = allowed_methods (lb_matchit L) (sh_routes sh) (da_path d)
               in if allowed = []
                  then if sh_has_not_found sh then dispatch L e js peer_ip (-1) d [] False frs has_body sh
                       else Some (status_text 404 ''Not Found'', sh)
                  else if da_method d = ''OPTIONS''
                  then Some (allow_response (lb_http L) 204 allowed [], sh)
                  else Some (allow_response (lb_http L) 405 allowed ''Method Not Allowed'', sh)))"

section \<open>Handling\<close>

definition is_preflight :: "http_request \<Rightarrow> bool" where
  "is_preflight r = (to_uppercase (rq_method r) = ''OPTIONS'' \<and> contains_key (rq_headers r) ''access-control-request-method'')"

definition preflight_response :: "http_ops \<Rightarrow> cors \<Rightarrow> http_request \<Rightarrow> response" where
  "preflight_response H c r =
     (case preflight c (header_str (rq_headers r) ''origin'')
             (header_str (rq_headers r) ''access-control-request-headers'') of
        Some hs \<Rightarrow> pairs_response H 204 hs
      | None \<Rightarrow> status_text 403 ''Forbidden'')"

definition declared_too_large :: "nat option \<Rightarrow> http_request \<Rightarrow> bool" where
  "declared_too_large limit r =
     (case (limit, content_length (rq_headers r)) of (Some l, Some cl) \<Rightarrow> cl > l | _ \<Rightarrow> False)"

definition req_data_of :: "('r, 'v, 'd, 'sem) libs \<Rightarrow> http_request \<Rightarrow> req_data" where
  "req_data_of L r =
     \<lparr>da_method = to_uppercase (rq_method r), da_path = rq_path r, da_query_string = rq_query r,
      da_query = parse_query (lb_urlencoded L) (rq_query r), da_headers = collect_headers (rq_headers r)\<rparr>"

definition handle_inner ::
  "('r, 'v, 'd, 'sem) libs \<Rightarrow> env \<Rightarrow> (('r, 'v, 'sem) shared \<Rightarrow> ('r, 'v, 'sem) shared) \<Rightarrow> string \<Rightarrow> http_request
   \<Rightarrow> ('r, 'v, 'sem) shared \<Rightarrow> (response \<times> ('r, 'v, 'sem) shared) option" where
  "handle_inner L e js peer_ip r sh =
     (let origin = header_str (rq_headers r) ''origin'';
          rest = (if declared_too_large (sh_body_limit sh) r
                  then Some (apply_cors (lb_http L) (sh_cors sh) origin (status_text 413 ''Payload Too Large''), sh)
                  else case route_and_dispatch L e js peer_ip (req_data_of L r) (rq_body r)
                              (request_has_body (rq_headers r)) sh of
                         None \<Rightarrow> None
                       | Some (res, sh') \<Rightarrow> Some (apply_cors (lb_http L) (sh_cors sh) origin res, sh'))
      in case sh_cors sh of
           Some c \<Rightarrow> if is_preflight r then Some (preflight_response (lb_http L) c r, sh) else rest
         | None \<Rightarrow> rest)"

text \<open>What a request leaves behind besides its response: whether its connection was told to
  close, and its line of the access log.\<close>

record handled =
  hd_response :: response
  hd_shed :: bool
  hd_log :: "string option"

text \<open>The middle of \<^verbatim>\<open>handle\<close>: the probe, the limiter, or the request itself. \<open>wait\<close> is the await
  of \<^verbatim>\<open>acquire\<close> on the shared state: whether it ended with a permit, and the state then. Dropping the
  permit gives it back to the semaphore.\<close>

definition set_limiter :: "'sem limiter \<Rightarrow> ('r, 'v, 'sem) shared \<Rightarrow> ('r, 'v, 'sem) shared" where
  "set_limiter l sh = sh\<lparr>sh_overload := Some l\<rparr>"

definition release_permit :: "('r, 'v, 'd, 'sem) libs \<Rightarrow> ('r, 'v, 'sem) shared \<Rightarrow> ('r, 'v, 'sem) shared" where
  "release_permit L sh =
     (case sh_overload sh of
        None \<Rightarrow> sh
      | Some l \<Rightarrow> set_limiter (l\<lparr>lm_sem := sm_release (lb_sem L) (lm_sem l)\<rparr>) sh)"

definition acquire_slot ::
  "('r, 'v, 'd, 'sem) libs \<Rightarrow> env \<Rightarrow> (('r, 'v, 'sem) shared \<Rightarrow> bool \<times> ('r, 'v, 'sem) shared) \<Rightarrow> 'sem limiter
   \<Rightarrow> ('r, 'v, 'sem) shared \<Rightarrow> slot \<times> ('r, 'v, 'sem) shared" where
  "acquire_slot L e wait l sh =
     (case acquire_fast (lb_sem L) (en_now e) l of
        (Some slot, l') \<Rightarrow> (slot, set_limiter l' sh)
      | (None, l') \<Rightarrow>
          (case wait (set_limiter l' sh) of
             (granted, sh') \<Rightarrow>
               (case sh_overload sh' of
                  None \<Rightarrow> (Rejected (lm_retry_after l'), sh')
                | Some l'' \<Rightarrow> (case acquire_wake granted l'' of (slot, l3) \<Rightarrow> (slot, set_limiter l3 sh')))))"

definition handle_body ::
  "('r, 'v, 'd, 'sem) libs \<Rightarrow> env \<Rightarrow> (('r, 'v, 'sem) shared \<Rightarrow> ('r, 'v, 'sem) shared)
   \<Rightarrow> (('r, 'v, 'sem) shared \<Rightarrow> bool \<times> ('r, 'v, 'sem) shared) \<Rightarrow> string \<Rightarrow> http_request
   \<Rightarrow> ('r, 'v, 'sem) shared \<Rightarrow> (response \<times> bool \<times> ('r, 'v, 'sem) shared) option" where
  "handle_body L e js wait peer_ip r sh =
     (let probe = (if tu_admin_port (sh_tuning sh) = None
                   then admin_response (lb_http L) (lb_show_secs L) (tu_health_paths (sh_tuning sh)) (sh_readiness sh)
                          (sh_metrics sh) (to_uppercase (rq_method r)) (rq_path r)
                   else None)
      in case (probe, sh_overload sh) of
           (Some res, _) \<Rightarrow> Some (res, False, sh)
         | (None, Some l) \<Rightarrow>
             (case acquire_slot L e wait l sh of
                (Acquired, sh1) \<Rightarrow>
                  (case handle_inner L e js peer_ip r (sh1\<lparr>sh_readiness := set_overloaded (sh_readiness sh1) False\<rparr>) of
                     None \<Rightarrow> None
                   | Some (res, sh2) \<Rightarrow> Some (res, False, release_permit L sh2))
              | (Rejected retry_after, sh1) \<Rightarrow>
                  let shed = (case sh_overload sh1 of None \<Rightarrow> False | Some l1 \<Rightarrow> should_shed (en_now e) l1)
                  in Some (overloaded_response (lb_http L) retry_after, True,
                           sh1\<lparr>sh_readiness := set_overloaded (sh_readiness sh1) shed\<rparr>))
         | (None, None) \<Rightarrow>
             (case handle_inner L e js peer_ip r sh of
                None \<Rightarrow> None
              | Some (res, sh1) \<Rightarrow> Some (res, False, sh1)))"

text \<open>The whole handler; \<open>elapsed\<close> and its printed form \<open>ms\<close> come from the clock.\<close>

definition handle ::
  "('r, 'v, 'd, 'sem) libs \<Rightarrow> env \<Rightarrow> (('r, 'v, 'sem) shared \<Rightarrow> ('r, 'v, 'sem) shared)
   \<Rightarrow> (('r, 'v, 'sem) shared \<Rightarrow> bool \<times> ('r, 'v, 'sem) shared) \<Rightarrow> nat \<times> string \<Rightarrow> string \<Rightarrow> http_request
   \<Rightarrow> ('r, 'v, 'sem) shared \<Rightarrow> (handled \<times> ('r, 'v, 'sem) shared) option" where
  "handle L e js wait clock peer_ip r sh =
     (case handle_body L e js wait peer_ip r (sh\<lparr>sh_metrics := request_started (sh_metrics sh)\<rparr>) of
        None \<Rightarrow> None
      | Some (res, shed, sh1) \<Rightarrow>
          let meth = to_uppercase (rq_method r);
              sh2 = sh1\<lparr>sh_metrics := request_finished meth (of_nat (re_status res)) (fst clock) (sh_metrics sh1)\<rparr>
          in Some (\<lparr>hd_response = res, hd_shed = shed,
                    hd_log = (if tu_access_log (sh_tuning sh)
                              then Some (access_log meth (rq_path r) (re_status res) (snd clock)) else None)\<rparr>, sh2))"

section \<open>Lemmas\<close>

text \<open>The part of the state JavaScript sees: its queue, the pending requests and their channels.\<close>

lemma set_leaf_cache_frames [simp]:
  "sh_bridge (set_leaf_cache i c sh) = sh_bridge sh" "sh_overload (set_leaf_cache i c sh) = sh_overload sh"
  "sh_metrics (set_leaf_cache i c sh) = sh_metrics sh" "sh_readiness (set_leaf_cache i c sh) = sh_readiness sh"
  "sh_schemas (set_leaf_cache i c sh) = sh_schemas sh" "sh_multipart (set_leaf_cache i c sh) = sh_multipart sh"
  "sh_body_limit (set_leaf_cache i c sh) = sh_body_limit sh" "sh_tuning (set_leaf_cache i c sh) = sh_tuning sh"
  by (simp_all add: set_leaf_cache_def)

lemma leaf_frames [simp]:
  "leaf_multipart_of (set_leaf_cache i c sh) = leaf_multipart_of sh"
  "leaf_schema_of (set_leaf_cache i c sh) = leaf_schema_of sh"
  "leaf_multipart_of (sh\<lparr>sh_metrics := m\<rparr>) = leaf_multipart_of sh"
  "leaf_schema_of (sh\<lparr>sh_metrics := m\<rparr>) = leaf_schema_of sh"
  "leaf_cache_of (sh\<lparr>sh_metrics := m\<rparr>) = leaf_cache_of sh"
  by (simp_all add: leaf_multipart_of_def leaf_schema_of_def leaf_cache_of_def fun_eq_iff)

text \<open>The phases before the hand-over leave the bridge and the limiter alone.\<close>

lemma cache_phase_bridge:
  "cache_phase L e leaf d ih rid bh sh = (res, sh') \<Longrightarrow> sh_bridge sh' = sh_bridge sh \<and>
     sh_multipart sh' = sh_multipart sh \<and> sh_body_limit sh' = sh_body_limit sh \<and>
     sh_tuning sh' = sh_tuning sh \<and> sh_schemas sh' = sh_schemas sh"
  by (auto simp: cache_phase_def Let_def split: option.splits prod.splits)

lemma buffer_phase_bridge:
  "buffer_phase L e leaf d ih hb frs sh = Some (res, sh') \<Longrightarrow> sh_bridge sh' = sh_bridge sh \<and>
     sh_multipart sh' = sh_multipart sh \<and> sh_body_limit sh' = sh_body_limit sh \<and>
     sh_tuning sh' = sh_tuning sh \<and> sh_schemas sh' = sh_schemas sh"
  by (auto simp: buffer_phase_def split: if_splits option.splits prod.splits sum.splits)

lemma body_channel_bridge: "body_channel e leaf buf hb frs sh = (rx, sh') \<Longrightarrow> sh_bridge sh' = sh_bridge sh"
  by (auto simp: body_channel_def split: if_splits option.splits prod.splits)

lemma buffer_phase_raw:
  assumes "buffer_phase L e leaf d ih hb frs sh = Some (Inr (buffered, decoded), sh')"
  shows "case buffered of
     None \<Rightarrow> True
   | Some raw \<Rightarrow> hb \<and> (\<exists>m m'. buffer_body (sh_body_limit sh) (tu_body_read_timeout (sh_tuning sh)) frs m = (Inr raw, m'))"
  using assms
  by (auto simp: buffer_phase_def needs_schema_body_def needs_cache_body_def
      split: if_splits option.splits prod.splits sum.splits)

text \<open>What a hand-over says about the way to it.\<close>

definition same_config :: "('r, 'v, 'sem) shared \<Rightarrow> ('r, 'v, 'sem) shared \<Rightarrow> bool" where
  "same_config sh sh' \<longleftrightarrow> sh_bridge sh' = sh_bridge sh \<and> sh_multipart sh' = sh_multipart sh \<and>
     sh_body_limit sh' = sh_body_limit sh \<and> sh_tuning sh' = sh_tuning sh \<and> sh_schemas sh' = sh_schemas sh \<and>
     sh_request_id_header sh' = sh_request_id_header sh"

lemma same_config_refl [simp]: "same_config sh sh"
  by (simp add: same_config_def)

lemma cache_phase_id: "cache_phase L e leaf d ih rid bh sh = (r, sh') \<Longrightarrow> sh_request_id_header sh' = sh_request_id_header sh"
  by (auto simp: cache_phase_def set_leaf_cache_def Let_def split: option.splits prod.splits)

lemma buffer_phase_id: "buffer_phase L e leaf d ih hb frs sh = Some (r, sh') \<Longrightarrow> sh_request_id_header sh' = sh_request_id_header sh"
  by (auto simp: buffer_phase_def split: if_splits option.splits prod.splits sum.splits)

lemma same_config_phases:
  "cache_phase L e leaf d ih rid bh sh = (res, sh') \<Longrightarrow> same_config sh sh'"
  "buffer_phase L e leaf d ih hb frs sh = Some (r, sh') \<Longrightarrow> same_config sh sh'"
  by (simp_all add: same_config_def cache_phase_bridge buffer_phase_bridge cache_phase_id buffer_phase_id)

lemma same_config_trans: "same_config a b \<Longrightarrow> same_config b c \<Longrightarrow> same_config a c"
  by (simp add: same_config_def)

text \<open>The first cache lookup runs only for a cacheable request that is not QUERY, the second one only
  for QUERY. With them, the six ways through the phases: an answer of the first cache lookup, of the multipart check, of
  buffering and decoding, of the lookup of a QUERY, of the schema, or the hand-over.\<close>

definition first_lookup ::
  "('r, 'v, 'd, 'sem) libs \<Rightarrow> env \<Rightarrow> int \<Rightarrow> req_data \<Rightarrow> bool \<Rightarrow> ('r, 'v, 'sem) shared
   \<Rightarrow> (response + string option) \<times> ('r, 'v, 'sem) shared" where
  "first_lookup L e leaf d ih sh =
     (if cacheable sh leaf (effective_method ih d) \<and> effective_method ih d \<noteq> ''QUERY''
      then cache_phase L e leaf d ih (request_id (en_uuid e) (da_headers d) (sh_request_id_header sh)) None sh
      else (Inr None, sh))"

definition second_lookup ::
  "('r, 'v, 'd, 'sem) libs \<Rightarrow> env \<Rightarrow> int \<Rightarrow> req_data \<Rightarrow> bool \<Rightarrow> ('r, 'v, 'sem) shared \<Rightarrow> string option \<Rightarrow> bytes option
   \<Rightarrow> ('r, 'v, 'sem) shared \<Rightarrow> (response + string option) \<times> ('r, 'v, 'sem) shared" where
  "second_lookup L e leaf d ih sh key buffered sh2 =
     (if cacheable sh leaf (effective_method ih d) \<and> effective_method ih d = ''QUERY''
      then cache_phase L e leaf d ih (request_id (en_uuid e) (da_headers d) (sh_request_id_header sh))
             (map_option (lb_hash_bytes L) buffered) sh2
      else (Inr key, sh2))"

lemma dispatch_pre_lookups:
  "dispatch_pre L e peer leaf d params ih frs hb sh =
     (case first_lookup L e leaf d ih sh of
        (Inl r, sh1) \<Rightarrow> Some (Inl r, sh1)
      | (Inr key1, sh1) \<Rightarrow>
          (case multipart_phase L e sh1 leaf d frs of
             Inl r \<Rightarrow> Some (Inl r, sh1)
           | Inr mp \<Rightarrow>
               (case buffer_phase L e leaf d ih hb frs sh1 of
                  None \<Rightarrow> None
                | Some (Inl r, sh2) \<Rightarrow> Some (Inl r, sh2)
                | Some (Inr (buffered, decoded), sh2) \<Rightarrow>
                    (case second_lookup L e leaf d ih sh key1 buffered sh2 of
                       (Inl r, sh3) \<Rightarrow> Some (Inl r, sh3)
                     | (Inr key, sh3) \<Rightarrow>
                         (case schema_phase L sh3 leaf d params decoded of
                            Inl r \<Rightarrow> Some (Inl r, sh3)
                          | Inr v \<Rightarrow>
                              (case body_channel e leaf buffered hb frs sh3 of
                                 (req_rx, sh4) \<Rightarrow>
                                   (case hand_over e leaf d params ih
                                           (client_ip_country (da_headers d) (sh_custom_ip_headers sh) (sh_custom_country_headers sh) peer)
                                           (request_id (en_uuid e) (da_headers d) (sh_request_id_header sh)) key v req_rx mp sh4 of
                                      (w, sh5) \<Rightarrow> Some (Inr w, sh5))))))))"
  unfolding dispatch_pre_def Let_def first_lookup_def second_lookup_def by (rule refl)

lemma lookup_config:
  "first_lookup L e leaf d ih sh = (r, sh') \<Longrightarrow> same_config sh sh'"
  "second_lookup L e leaf d ih sh0 key buffered sh = (r, sh') \<Longrightarrow> same_config sh sh'"
  by (auto simp: first_lookup_def second_lookup_def split: if_splits dest: same_config_phases)

lemma dispatch_pre_cases:
  assumes "dispatch_pre L e peer leaf d params ih frs hb sh = Some (res, sh')"
  obtains
    (lookup1) r where "first_lookup L e leaf d ih sh = (Inl r, sh')" "res = Inl r"
  | (multipart) sh1 r where "same_config sh sh1" "multipart_phase L e sh1 leaf d frs = Inl r" "res = Inl r" "sh' = sh1"
  | (buffer) sh1 r where "same_config sh sh1" "buffer_phase L e leaf d ih hb frs sh1 = Some (Inl r, sh')" "res = Inl r"
  | (lookup2) sh2 r key buffered where "same_config sh sh2"
      "second_lookup L e leaf d ih sh key buffered sh2 = (Inl r, sh')" "res = Inl r"
  | (schema) r decoded where "same_config sh sh'" "schema_phase L sh' leaf d params decoded = Inl r" "res = Inl r"
  | (hand_over) sh1 sh2 sh3 sh4 buffered decoded key v req_rx mp w where "same_config sh sh1" "same_config sh sh3"
      "multipart_phase L e sh1 leaf d frs = Inr mp"
      "buffer_phase L e leaf d ih hb frs sh1 = Some (Inr (buffered, decoded), sh2)"
      "body_channel e leaf buffered hb frs sh3 = (req_rx, sh4)"
      "hand_over e leaf d params ih
         (client_ip_country (da_headers d) (sh_custom_ip_headers sh) (sh_custom_country_headers sh) peer)
         (request_id (en_uuid e) (da_headers d) (sh_request_id_header sh)) key v req_rx mp sh4 = (w, sh')"
      "res = Inr w"
proof -
  obtain k1 sh1 where l1: "first_lookup L e leaf d ih sh = (k1, sh1)" by (cases "first_lookup L e leaf d ih sh")
  note c1 = lookup_config(1) [OF l1]
  note pre = assms [unfolded dispatch_pre_lookups l1 prod.case]
  show ?thesis
  proof (cases k1)
    case (Inl r)
    with pre l1 show ?thesis by (intro lookup1) auto
  next
    case (Inr key1)
    note pre = pre [unfolded Inr sum.case]
    show ?thesis
    proof (cases "multipart_phase L e sh1 leaf d frs")
      case (Inl r)
      with pre c1 show ?thesis by (intro multipart) auto
    next
      case m: (Inr mp)
      note pre = pre [unfolded m sum.case]
      from pre obtain br sh2 where b: "buffer_phase L e leaf d ih hb frs sh1 = Some (br, sh2)"
        by (auto split: option.splits)
      note c2 = same_config_trans [OF c1 same_config_phases(2) [OF b]]
      note pre = pre [unfolded b option.case prod.case]
      show ?thesis
      proof (cases br)
        case (Inl r)
        with pre b c1 show ?thesis by (intro buffer [of sh1 r]) auto
      next
        case (Inr bd)
        obtain buffered decoded where bd: "br = Inr (buffered, decoded)" using Inr by (cases bd) auto
        obtain k2 sh3 where l2: "second_lookup L e leaf d ih sh key1 buffered sh2 = (k2, sh3)"
          by (cases "second_lookup L e leaf d ih sh key1 buffered sh2")
        note c3 = same_config_trans [OF c2 lookup_config(2) [OF l2]]
        note pre = pre [unfolded bd sum.case prod.case l2]
        show ?thesis
        proof (cases k2)
          case (Inl r)
          with pre l2 c2 show ?thesis by (intro lookup2 [of sh2 key1 buffered r]) auto
        next
          case (Inr key)
          note pre = pre [unfolded Inr sum.case]
          obtain req_rx sh4 where bc: "body_channel e leaf buffered hb frs sh3 = (req_rx, sh4)"
            by (cases "body_channel e leaf buffered hb frs sh3")
          show ?thesis
          proof (cases "schema_phase L sh3 leaf d params decoded")
            case (Inl r)
            with pre c3 show ?thesis by (intro schema) auto
          next
            case (Inr v)
            obtain w where "hand_over e leaf d params ih
                (client_ip_country (da_headers d) (sh_custom_ip_headers sh) (sh_custom_country_headers sh) peer)
                (request_id (en_uuid e) (da_headers d) (sh_request_id_header sh)) key v req_rx mp sh4 = (w, sh')"
              and "res = Inr w" using pre Inr bc by (auto split: prod.splits)
            from hand_over [OF c1 c3 m b [unfolded bd] bc this] show ?thesis .
          qed
        qed
      qed
    qed
  qed
qed

lemma dispatch_pre_early:
  assumes "dispatch_pre L e peer leaf d params ih frs hb sh = Some (Inl r, sh')"
  shows "same_config sh sh'"
  using assms
  by (cases rule: dispatch_pre_cases)
    (auto dest: lookup_config same_config_phases(2) intro: same_config_trans)

lemma dispatch_pre_hand_over:
  assumes "dispatch_pre L e peer leaf d params ih frs hb sh = Some (Inr w, sh')"
  obtains sh3 sh4 buffered key v req_rx mp where
    "same_config sh sh3" and "body_channel e leaf buffered hb frs sh3 = (req_rx, sh4)"
    and "hand_over e leaf d params ih
          (client_ip_country (da_headers d) (sh_custom_ip_headers sh) (sh_custom_country_headers sh) peer)
          (request_id (en_uuid e) (da_headers d) (sh_request_id_header sh)) key v req_rx mp sh4 = (w, sh')"
    and "case buffered of None \<Rightarrow> True
         | Some raw \<Rightarrow> hb \<and> (\<exists>m m'. buffer_body (sh_body_limit sh) (tu_body_read_timeout (sh_tuning sh)) frs m = (Inr raw, m'))"
  using assms
proof (cases rule: dispatch_pre_cases)
  case (hand_over sh1 sh2 sh3 sh4 buffered decoded key v req_rx mp w')
  have "case buffered of None \<Rightarrow> True
         | Some raw \<Rightarrow> hb \<and> (\<exists>m m'. buffer_body (sh_body_limit sh) (tu_body_read_timeout (sh_tuning sh)) frs m = (Inr raw, m'))"
    using buffer_phase_raw [OF hand_over(4)] hand_over(1) by (auto simp: same_config_def split: option.splits)
  with hand_over show ?thesis by (intro that) auto
qed auto

text \<open>The phases before the hand-over neither read nor change the bridge: whatever other requests and
  JavaScript do to it meanwhile, they give the same result, and only the hand-over sees the bridge of its moment.\<close>

abbreviation on_bridge :: "body_parts bridge \<Rightarrow> ('r, 'v, 'sem) shared \<Rightarrow> ('r, 'v, 'sem) shared" where
  "on_bridge b sh \<equiv> sh\<lparr>sh_bridge := b\<rparr>"

lemma on_bridge_reads [simp]:
  "leaf_multipart_of (on_bridge b sh) = leaf_multipart_of sh" "leaf_schema_of (on_bridge b sh) = leaf_schema_of sh"
  "leaf_cache_of (on_bridge b sh) = leaf_cache_of sh" "cacheable (on_bridge b sh) = cacheable sh"
  "set_leaf_cache i c (on_bridge b sh) = on_bridge b (set_leaf_cache i c sh)"
  "needs_schema_body (on_bridge b sh) = needs_schema_body sh" "needs_cache_body (on_bridge b sh) = needs_cache_body sh"
  by (simp_all add: leaf_multipart_of_def leaf_schema_of_def leaf_cache_of_def cacheable_def set_leaf_cache_def
      needs_schema_body_def needs_cache_body_def fun_eq_iff)

lemma metrics_on_bridge [simp]: "(on_bridge b sh)\<lparr>sh_metrics := m\<rparr> = on_bridge b (sh\<lparr>sh_metrics := m\<rparr>)"
  by simp

lemma cache_phase_on_bridge:
  "cache_phase L e leaf d ih rid bh (on_bridge b sh) = apsnd (on_bridge b) (cache_phase L e leaf d ih rid bh sh)"
  by (simp add: cache_phase_def Let_def set_leaf_cache_def split: option.splits prod.splits)

lemma phases_on_bridge:
  "first_lookup L e leaf d ih (on_bridge b sh) = apsnd (on_bridge b) (first_lookup L e leaf d ih sh)"
  "second_lookup L e leaf d ih (on_bridge b sh) key buffered (on_bridge b sh2) =
     apsnd (on_bridge b) (second_lookup L e leaf d ih sh key buffered sh2)"
  "multipart_phase L e (on_bridge b sh) leaf d frs = multipart_phase L e sh leaf d frs"
  "schema_phase L (on_bridge b sh) leaf d params decoded = schema_phase L sh leaf d params decoded"
  "buffer_phase L e leaf d ih hb frs (on_bridge b sh) = map_option (apsnd (on_bridge b)) (buffer_phase L e leaf d ih hb frs sh)"
  "body_channel e leaf buffered hb frs (on_bridge b sh) = apsnd (on_bridge b) (body_channel e leaf buffered hb frs sh)"
  by (auto simp: first_lookup_def second_lookup_def cache_phase_on_bridge multipart_phase_def schema_phase_def
      buffer_phase_def body_channel_def split: option.splits prod.splits sum.splits)

lemma matched_of_id: "matched_of rid leaf d params ipc i v = (matched_of rid' leaf d params ipc i v)\<lparr>mr_req_id := rid\<rparr>"
  by (simp add: matched_of_def split: prod.splits)

lemma dispatch_pre_on_bridge:
  assumes "dispatch_pre L e peer leaf d params ih frs hb sh = Some (res, sh')"
  shows "case res of
      Inl r \<Rightarrow> dispatch_pre L e peer leaf d params ih frs hb (on_bridge b sh) = Some (Inl r, on_bridge b sh')
    | Inr w \<Rightarrow> \<exists>req p b0. sh_bridge sh' = enqueue req p b0 \<and>
        dispatch_pre L e peer leaf d params ih frs hb (on_bridge b sh) =
          Some (Inr w, on_bridge (enqueue (req\<lparr>mr_req_id := br_next_id b\<rparr>) p (snd (next_req_id b))) sh')"
proof -
  note phases = dispatch_pre_lookups phases_on_bridge hand_over_def next_req_id_def
  show ?thesis
  proof (cases res)
    case (Inl r)
    then show ?thesis using assms by (auto simp: phases split: prod.splits sum.splits option.splits)
  next
    case (Inr w)
    with assms show ?thesis
      by (auto simp: phases split: prod.splits sum.splits option.splits) (intro exI conjI, rule refl, metis matched_of_id)
  qed
qed

lemma matched_of_fields [simp]:
  "mr_req_id (matched_of rid leaf d params ipc i v) = rid"
  "mr_leaf_id (matched_of rid leaf d params ipc i v) = leaf"
  "mr_path (matched_of rid leaf d params ipc i v) = da_path d"
  "mr_headers (matched_of rid leaf d params ipc i v) = da_headers d"
  by (simp_all add: matched_of_def split: prod.splits)

lemma hand_over_bridge:
  assumes "hand_over e leaf d params ih ipc rid key v req_rx mp sh = (w, sh')"
  shows "wa_done w = en_done e"
    and "sh_bridge sh' = enqueue (matched_of (br_next_id (sh_bridge sh)) leaf d params ipc rid v)
           \<lparr>pd_body = Some (parts_of req_rx mp), pd_done = en_done e\<rparr> (snd (next_req_id (sh_bridge sh)))"
  using assms by (auto simp: hand_over_def next_req_id_def)

lemma hand_over_takes_body:
  assumes "hand_over e leaf d params ih ipc rid key v req_rx mp sh = (w, sh')"
  shows "fst (take_body (br_next_id (sh_bridge sh)) (sh_bridge sh')) = Some (parts_of req_rx mp)"
    and "br_queue (sh_bridge sh') = br_queue (sh_bridge sh) @
           [matched_of (br_next_id (sh_bridge sh)) leaf d params ipc rid v]"
  by (simp_all add: hand_over_bridge(2) [OF assms] take_body_def enqueue_fields)

text \<open>What a handler reads from the channel, buffered or not.\<close>

lemma body_channel_reads:
  assumes bc: "body_channel e leaf buffered hb frs sh = (req_rx, sh')"
    and raw: "case buffered of None \<Rightarrow> True
         | Some raw \<Rightarrow> hb \<and> (\<exists>m m'. buffer_body (sh_body_limit sh) (tu_body_read_timeout (sh_tuning sh)) frs m = (Inr raw, m'))"
    and hb: "hb" and nomp: "leaf_multipart_of sh leaf = None"
    and size: "length (concat (frame_data frs)) < 2 ^ 64" and "length frs < en_open e" and fuel: "length frs + 1 < fuel"
  shows "\<exists>res m m'. buffer_body (sh_body_limit sh) (tu_body_read_timeout (sh_tuning sh)) frs m = (res, m') \<and>
     read_all fuel (body_io_new req_rx tx None ab) [] = Some (case res of Inl x \<Rightarrow> Inl (err_reason x) | Inr b \<Rightarrow> Inr b)"
proof (cases buffered)
  case (Some b)
  with raw obtain m m' where bb: "buffer_body (sh_body_limit sh) (tu_body_read_timeout (sh_tuning sh)) frs m = (Inr b, m')"
    by auto
  have rx: "req_rx = Some [Data b]" using bc Some nomp by (simp add: body_channel_def)
  have "read_all fuel (body_io_new (Some [Data b]) tx None ab) [] = Some (Inr b)"
  proof -
    obtain f where "fuel = Suc (Suc f)" using fuel by (cases fuel; cases "fuel - 1") auto
    then show ?thesis by (simp add: read_def body_io_new_def)
  qed
  with bb rx show ?thesis by (intro exI) auto
next
  case None
  obtain res m' where bb: "buffer_body (sh_body_limit sh) (tu_body_read_timeout (sh_tuning sh)) frs (sh_metrics sh) = (res, m')"
    by (cases "buffer_body (sh_body_limit sh) (tu_body_read_timeout (sh_tuning sh)) frs (sh_metrics sh)")
  obtain msgs where msgs: "read_body_task (sh_body_limit sh) (tu_body_read_timeout (sh_tuning sh)) (en_open e) 0 frs (sh_metrics sh) = (msgs, m')"
    and rd: "read_all fuel (body_io_new (Some msgs) tx None ab) [] = Some (case res of Inl x \<Rightarrow> Inl (err_reason x) | Inr b \<Rightarrow> Inr b)"
    using streamed_as_buffered [OF size assms(6) _ bb, of fuel tx ab] fuel by auto
  have "req_rx = Some msgs" using bc None nomp hb msgs by (auto simp: body_channel_def)
  with bb rd show ?thesis by (intro exI) auto
qed

subsection \<open>Responses under the laws of the header types\<close>

lemma http_lawsD:
  assumes "http_laws H"
  shows "ho_status H n \<longleftrightarrow> 100 \<le> n \<and> n \<le> 999"
    and "header_token k \<Longrightarrow> ho_name H k = Some (to_lowercase k)" and "printable v \<Longrightarrow> ho_value H v"
  using assms by (auto simp: http_laws_def)

text \<open>A builder with a legal status and legal static headers succeeds.\<close>

lemma b_headers_legal:
  assumes H: "http_laws H" and "\<forall>(k, v) \<in> set kvs. header_token k \<and> to_lowercase k = k \<and> printable v"
  shows "b_headers H kvs (Some (code, hs)) = Some (code, hs @ kvs)"
  using assms(2)
proof (induction kvs arbitrary: hs)
  case (Cons kv kvs)
  obtain k v where kv: "kv = (k, v)" by (cases kv)
  have "b_header H k v (Some (code, hs)) = Some (code, hs @ [(k, v)])"
    using Cons.prems kv by (simp add: b_header_def http_lawsD [OF H])
  with Cons kv show ?case by (simp add: b_headers_def)
qed (simp add: b_headers_def)

lemma legal_static [simp]:
  "header_token ''content-type'' \<and> to_lowercase ''content-type'' = ''content-type''"
  "header_token ''cache-control'' \<and> to_lowercase ''cache-control'' = ''cache-control''"
  "header_token ''retry-after'' \<and> to_lowercase ''retry-after'' = ''retry-after''"
  "header_token ''allow'' \<and> to_lowercase ''allow'' = ''allow''"
  "printable ''text/plain; charset=utf-8''" "printable ''no-store''"
  "printable ''application/json; charset=utf-8''" "printable ''text/plain; version=0.0.4; charset=utf-8''"
  by code_simp+

lemma printable_show_nat [simp]: "printable (show_nat n)"
  unfolding printable_def list_all_iff by (auto dest!: show_nat_digits simp: is_digit_def Let_def)

lemma probe_ready:
  assumes H: "http_laws H" and "meth = ''GET'' \<or> meth = ''HEAD''" and "hp_ready p \<noteq> []"
    and "hp_health p \<noteq> hp_ready p"
  shows "admin_response H ss p r m meth (hp_ready p) =
     Some \<lparr>re_status = (if is_ready r then 200 else 503), re_headers = [text_plain, no_store], re_body = Full (reason r)\<rparr>"
  using assms
  by (auto simp: admin_response_def b_status_def http_lawsD [OF H] b_headers_legal [OF H] builder_or_500_def
      text_plain_def no_store_def)

lemma overloaded_legal:
  assumes H: "http_laws H"
  shows "overloaded_response H ra =
     \<lparr>re_status = 503, re_headers = [(''retry-after'', show_nat ra), text_plain], re_body = Full ''Service Unavailable''\<rparr>"
  by (simp add: overloaded_response_def b_status_def http_lawsD [OF H] b_headers_legal [OF H] builder_or_500_def
      text_plain_def)

lemma allow_legal:
  assumes H: "http_laws H" and "printable (join '', '' allowed)" and "code = 204 \<or> code = 405"
  shows "allow_response H code allowed text =
     \<lparr>re_status = code, re_headers = [(''allow'', join '', '' allowed)], re_body = Full text\<rparr>"
  using assms(2,3) legal_static(4)
  by (auto simp: allow_response_def b_status_def b_header_def http_lawsD [OF H] builder_or_500_def)

lemma validation_status:
  assumes H: "http_laws (lb_http L)" shows "re_status (validation_response L issues) = 400"
  by (simp add: validation_response_def b_status_def http_lawsD [OF H] b_headers_legal [OF H] builder_or_500_def)

text \<open>The status of an answer that never reaches JavaScript.\<close>

definition from_cache :: "('r, 'v, 'd, 'sem) libs \<Rightarrow> string \<Rightarrow> response \<Rightarrow> bool" where
  "from_cache L id_header r \<longleftrightarrow> (\<exists>h ih rid m. r = fst (cached_response (lb_http L) h ih rid id_header m))"

lemma cache_phase_Inl:
  "cache_phase L e leaf d ih rid bh sh = (Inl r, sh') \<Longrightarrow> from_cache L (sh_request_id_header sh) r"
  unfolding cache_phase_def from_cache_def Let_def
  by (auto split: option.splits prod.splits) (metis fst_conv)+

lemma buffer_phase_Inl:
  "buffer_phase L e leaf d ih hb frs sh = Some (Inl r, sh') \<Longrightarrow> re_status r \<in> {400, 408, 413, 415}"
proof -
  have b: "re_status (body_err_response x) \<in> {400, 408, 413, 415}" for x by (cases x) (simp_all add: status_text_def)
  have dd: "re_status (decode_err_response x) \<in> {400, 408, 413, 415}" for x by (cases x) (simp_all add: status_text_def)
  have dp: "decode_phase L e lim d raw = Some (Inl x) \<Longrightarrow> re_status x \<in> {400, 408, 413, 415}" for lim raw x
    using dd by (auto simp: decode_phase_def split: option.splits sum.splits)
  assume "buffer_phase L e leaf d ih hb frs sh = Some (Inl r, sh')"
  then show ?thesis
    unfolding buffer_phase_def
    using b dp by (auto split: if_splits option.splits prod.splits sum.splits)
qed

lemma lookup_Inl:
  "first_lookup L e leaf d ih sh = (Inl r, sh') \<Longrightarrow> from_cache L (sh_request_id_header sh) r"
  "second_lookup L e leaf d ih sh key buffered sh2 = (Inl r, sh') \<Longrightarrow> from_cache L (sh_request_id_header sh2) r"
  by (auto simp: first_lookup_def second_lookup_def split: if_splits dest: cache_phase_Inl)

lemma dispatch_pre_early_status:
  assumes "dispatch_pre L e peer leaf d params ih frs hb sh = Some (Inl r, sh')" and "http_laws (lb_http L)"
  shows "from_cache L (sh_request_id_header sh) r \<or> re_status r \<in> {400, 408, 413, 415}"
  using assms(1)
proof (cases rule: dispatch_pre_cases)
  case (lookup1 x)
  then show ?thesis by (auto dest: lookup_Inl)
next
  case (multipart sh1 x)
  then show ?thesis by (auto simp: multipart_phase_def status_text_def split: option.splits)
next
  case (buffer sh1 x)
  then show ?thesis by (auto dest: buffer_phase_Inl)
next
  case (lookup2 sh2 x key buffered)
  then show ?thesis by (auto simp: same_config_def dest: lookup_Inl)
next
  case (schema x decoded)
  then show ?thesis
    using validation_status [OF assms(2)] by (auto simp: schema_phase_def split: option.splits sum.splits)
qed auto

section \<open>A small server for concrete examples\<close>

definition sample_libs :: "((string \<times> int) list, unit, bytes, nat) libs" where
  "sample_libs =
     \<lparr>lb_matchit = exact_matchit, lb_json = plain_json, lb_decoders = copy_decoders, lb_sem = nat_sem,
      lb_http = sample_http, lb_urlencoded = (\<lambda>_. []), lb_parse_boundary = (\<lambda>_. None),
      lb_multer = (\<lambda>_ _. \<lparr>fm_fields = [], fm_complete = True\<rparr>), lb_hash_bytes = (\<lambda>b. of_nat (length b)),
      lb_show_secs = (\<lambda>w. show_nat (unat w)), lb_rustls = plain_rustls\<rparr>"

definition sample_tuning :: tuning where
  "sample_tuning =
     \<lparr>tu_tls = None, tu_h2c = False, tu_header_read_timeout = None, tu_body_read_timeout = Some 10,
      tu_idle_timeout = None, tu_shutdown_timeout = 10000000000, tu_max_connections = Some 100,
      tu_proxy_protocol = False, tu_health_paths = default_health_paths, tu_admin_port = None, tu_access_log = True,
      tu_handshake_timeout = None, tu_max_headers = None, tu_max_header_size = None,
      tu_max_concurrent_streams = None, tu_initial_window_size = None, tu_max_reset_streams = None,
      tu_socket = default_socket_options\<rparr>"

definition sample_shared :: "((string \<times> int) list, unit, nat) shared" where
  "sample_shared =
     \<lparr>sh_bridge = bridge_new, sh_routes = sample_routes, sh_has_not_found = False, sh_custom_ip_headers = [],
      sh_custom_country_headers = [], sh_request_id_header = ''x-request-id'', sh_body_limit = Some 4,
      sh_cors = None, sh_schemas = [], sh_multipart = [], sh_cache = [], sh_tuning = sample_tuning,
      sh_metrics = metrics_new, sh_readiness = readiness_default,
      sh_overload = Some (limiter_new nat_sem 0 0 0 1 None)\<rparr>"

definition sample_env :: env where
  "sample_env = \<lparr>en_now = 0, en_uuid = ''u1'', en_done = 7, en_open = 9, en_fuel = 9, en_store = (0, 0, 0)\<rparr>"

definition sample_data :: "string \<Rightarrow> req_data" where
  "sample_data meth =
     \<lparr>da_method = meth, da_path = ''/u'', da_query_string = None, da_query = [], da_headers = []\<rparr>"

lemma sample_http_laws: "http_laws sample_http"
  by (simp add: http_laws_def sample_http_def)

lemma sample_routes_ok: "routes_ok sample_routes"
  by (simp add: routes_ok_def sample_routes_def)

end
