(* ===== verification/Cpu.thy ===== *)
theory Cpu
  imports Prelude Complex_Main
begin

text \<open>
  The number of worker threads (\<^verbatim>\<open>src/cpu.rs\<close>). The contents of the cgroup files (or their absence),
  the number of cores the system reports and the reading of an \<^verbatim>\<open>f64\<close> are arguments. A quota is the
  rational number the two fields denote; \<^verbatim>\<open>f64\<close> division agrees with it on the ceiling for
  quotas and periods in microseconds.
\<close>

section \<open>Definitions\<close>

text \<open>\<^verbatim>\<open>split_whitespace\<close>.\<close>

fun words_from :: "string \<Rightarrow> string \<Rightarrow> string list" where
  "words_from acc [] = (if acc = [] then [] else [acc])"
| "words_from acc (c # cs) =
     (if is_ws c then (if acc = [] then words_from [] cs else acc # words_from [] cs)
      else words_from (acc @ [c]) cs)"

definition split_whitespace :: "string \<Rightarrow> string list" where
  "split_whitespace s = words_from [] s"

definition cgroup_v2 :: "(string \<Rightarrow> rat option) \<Rightarrow> string option \<Rightarrow> rat option" where
  "cgroup_v2 parse_f64 cpu_max =
     (case cpu_max of
        None \<Rightarrow> None
      | Some raw \<Rightarrow>
          (case split_whitespace raw of
             quota # period # _ \<Rightarrow>
               (case parse_f64 period of
                  None \<Rightarrow> None
                | Some p \<Rightarrow>
                    if quota = ''max'' \<or> p \<le> 0 then None
                    else (case parse_f64 quota of
                            None \<Rightarrow> None
                          | Some q \<Rightarrow> if q \<le> 0 then None else Some (q / p)))
           | _ \<Rightarrow> None))"

definition cgroup_v1 :: "(string \<Rightarrow> rat option) \<Rightarrow> string option \<Rightarrow> string option \<Rightarrow> rat option" where
  "cgroup_v1 parse_f64 quota_us period_us =
     (case quota_us of
        None \<Rightarrow> None
      | Some qs \<Rightarrow>
          (case parse_f64 (trim qs) of
             None \<Rightarrow> None
           | Some q \<Rightarrow>
               (case period_us of
                  None \<Rightarrow> None
                | Some ps \<Rightarrow>
                    (case parse_f64 (trim ps) of
                       None \<Rightarrow> None
                     | Some p \<Rightarrow> if q \<le> 0 \<or> p \<le> 0 then None else Some (q / p)))))"

definition cgroup_cpu_quota ::
  "(string \<Rightarrow> rat option) \<Rightarrow> string option \<Rightarrow> string option \<Rightarrow> string option \<Rightarrow> rat option" where
  "cgroup_cpu_quota parse_f64 cpu_max quota_us period_us =
     (case cgroup_v2 parse_f64 cpu_max of
        Some q \<Rightarrow> Some q
      | None \<Rightarrow> cgroup_v1 parse_f64 quota_us period_us)"

definition worker_threads_auto ::
  "(string \<Rightarrow> rat option) \<Rightarrow> nat option \<Rightarrow> string option \<Rightarrow> string option \<Rightarrow> string option \<Rightarrow> nat" where
  "worker_threads_auto parse_f64 parallelism cpu_max quota_us period_us =
     (let cores = (case parallelism of Some n \<Rightarrow> n | None \<Rightarrow> 1)
      in case cgroup_cpu_quota parse_f64 cpu_max quota_us period_us of
           Some q \<Rightarrow> if q \<ge> 1 then max (min (nat \<lceil>q\<rceil>) cores) 1 else 1
         | None \<Rightarrow> cores)"

section \<open>Properties\<close>

lemma quota_pos: "cgroup_cpu_quota pf a b c = Some q \<Longrightarrow> 0 < q"
  by (auto simp: cgroup_cpu_quota_def cgroup_v2_def cgroup_v1_def split: option.splits list.splits if_splits)

text \<open>The number of workers is at least one and at most the number of cores (a
  \<^verbatim>\<open>NonZeroUsize\<close>, or one when unknown), and with a quota it is the quota rounded up, capped by the
  cores.\<close>

theorem worker_threads_bounds:
  assumes "parallelism \<noteq> Some 0"
  shows "let n = worker_threads_auto parse_f64 parallelism cpu_max quota_us period_us;
             cores = (case parallelism of Some n \<Rightarrow> n | None \<Rightarrow> 1)
         in 1 \<le> n \<and> n \<le> cores \<and>
            (case cgroup_cpu_quota parse_f64 cpu_max quota_us period_us of
               None \<Rightarrow> n = cores
             | Some q \<Rightarrow> n = min (nat \<lceil>q\<rceil>) cores)"
proof -
  let ?q = "cgroup_cpu_quota parse_f64 cpu_max quota_us period_us"
  have "nat \<lceil>q\<rceil> = 1" if "?q = Some q" "\<not> 1 \<le> q" for q
  proof -
    have "\<lceil>q\<rceil> = 1" using quota_pos [OF that(1)] that(2) by (intro ceiling_unique) auto
    then show ?thesis by simp
  qed
  moreover have "1 \<le> nat \<lceil>q\<rceil>" if "1 \<le> q" for q :: rat
    using that by (simp add: le_nat_iff one_le_ceiling)
  ultimately show ?thesis
    using assms by (auto simp: worker_threads_auto_def Let_def split: option.splits)
qed

definition micros :: "string \<Rightarrow> rat option" where
  "micros s = map_option of_nat (parse_u64 s)"

theorem worker_threads_bounds_witness:
  "let n = worker_threads_auto micros (Some 64) (Some ''150000 100000'') None None in 1 \<le> n \<and> n \<le> 64"
  using worker_threads_bounds [of "Some 64" micros "Some ''150000 100000''" None None]
  by (simp add: Let_def)

end
