(* ===== verification/Config.thy ===== *)
theory Config
  imports Server Cpu
begin

text \<open>
  From the options of \<^verbatim>\<open>listen()\<close> to the shared state of a server (\<^verbatim>\<open>src/lib.rs\<close>): the timeouts, the
  per-route configuration, the probe paths and the start-up checks. Options are \<^verbatim>\<open>i64\<close> values,
  integers here; durations are nanoseconds. The steps run in the order of the source, each
  may fail with the message of its error, and the first failure is the result. Binding the sockets,
  between the two halves here, is in \<open>Lifecycle\<close>. A dash in an error message is written in ASCII.
\<close>

section \<open>Definitions\<close>

definition DEFAULT_HEADER_READ_TIMEOUT_MS :: int where
  "DEFAULT_HEADER_READ_TIMEOUT_MS = 30000"

definition DEFAULT_BODY_READ_TIMEOUT_MS :: int where
  "DEFAULT_BODY_READ_TIMEOUT_MS = 30000"

definition DEFAULT_IDLE_TIMEOUT_MS :: int where
  "DEFAULT_IDLE_TIMEOUT_MS = 75000"

definition DEFAULT_HANDSHAKE_TIMEOUT_MS :: int where
  "DEFAULT_HANDSHAKE_TIMEOUT_MS = 10000"

definition DEFAULT_SHUTDOWN_TIMEOUT_MS :: int where
  "DEFAULT_SHUTDOWN_TIMEOUT_MS = 10000"

definition DEFAULT_QUEUE_TIMEOUT_MS :: int where
  "DEFAULT_QUEUE_TIMEOUT_MS = 1000"

definition or_default :: "'a option \<Rightarrow> 'a \<Rightarrow> 'a" where
  "or_default v d = (case v of None \<Rightarrow> d | Some x \<Rightarrow> x)"

definition timeout_ms :: "string \<Rightarrow> int option \<Rightarrow> int \<Rightarrow> string + nat option" where
  "timeout_ms name v default_ms =
     (let n = or_default v default_ms
      in if n = 0 then Inr None
         else if n > 0 then Inr (Some (nat n * MS))
         else Inl (name @ '': must be >= 0 (0 disables it), got '' @ show_int n))"

definition delay_ms :: "string \<Rightarrow> int option \<Rightarrow> int \<Rightarrow> string + nat" where
  "delay_ms name v default_ms =
     (let n = or_default v default_ms
      in if n \<ge> 0 then Inr (nat n * MS) else Inl (name @ '': must be >= 0, got '' @ show_int n))"

subsection \<open>Per-route options\<close>

record cache_options =
  ca_ttl_ms :: int
  ca_vary :: "string list option"
  ca_max_entries :: "int option"
  ca_max_body_bytes :: "int option"

record multipart_options =
  mo_max_file_size :: "int option"
  mo_max_field_size :: "int option"
  mo_max_files :: "int option"
  mo_max_fields :: "int option"
  mo_allowed_mime_types :: "string list option"
  mo_allowed_extensions :: "string list option"

record js_route =
  jd_method :: string
  jd_path :: string
  jd_leaf_id :: int
  jd_body_schema :: "string option"
  jd_query_schema :: "string option"
  jd_params_schema :: "string option"
  jd_multipart :: "multipart_options option"
  jd_cache :: "cache_options option"

text \<open>\<^verbatim>\<open>v.filter(|&n| n >= 0).map(|n| n as u64)\<close>, the same with the 32-bit cast, and the filter on
  positive values.\<close>

definition u64_of :: "int option \<Rightarrow> nat option" where
  "u64_of v = (case v of None \<Rightarrow> None | Some n \<Rightarrow> if n \<ge> 0 then Some (nat n) else None)"

definition u32_of :: "int option \<Rightarrow> u32 option" where
  "u32_of v = (case v of None \<Rightarrow> None | Some n \<Rightarrow> if n \<ge> 0 then Some (of_int n) else None)"

definition positive :: "int option \<Rightarrow> nat option" where
  "positive v = (case v of None \<Rightarrow> None | Some n \<Rightarrow> if n > 0 then Some (nat n) else None)"

definition multipart_config :: "multipart_options \<Rightarrow> multipart_config" where
  "multipart_config o' =
     \<lparr>mc_max_file_size = u64_of (mo_max_file_size o'), mc_max_field_size = u64_of (mo_max_field_size o'),
      mc_max_files = u32_of (mo_max_files o'), mc_max_fields = u32_of (mo_max_fields o'),
      mc_allowed_mime = map_option (map to_lowercase) (mo_allowed_mime_types o'),
      mc_allowed_ext = map_option (map to_lowercase) (mo_allowed_extensions o')\<rparr>"

definition cache_config_of :: "cache_options \<Rightarrow> cache_config" where
  "cache_config_of c =
     \<lparr>cc_ttl = nat (ca_ttl_ms c) * MS, cc_vary = map to_lowercase (or_default (ca_vary c) []),
      cc_max_entries = or_default (positive (ca_max_entries c)) 1024,
      cc_max_body_bytes = or_default (positive (ca_max_body_bytes c)) (1024 * 1024)\<rparr>"

definition route_label :: "js_route \<Rightarrow> string" where
  "route_label r = ''route '' @ jd_method r @ '' '' @ jd_path r"

definition check_route :: "'v json_ops \<Rightarrow> js_route \<Rightarrow> string + 'v leaf_schema" where
  "check_route J r =
     (if jd_multipart r \<noteq> None \<and> jd_body_schema r \<noteq> None
      then Inl (route_label r @ '': schema.body is not supported on a multipart route''
                @ '' - validate the parsed parts inside the handler'')
      else and_then (schema_build J \<lparr>sd_body = jd_body_schema r, sd_query = jd_query_schema r, sd_params = jd_params_schema r\<rparr>)
        (\<lambda>leaf.
           case jd_cache r of
             None \<Rightarrow> Inr leaf
           | Some c \<Rightarrow>
               if to_uppercase (jd_method r) \<notin> {''GET'', ''HEAD'', ''QUERY'', ''ALL''}
               then Inl (route_label r @ '': cache is only supported on GET/HEAD/QUERY (and ALL, ''
                         @ ''where only safe methods are served from it)'')
               else if ca_ttl_ms c \<le> 0 then Inl (route_label r @ '': cache.ttl must be > 0'')
               else Inr leaf))"

text \<open>The slots of the leaves; a leaf id outside the table (also a negative one, whose cast is
  huge) fills none.\<close>

record 'v slots =
  sl_schema :: "'v leaf_schema list"
  sl_multipart :: "multipart_config option list"
  sl_cache :: "leaf_cache option list"
  sl_defs :: "route_def list"

definition empty_schema :: "'v leaf_schema" where
  "empty_schema = \<lparr>sc_body = None, sc_query = None, sc_params = None\<rparr>"

definition add_route :: "'v json_ops \<Rightarrow> js_route \<Rightarrow> 'v slots \<Rightarrow> string + 'v slots" where
  "add_route J r s =
     and_then (check_route J r)
       (\<lambda>leaf.
          let i = nat (jd_leaf_id r);
              s = (if jd_leaf_id r \<ge> 0 \<and> i < length (sl_schema s)
                   then s\<lparr>sl_schema := (sl_schema s)[i := leaf],
                          sl_multipart := (sl_multipart s)[i := map_option multipart_config (jd_multipart r)],
                          sl_cache := (sl_cache s)[i := map_option (\<lambda>c. cache_new (cache_config_of c)) (jd_cache r)]\<rparr>
                   else s)
          in Inr (s\<lparr>sl_defs := sl_defs s @ [\<lparr>rd_method = jd_method r, rd_path = jd_path r, rd_leaf_id = jd_leaf_id r\<rparr>]\<rparr>))"

fun add_routes :: "'v json_ops \<Rightarrow> js_route list \<Rightarrow> 'v slots \<Rightarrow> string + 'v slots" where
  "add_routes J [] s = Inr s"
| "add_routes J (r # rs) s = and_then (add_route J r s) (add_routes J rs)"

definition compile_routes :: "'v json_ops \<Rightarrow> js_route list \<Rightarrow> string + 'v slots" where
  "compile_routes J rs =
     (let n = length rs
      in add_routes J rs
           \<lparr>sl_schema = replicate n empty_schema, sl_multipart = replicate n None, sl_cache = replicate n None,
            sl_defs = []\<rparr>)"

subsection \<open>Server options\<close>

record tls_options =
  to_cert :: string
  to_key :: string

record listen_options =
  lo_custom_ip_headers :: "string list option"
  lo_custom_country_headers :: "string list option"
  lo_request_id_header :: "string option"
  lo_body_limit :: "int option"
  lo_cors :: "cors_options option"
  lo_tls :: "tls_options option"
  lo_h2c :: "bool option"
  lo_header_read_timeout :: "int option"
  lo_body_read_timeout :: "int option"
  lo_idle_timeout :: "int option"
  lo_handshake_timeout :: "int option"
  lo_max_headers :: "int option"
  lo_max_header_size :: "int option"
  lo_shutdown_timeout :: "int option"
  lo_pre_shutdown_delay :: "int option"
  lo_unix_path :: "string option"
  lo_backlog :: "int option"
  lo_reuse_port :: "bool option"
  lo_no_delay :: "bool option"
  lo_max_connections :: "int option"
  lo_proxy_protocol :: "bool option"
  lo_worker_threads :: "int option"
  lo_health_path :: "string option"
  lo_ready_path :: "string option"
  lo_metrics_path :: "string option"
  lo_admin_port :: "u16 option"
  lo_access_log :: "bool option"
  lo_max_concurrent_requests :: "int option"
  lo_max_queue :: "int option"
  lo_queue_timeout :: "int option"
  lo_retry_after :: "int option"
  lo_overload_shed_after :: "int option"
  lo_max_concurrent_streams :: "int option"
  lo_initial_window_size :: "int option"
  lo_max_reset_streams_per_sec :: "int option"

definition u32_word :: "int option \<Rightarrow> u32 option" where
  "u32_word v = (case v of None \<Rightarrow> None | Some n \<Rightarrow> if n \<ge> 0 then Some (of_int n) else None)"

definition health_paths_of :: "listen_options \<Rightarrow> health_paths" where
  "health_paths_of o' =
     (let d = default_health_paths;
          metrics_default = (if lo_admin_port o' \<noteq> None then hp_metrics d else [])
      in \<lparr>hp_health = or_default (lo_health_path o') (hp_health d),
          hp_ready = or_default (lo_ready_path o') (hp_ready d),
          hp_metrics = or_default (lo_metrics_path o') metrics_default\<rparr>)"

text \<open>The backlog is cast to \<^verbatim>\<open>i32\<close>.\<close>

definition socket_of :: "listen_options \<Rightarrow> socket_options" where
  "socket_of o' =
     (let d = default_socket_options
      in \<lparr>so_backlog = or_default (map_option (\<lambda>n. sint (of_nat n :: u32)) (positive (lo_backlog o'))) (so_backlog d),
          so_reuse_port = or_default (lo_reuse_port o') (so_reuse_port d),
          so_nodelay = or_default (lo_no_delay o') (so_nodelay d)\<rparr>)"

definition tuning_of :: "listen_options \<Rightarrow> tls_acceptor option \<Rightarrow> nat \<Rightarrow> string + tuning" where
  "tuning_of o' tls shutdown_timeout =
     and_then (timeout_ms ''headerReadTimeout'' (lo_header_read_timeout o') DEFAULT_HEADER_READ_TIMEOUT_MS) (\<lambda>hr.
     and_then (timeout_ms ''bodyReadTimeout'' (lo_body_read_timeout o') DEFAULT_BODY_READ_TIMEOUT_MS) (\<lambda>br.
     and_then (timeout_ms ''idleTimeout'' (lo_idle_timeout o') DEFAULT_IDLE_TIMEOUT_MS) (\<lambda>idle.
     and_then (timeout_ms ''handshakeTimeout'' (lo_handshake_timeout o') DEFAULT_HANDSHAKE_TIMEOUT_MS) (\<lambda>hs.
       Inr \<lparr>tu_tls = tls, tu_h2c = or_default (lo_h2c o') False, tu_header_read_timeout = hr,
            tu_body_read_timeout = br, tu_idle_timeout = idle, tu_shutdown_timeout = shutdown_timeout,
            tu_max_connections = positive (lo_max_connections o'),
            tu_proxy_protocol = or_default (lo_proxy_protocol o') False,
            tu_health_paths = health_paths_of o', tu_admin_port = lo_admin_port o',
            tu_access_log = or_default (lo_access_log o') False, tu_handshake_timeout = hs,
            tu_max_headers = positive (lo_max_headers o'), tu_max_header_size = positive (lo_max_header_size o'),
            tu_max_concurrent_streams = u32_word (lo_max_concurrent_streams o'),
            tu_initial_window_size = u32_word (lo_initial_window_size o'),
            tu_max_reset_streams = u64_of (lo_max_reset_streams_per_sec o'), tu_socket = socket_of o'\<rparr>))))"

text \<open>The route a probe would hide.\<close>

definition probe_hit :: "'r matchit \<Rightarrow> 'r routes \<Rightarrow> string \<Rightarrow> matched option" where
  "probe_hit M rs endpoint =
     (case match_route M rs ''GET'' endpoint of Some m \<Rightarrow> Some m | None \<Rightarrow> match_route M rs ''HEAD'' endpoint)"

definition collision_message :: "route_def list \<Rightarrow> matched \<Rightarrow> string \<Rightarrow> string \<Rightarrow> string" where
  "collision_message defs m name endpoint =
     (case leaf_nth defs (md_leaf_id m) of
        Some d \<Rightarrow> ''route '' @ rd_method d @ '' '' @ rd_path d
      | None \<Rightarrow> ''a route'') @ '' collides with the '' @ name @ '' endpoint ('' @ endpoint @
     ''): the probe is answered before routing, so the route would never run. Rename the route, '' @
     ''disable the endpoint with an empty path, or move probes to a separate port via health.port''"

fun check_endpoints :: "'r matchit \<Rightarrow> 'r routes \<Rightarrow> route_def list \<Rightarrow> (string \<times> string) list \<Rightarrow> string + unit" where
  "check_endpoints M rs defs [] = Inr ()"
| "check_endpoints M rs defs ((name, endpoint) # es) =
     (if endpoint = [] then check_endpoints M rs defs es
      else case probe_hit M rs endpoint of
             Some m \<Rightarrow> Inl (collision_message defs m name endpoint)
           | None \<Rightarrow> check_endpoints M rs defs es)"

definition check_probes :: "'r matchit \<Rightarrow> 'r routes \<Rightarrow> route_def list \<Rightarrow> tuning \<Rightarrow> string + unit" where
  "check_probes M rs defs t =
     (if tu_admin_port t = None
      then let p = tu_health_paths t
           in check_endpoints M rs defs [(''health'', hp_health p), (''readiness'', hp_ready p), (''metrics'', hp_metrics p)]
      else Inr ())"

definition workers_of :: "listen_options \<Rightarrow> nat \<Rightarrow> nat" where
  "workers_of o' auto_workers = or_default (positive (lo_worker_threads o')) auto_workers"

definition limiter_of :: "'sem semaphore \<Rightarrow> listen_options \<Rightarrow> nat \<Rightarrow> nat option \<Rightarrow> 'sem limiter option" where
  "limiter_of S o' queue_timeout shed_after =
     map_option (\<lambda>limit. limiter_new S limit (or_default (positive (lo_max_queue o')) 0) queue_timeout
                   (or_default (positive (lo_retry_after o')) 1) shed_after)
       (positive (lo_max_concurrent_requests o'))"

definition shared_of ::
  "('r, 'v, 'd, 'sem) libs \<Rightarrow> bool \<Rightarrow> listen_options \<Rightarrow> 'v slots \<Rightarrow> 'r routes \<Rightarrow> tuning \<Rightarrow> 'sem limiter option
   \<Rightarrow> ('r, 'v, 'sem) shared" where
  "shared_of L has_not_found o' s rs t lmt =
     \<lparr>sh_bridge = bridge_new, sh_routes = rs, sh_has_not_found = has_not_found,
      sh_custom_ip_headers = or_default (lo_custom_ip_headers o') [],
      sh_custom_country_headers = or_default (lo_custom_country_headers o') [],
      sh_request_id_header = or_default (lo_request_id_header o') ''x-request-id'',
      sh_body_limit = u64_of (lo_body_limit o'), sh_cors = map_option cors_new (lo_cors o'),
      sh_schemas = sl_schema s, sh_multipart = sl_multipart s, sh_cache = sl_cache s, sh_tuning = t,
      sh_metrics = metrics_new, sh_readiness = readiness_default, sh_overload = lmt\<rparr>"

text \<open>What \<^verbatim>\<open>listen\<close> does before it binds. \<open>doorbell_err\<close> is the error of building the thread-safe function, if
  there is one.\<close>

record ('r, 'v) prepared =
  pr_slots :: "'v slots"
  pr_routes :: "'r routes"
  pr_shutdown_timeout :: nat
  pr_tuning :: tuning

definition tls_of :: "rustls \<Rightarrow> listen_options \<Rightarrow> string + tls_acceptor option" where
  "tls_of R o' =
     (case lo_tls o' of
        None \<Rightarrow> Inr None
      | Some t \<Rightarrow> and_then (build_acceptor R (to_cert t) (to_key t)) (\<lambda>a. Inr (Some a)))"

definition prepare ::
  "('r, 'v, 'd, 'sem) libs \<Rightarrow> string option \<Rightarrow> js_route list \<Rightarrow> listen_options \<Rightarrow> string + ('r, 'v) prepared" where
  "prepare L doorbell_err routes o' =
     and_then (compile_routes (lb_json L) routes) (\<lambda>s.
     and_then (build (lb_matchit L) (sl_defs s)) (\<lambda>rs.
     and_then (case doorbell_err of Some e \<Rightarrow> Inl e | None \<Rightarrow> Inr ()) (\<lambda>_.
     and_then (tls_of (lb_rustls L) o') (\<lambda>tls.
     and_then (delay_ms ''shutdownTimeout'' (lo_shutdown_timeout o') DEFAULT_SHUTDOWN_TIMEOUT_MS) (\<lambda>shutdown_timeout.
     and_then (tuning_of o' tls shutdown_timeout) (\<lambda>t.
     and_then (check_probes (lb_matchit L) rs (sl_defs s) t) (\<lambda>_.
       Inr \<lparr>pr_slots = s, pr_routes = rs, pr_shutdown_timeout = shutdown_timeout, pr_tuning = t\<rparr>)))))))"

text \<open>What it builds after the sockets are bound and the runtime is up: the shared state, the close deadline and the
  pre-shutdown delay.\<close>

definition assemble ::
  "('r, 'v, 'd, 'sem) libs \<Rightarrow> bool \<Rightarrow> listen_options \<Rightarrow> ('r, 'v) prepared \<Rightarrow> string + ('r, 'v, 'sem) shared \<times> nat \<times> nat" where
  "assemble L has_not_found o' p =
     and_then (delay_ms ''queueTimeout'' (lo_queue_timeout o') DEFAULT_QUEUE_TIMEOUT_MS) (\<lambda>queue_timeout.
     and_then (timeout_ms ''overloadShedAfter'' (lo_overload_shed_after o') 0) (\<lambda>shed.
     and_then (delay_ms ''preShutdownDelay'' (lo_pre_shutdown_delay o') 0) (\<lambda>pre_delay.
       Inr (shared_of L has_not_found o' (pr_slots p) (pr_routes p) (pr_tuning p)
              (limiter_of (lb_sem L) o' queue_timeout shed),
            pr_shutdown_timeout p + 1000 * MS, pre_delay))))"

text \<open>The configuration as a whole, for a system where every call succeeds.\<close>

definition build_server ::
  "('r, 'v, 'd, 'sem) libs \<Rightarrow> js_route list \<Rightarrow> bool \<Rightarrow> listen_options \<Rightarrow> string + ('r, 'v, 'sem) shared \<times> nat \<times> nat" where
  "build_server L routes has_not_found o' =
     and_then (prepare L None routes o') (assemble L has_not_found o')"

section \<open>Lemmas\<close>

lemma timeout_ms_Inr:
  "timeout_ms name v d = Inr t \<longleftrightarrow>
     0 \<le> or_default v d \<and> t = (if or_default v d = 0 then None else Some (nat (or_default v d) * MS))"
  by (auto simp: timeout_ms_def Let_def)

lemma tuning_of_Inr:
  assumes "tuning_of o' tls st = Inr t"
  shows "timeout_ms ''headerReadTimeout'' (lo_header_read_timeout o') DEFAULT_HEADER_READ_TIMEOUT_MS = Inr (tu_header_read_timeout t)"
    and "timeout_ms ''bodyReadTimeout'' (lo_body_read_timeout o') DEFAULT_BODY_READ_TIMEOUT_MS = Inr (tu_body_read_timeout t)"
    and "timeout_ms ''idleTimeout'' (lo_idle_timeout o') DEFAULT_IDLE_TIMEOUT_MS = Inr (tu_idle_timeout t)"
    and "timeout_ms ''handshakeTimeout'' (lo_handshake_timeout o') DEFAULT_HANDSHAKE_TIMEOUT_MS = Inr (tu_handshake_timeout t)"
    and "tu_admin_port t = lo_admin_port o'" and "tu_health_paths t = health_paths_of o'"
    and "tu_socket t = socket_of o'" and "tu_tls t = tls"
  using assms by (auto simp: tuning_of_def and_then_Inr)

lemma build_server_Inr:
  assumes "build_server L routes nf o' = Inr (sh, deadline, pre)"
  obtains s rs tls st t qt shed where
    "compile_routes (lb_json L) routes = Inr s" and "build (lb_matchit L) (sl_defs s) = Inr rs"
    and "tuning_of o' tls st = Inr t" and "check_probes (lb_matchit L) rs (sl_defs s) t = Inr ()"
    and "sh = shared_of L nf o' s rs t (limiter_of (lb_sem L) o' qt shed)"
  using assms unfolding build_server_def prepare_def assemble_def and_then_Inr by auto

lemma admin_response_path:
  "admin_response H ss p r m meth path \<noteq> None \<Longrightarrow>
     (meth = ''GET'' \<or> meth = ''HEAD'') \<and> path \<noteq> [] \<and> path \<in> {hp_health p, hp_ready p, hp_metrics p}"
  by (auto simp: admin_response_def split: if_splits)

text \<open>What the start-up checks establish for every leaf.\<close>

definition slots_ok :: "nat \<Rightarrow> 'v slots \<Rightarrow> bool" where
  "slots_ok n s \<longleftrightarrow>
     length (sl_schema s) = n \<and> length (sl_multipart s) = n \<and> length (sl_cache s) = n \<and>
     (\<forall>i < n. (sl_multipart s ! i \<noteq> None \<longrightarrow> \<not> schema_has_body (sl_schema s ! i)) \<and>
        (\<forall>c. sl_cache s ! i = Some c \<longrightarrow>
           lc_store c = [] \<and> cc_ttl (lc_config c) > 0 \<and> cc_max_entries (lc_config c) > 0))"

lemma compile_None: "compile J None = Inr None"
  by (simp add: compile_def)

lemma schema_build_no_body: "schema_build J d = Inr s \<Longrightarrow> sd_body d = None \<Longrightarrow> \<not> schema_has_body s"
  by (auto simp: schema_build_def compile_None schema_has_body_def split: sum.splits)

lemma check_route_ok:
  assumes "check_route J r = Inr leaf"
  shows "jd_multipart r \<noteq> None \<longrightarrow> \<not> schema_has_body leaf"
    and "jd_cache r = Some c \<Longrightarrow> ca_ttl_ms c > 0"
  using assms schema_build_no_body [of J _ leaf]
  by (fastforce simp: check_route_def and_then_Inr split: if_splits option.splits)+

lemma positive_pos: "or_default (positive v) d > 0" if "d > 0"
  using that by (auto simp: or_default_def positive_def split: option.splits)

lemma add_route_ok:
  assumes "add_route J r s = Inr s'" and "slots_ok n s"
  shows "slots_ok n s'"
proof -
  obtain leaf where leaf: "check_route J r = Inr leaf" using assms(1) by (auto simp: add_route_def and_then_Inr)
  have cache: "lc_store c = [] \<and> cc_ttl (lc_config c) > 0 \<and> cc_max_entries (lc_config c) > 0"
    if "map_option (\<lambda>c. cache_new (cache_config_of c)) (jd_cache r) = Some c" for c
    using that check_route_ok(2) [OF leaf]
    by (auto simp: cache_new_def cache_config_of_def MS_def positive_pos)
  show ?thesis
    using assms leaf check_route_ok(1) [OF leaf] cache
    by (auto simp: add_route_def and_then_Inr slots_ok_def Let_def nth_list_update split: if_splits)
qed

lemma add_routes_ok: "add_routes J rs s = Inr s' \<Longrightarrow> slots_ok n s \<Longrightarrow> slots_ok n s'"
  by (induction rs arbitrary: s) (auto simp: and_then_Inr intro: add_route_ok)

lemma compile_routes_ok: "compile_routes J rs = Inr s \<Longrightarrow> slots_ok (length rs) s"
  unfolding compile_routes_def Let_def
  by (erule add_routes_ok) (simp add: slots_ok_def)

section \<open>Properties\<close>

text \<open>A protective timeout is off only when it was set to zero. When \<^verbatim>\<open>listen\<close> succeeds, each of
  the header, body, idle and handshake timeouts is the configured number of milliseconds, or
  its default when it was not given, and is disabled exactly when the option is zero; a
  negative value makes \<^verbatim>\<open>listen\<close> fail.\<close>

theorem protective_timeouts_on:
  assumes "build_server L routes nf o' = Inr (sh, deadline, pre)"
  shows "(tu_header_read_timeout (sh_tuning sh) = None \<longleftrightarrow> lo_header_read_timeout o' = Some 0) \<and>
    (tu_body_read_timeout (sh_tuning sh) = None \<longleftrightarrow> lo_body_read_timeout o' = Some 0) \<and>
    (tu_idle_timeout (sh_tuning sh) = None \<longleftrightarrow> lo_idle_timeout o' = Some 0) \<and>
    (tu_handshake_timeout (sh_tuning sh) = None \<longleftrightarrow> lo_handshake_timeout o' = Some 0) \<and>
    (\<forall>n. lo_body_read_timeout o' = Some n \<longrightarrow>
       0 \<le> n \<and> (n > 0 \<longrightarrow> tu_body_read_timeout (sh_tuning sh) = Some (nat n * MS)))"
proof (intro conjI)
  from assms obtain s rs tls st t qt shed where t: "tuning_of o' tls st = Inr t"
    and sh: "sh = shared_of L nf o' s rs t (limiter_of (lb_sem L) o' qt shed)"
    by (rule build_server_Inr)
  have "sh_tuning sh = t" by (simp add: sh shared_of_def)
  with tuning_of_Inr [OF t] show
    "tu_header_read_timeout (sh_tuning sh) = None \<longleftrightarrow> lo_header_read_timeout o' = Some 0"
    "tu_body_read_timeout (sh_tuning sh) = None \<longleftrightarrow> lo_body_read_timeout o' = Some 0"
    "tu_idle_timeout (sh_tuning sh) = None \<longleftrightarrow> lo_idle_timeout o' = Some 0"
    "tu_handshake_timeout (sh_tuning sh) = None \<longleftrightarrow> lo_handshake_timeout o' = Some 0"
    "\<forall>n. lo_body_read_timeout o' = Some n \<longrightarrow>
           0 \<le> n \<and> (n > 0 \<longrightarrow> tu_body_read_timeout (sh_tuning sh) = Some (nat n * MS))"
    by (auto simp: timeout_ms_Inr or_default_def DEFAULT_HEADER_READ_TIMEOUT_MS_def DEFAULT_BODY_READ_TIMEOUT_MS_def
        DEFAULT_IDLE_TIMEOUT_MS_def DEFAULT_HANDSHAKE_TIMEOUT_MS_def split: option.splits if_splits)
qed

text \<open>C32: A probe never hides a route. When \<^verbatim>\<open>listen\<close> succeeds with the probes on the main port, no
  request that the probe code answers matches a route of the application, patterns with
  parameters included.\<close>

theorem probes_never_shadow_routes:
  assumes "build_server L routes nf o' = Inr (sh, deadline, pre)"
    and "tu_admin_port (sh_tuning sh) = None"
    and "admin_response H ss (tu_health_paths (sh_tuning sh)) rd m meth path \<noteq> None"
  shows "match_route (lb_matchit L) (sh_routes sh) meth path = None"
proof -
  from assms(1) obtain s rs tls st t qt shed where p: "check_probes (lb_matchit L) rs (sl_defs s) t = Inr ()"
    and sh: "sh = shared_of L nf o' s rs t (limiter_of (lb_sem L) o' qt shed)"
    by (rule build_server_Inr)
  have t: "sh_tuning sh = t" "sh_routes sh = rs" by (simp_all add: sh shared_of_def)
  note path = admin_response_path [OF assms(3)]
  have "probe_hit (lb_matchit L) rs path = None"
    using p assms(2) path t
    by (auto simp: check_probes_def Let_def split: if_splits option.splits)
  with path t show ?thesis by (auto simp: probe_hit_def split: option.splits)
qed

text \<open>C33: The start-up checks hold for every leaf of a server that started: the three tables have
  one slot per route, no multipart leaf demands a JSON body, and every cache starts empty with
  a positive lifetime and room for at least one entry.\<close>

theorem leaf_tables_consistent:
  assumes "build_server L routes nf o' = Inr (sh, deadline, pre)"
  shows "(length (sh_schemas sh) = length routes \<and> length (sh_multipart sh) = length routes \<and>
         length (sh_cache sh) = length routes) \<and>
    (\<forall>leaf. leaf_multipart_of sh leaf \<noteq> None \<longrightarrow>
           (case leaf_schema_of sh leaf of None \<Rightarrow> True | Some s \<Rightarrow> \<not> schema_has_body s)) \<and>
    (\<forall>leaf c. leaf_cache_of sh leaf = Some c \<longrightarrow>
           cache_inv c \<and> lc_store c = [] \<and> cc_ttl (lc_config c) > 0 \<and> cc_max_entries (lc_config c) > 0)"
proof (rule conjI [OF _ conjI])
  from assms obtain s rs tls st t qt shed where s: "compile_routes (lb_json L) routes = Inr s"
    and sh: "sh = shared_of L nf o' s rs t (limiter_of (lb_sem L) o' qt shed)"
    by (rule build_server_Inr)
  have tabs: "sh_schemas sh = sl_schema s" "sh_multipart sh = sl_multipart s" "sh_cache sh = sl_cache s"
    by (simp_all add: sh shared_of_def)
  note ok = compile_routes_ok [OF s]
  show "length (sh_schemas sh) = length routes \<and> length (sh_multipart sh) = length routes \<and>
         length (sh_cache sh) = length routes"
    using ok by (simp add: slots_ok_def tabs)
  show "\<forall>leaf. leaf_multipart_of sh leaf \<noteq> None \<longrightarrow>
           (case leaf_schema_of sh leaf of None \<Rightarrow> True | Some s \<Rightarrow> \<not> schema_has_body s)"
    using ok by (auto simp: slots_ok_def tabs leaf_multipart_of_def leaf_schema_of_def leaf_nth_def split: option.splits)
  show "\<forall>leaf c. leaf_cache_of sh leaf = Some c \<longrightarrow>
           cache_inv c \<and> lc_store c = [] \<and> cc_ttl (lc_config c) > 0 \<and> cc_max_entries (lc_config c) > 0"
    using ok by (auto simp: slots_ok_def tabs leaf_cache_of_def leaf_nth_def cache_inv_def split: option.splits if_splits)
qed

definition sample_options :: listen_options where
  "sample_options =
     \<lparr>lo_custom_ip_headers = None, lo_custom_country_headers = None, lo_request_id_header = None,
      lo_body_limit = Some 10, lo_cors = None, lo_tls = None, lo_h2c = None, lo_header_read_timeout = Some 0,
      lo_body_read_timeout = None, lo_idle_timeout = Some 5000, lo_handshake_timeout = None, lo_max_headers = None,
      lo_max_header_size = None, lo_shutdown_timeout = None, lo_pre_shutdown_delay = None, lo_unix_path = None,
      lo_backlog = None, lo_reuse_port = None, lo_no_delay = None, lo_max_connections = None,
      lo_proxy_protocol = None, lo_worker_threads = None, lo_health_path = None, lo_ready_path = None,
      lo_metrics_path = None, lo_admin_port = None, lo_access_log = None, lo_max_concurrent_requests = Some 2,
      lo_max_queue = None, lo_queue_timeout = None, lo_retry_after = None, lo_overload_shed_after = None,
      lo_max_concurrent_streams = None, lo_initial_window_size = None, lo_max_reset_streams_per_sec = None\<rparr>"

definition sample_js_route :: js_route where
  "sample_js_route =
     \<lparr>jd_method = ''get'', jd_path = ''/u'', jd_leaf_id = 0, jd_body_schema = None, jd_query_schema = None,
      jd_params_schema = None, jd_multipart = None,
      jd_cache = Some \<lparr>ca_ttl_ms = 100, ca_vary = None, ca_max_entries = None, ca_max_body_bytes = None\<rparr>\<rparr>"

lemma sample_compiled:
  "compile_routes plain_json [sample_js_route] = Inr
     \<lparr>sl_schema = [empty_schema], sl_multipart = [None],
      sl_cache = [Some (cache_new (cache_config_of (the (jd_cache sample_js_route))))],
      sl_defs = [\<lparr>rd_method = ''get'', rd_path = ''/u'', rd_leaf_id = 0\<rparr>]\<rparr>"
proof -
  have up: "to_uppercase ''get'' = ''GET''" by code_simp
  have "schema_build plain_json \<lparr>sd_body = None, sd_query = None, sd_params = None\<rparr> = Inr empty_schema"
    by (simp add: schema_build_def compile_None empty_schema_def)
  then show ?thesis
    by (simp add: compile_routes_def add_route_def check_route_def and_then_def sample_js_route_def up Let_def)
qed

lemma sample_built_routes:
  "build exact_matchit [\<lparr>rd_method = ''get'', rd_path = ''/u'', rd_leaf_id = 0\<rparr>] =
     Inr \<lparr>by_method = [(''GET'', [(''/u'', 0)])], all_tree = None\<rparr>"
  by code_simp

lemma sample_server:
  "\<exists>sh d p. build_server sample_libs [sample_js_route] False sample_options = Inr (sh, d, p) \<and>
     tu_admin_port (sh_tuning sh) = None \<and> hp_health (tu_health_paths (sh_tuning sh)) = ''/healthz''"
  using sample_compiled sample_built_routes
  by (simp add: build_server_def prepare_def assemble_def tls_of_def sample_libs_def and_then_def sample_options_def delay_ms_def timeout_ms_def tuning_of_def
      or_default_def Let_def DEFAULT_HEADER_READ_TIMEOUT_MS_def DEFAULT_BODY_READ_TIMEOUT_MS_def
      DEFAULT_IDLE_TIMEOUT_MS_def DEFAULT_HANDSHAKE_TIMEOUT_MS_def DEFAULT_SHUTDOWN_TIMEOUT_MS_def
      DEFAULT_QUEUE_TIMEOUT_MS_def health_paths_of_def default_health_paths_def check_probes_def probe_hit_def
      match_route_def match_tree_def exact_matchit_def shared_of_def)

theorem protective_timeouts_on_witness:
  "\<exists>sh d p. build_server sample_libs [sample_js_route] False sample_options = Inr (sh, d, p) \<and>
     tu_header_read_timeout (sh_tuning sh) = None \<and> tu_body_read_timeout (sh_tuning sh) \<noteq> None"
proof -
  from sample_server obtain sh d p
    where b: "build_server sample_libs [sample_js_route] False sample_options = Inr (sh, d, p)" by blast
  from protective_timeouts_on [OF b] b show ?thesis by (auto simp: sample_options_def)
qed

theorem probes_never_shadow_routes_witness:
  "\<exists>sh. match_route exact_matchit (sh_routes sh) ''GET'' ''/healthz'' = None \<and>
     hp_health (tu_health_paths (sh_tuning (sh :: ((string \<times> int) list, unit, nat) shared))) = ''/healthz''"
proof -
  from sample_server obtain sh d p
    where b: "build_server sample_libs [sample_js_route] False sample_options = Inr (sh, d, p)"
      and a: "tu_admin_port (sh_tuning sh) = None" "hp_health (tu_health_paths (sh_tuning sh)) = ''/healthz''" by blast
  have "admin_response sample_http (\<lambda>_. []) (tu_health_paths (sh_tuning sh)) readiness_default metrics_new ''GET'' ''/healthz'' \<noteq> None"
    using a(2) by (simp add: admin_response_def)
  from probes_never_shadow_routes [OF b a(1) this] a(2) show ?thesis by (auto simp: sample_libs_def)
qed

theorem leaf_tables_consistent_witness:
  "\<exists>sh d p. build_server sample_libs [sample_js_route] False sample_options = Inr (sh, d, p) \<and>
     length (sh_cache sh) = 1"
proof -
  from sample_server obtain sh d p
    where b: "build_server sample_libs [sample_js_route] False sample_options = Inr (sh, d, p)" by blast
  from leaf_tables_consistent [OF b] b show ?thesis by auto
qed

end
