(* ===== verification/Proxy_Protocol.thy ===== *)
theory Proxy_Protocol
  imports Prelude
begin

unbundle bit_operations_syntax

text \<open>
  The PROXY protocol prefix of \<^verbatim>\<open>src/proxy_protocol.rs\<close>: reading the header off a
  connection, versions 1 and 2, and replaying what was read too far. The connection is the
  sequence of reads it will deliver (\<open>sock\<close>): chunks of any size, an I/O error, and then
  end of file. Waiting is invisible to the code, so this is all a reader can observe.

  The locale \<open>byte_source\<close> is the contract of an \<^verbatim>\<open>AsyncRead\<close>: it is interpreted on the
  socket and on \<open>prefixed_io\<close>, the wrapper that replays the leftover.
\<close>

section \<open>Definitions\<close>

datatype read_event = Arrives bytes | Read_Error

type_synonym sock = "read_event list"

text \<open>One \<^verbatim>\<open>read\<close> into a buffer of \<open>cap\<close> bytes; no bytes means end of file.\<close>

fun sock_read :: "sock \<Rightarrow> nat \<Rightarrow> unit + bytes \<times> sock" where
  "sock_read [] cap = Inr ([], [])"
| "sock_read (Read_Error # s) cap = Inl ()"
| "sock_read (Arrives b # s) cap =
     (if length b \<le> cap then Inr (b, s) else Inr (take cap b, Arrives (drop cap b) # s))"

definition SIG_V2 :: bytes where
  "SIG_V2 = [0x0D, 0x0A, 0x0D, 0x0A, 0x00, 0x0D, 0x0A, 0x51, 0x55, 0x49, 0x54, 0x0A]"

definition SIG_V1 :: bytes where
  "SIG_V1 = str_bytes ''PROXY ''"

definition MAX_V1 :: nat where
  "MAX_V1 = 107"

record prefixed_io =
  pi_inner :: sock
  pi_prefix :: bytes
  pi_pos :: nat

definition prefixed_new :: "sock \<Rightarrow> bytes \<Rightarrow> prefixed_io" where
  "prefixed_new inner pre = \<lparr>pi_inner = inner, pi_prefix = pre, pi_pos = 0\<rparr>"

definition prefixed_read :: "prefixed_io \<Rightarrow> nat \<Rightarrow> unit + bytes \<times> prefixed_io" where
  "prefixed_read me cap =
     (if pi_pos me < length (pi_prefix me)
      then let rest = drop (pi_pos me) (pi_prefix me);
               n = min (length rest) cap
           in Inr (take n rest, me\<lparr>pi_pos := pi_pos me + n\<rparr>)
      else (case sock_read (pi_inner me) cap of
              Inl e \<Rightarrow> Inl e
            | Inr (b, s) \<Rightarrow> Inr (b, me\<lparr>pi_inner := s\<rparr>)))"

text \<open>The write half forwards every call to the inner stream, whose state is \<open>pw_sink\<close>; \<open>io\<close> is the inner
  operation: \<^verbatim>\<open>poll_write\<close> or \<^verbatim>\<open>poll_write_vectored\<close> on some bytes, \<^verbatim>\<open>poll_flush\<close> or \<^verbatim>\<open>poll_shutdown\<close>.\<close>

record 'w prefixed_rw = prefixed_io +
  pw_sink :: 'w

definition prefixed_forward :: "('w \<Rightarrow> 'res \<times> 'w) \<Rightarrow> 'w prefixed_rw \<Rightarrow> 'res \<times> 'w prefixed_rw" where
  "prefixed_forward io me = (case io (pw_sink me) of (r, w) \<Rightarrow> (r, me\<lparr>pw_sink := w\<rparr>))"

definition prefixed_is_write_vectored :: "('w \<Rightarrow> bool) \<Rightarrow> 'w prefixed_rw \<Rightarrow> bool" where
  "prefixed_is_write_vectored inner me = inner (pw_sink me)"

fun sock_size :: "sock \<Rightarrow> nat" where
  "sock_size [] = 0"
| "sock_size (Read_Error # s) = Suc (sock_size s)"
| "sock_size (Arrives b # s) = Suc (length b) + sock_size s"

lemma sock_read_size:
  "sock_read s 256 = Inr (b, s') \<Longrightarrow> b \<noteq> [] \<Longrightarrow> sock_size s' < sock_size s"
  by (cases "(s, 256 :: nat)" rule: sock_read.cases) (auto split: if_splits)

text \<open>\<^verbatim>\<open>read_at_least\<close>: the loop reads chunks of at most 256 bytes.\<close>

function read_at_least :: "sock \<Rightarrow> bytes \<Rightarrow> nat \<Rightarrow> unit + bytes \<times> sock" where
  "read_at_least stream buf want =
     (if length buf < want
      then (case sock_read stream 256 of
              Inl e \<Rightarrow> Inl ()
            | Inr (chunk, stream') \<Rightarrow>
                if chunk = [] then Inl () else read_at_least stream' (buf @ chunk) want)
      else Inr (buf, stream))"
  by pat_completeness auto
termination
  by (relation "measure (\<lambda>(s, buf, want). sock_size s)") (auto dest: sock_read_size)

declare read_at_least.simps [simp del]

fun find_crlf :: "bytes \<Rightarrow> nat option" where
  "find_crlf (a # b # xs) =
     (if a = 0x0D \<and> b = 0x0A then Some 0 else map_option Suc (find_crlf (b # xs)))"
| "find_crlf xs = None"

lemma read_at_least_length:
  "read_at_least s buf want = Inr (buf', s') \<Longrightarrow> want \<le> length buf'"
proof (induction s buf want rule: read_at_least.induct)
  case (1 s buf want)
  then show ?case
    by (subst (asm) (2) read_at_least.simps) (auto split: if_splits sum.splits prod.splits)
qed

text \<open>The version 1 read loop: up to CRLF, giving up once the buffer passes the limit.\<close>

function v1_loop :: "sock \<Rightarrow> bytes \<Rightarrow> unit + nat \<times> bytes \<times> sock" where
  "v1_loop stream buf =
     (case find_crlf buf of
        Some i \<Rightarrow> Inr (i, buf, stream)
      | None \<Rightarrow>
          if length buf > MAX_V1 then Inl ()
          else (case read_at_least stream buf (length buf + 1) of
                  Inl e \<Rightarrow> Inl ()
                | Inr (buf', stream') \<Rightarrow> v1_loop stream' buf'))"
  by pat_completeness auto
termination
  by (relation "measure (\<lambda>(s, buf). Suc MAX_V1 - length buf)")
     (auto dest!: read_at_least_length)

declare v1_loop.simps [simp del]

text \<open>\<^verbatim>\<open>std::str::from_utf8\<close>: the well-formed byte sequences of UTF-8.\<close>

definition utf8_cont :: "nat \<Rightarrow> bool" where
  "utf8_cont b = (0x80 \<le> b \<and> b \<le> 0xBF)"

fun utf8_valid :: "nat list \<Rightarrow> bool" where
  "utf8_valid [] = True"
| "utf8_valid (a # r) =
     (if a < 0x80 then utf8_valid r
      else if 0xC2 \<le> a \<and> a \<le> 0xDF then
        (case r of b # r' \<Rightarrow> utf8_cont b \<and> utf8_valid r' | _ \<Rightarrow> False)
      else if 0xE0 \<le> a \<and> a \<le> 0xEF then
        (case r of
           b # c # r' \<Rightarrow>
             (if a = 0xE0 then 0xA0 else 0x80) \<le> b \<and> b \<le> (if a = 0xED then 0x9F else 0xBF) \<and>
             utf8_cont c \<and> utf8_valid r'
         | _ \<Rightarrow> False)
      else if 0xF0 \<le> a \<and> a \<le> 0xF4 then
        (case r of
           b # c # d # r' \<Rightarrow>
             (if a = 0xF0 then 0x90 else 0x80) \<le> b \<and> b \<le> (if a = 0xF4 then 0x8F else 0xBF) \<and>
             utf8_cont c \<and> utf8_cont d \<and> utf8_valid r'
         | _ \<Rightarrow> False)
      else False)"

definition from_utf8 :: "bytes \<Rightarrow> unit + string" where
  "from_utf8 b = (if utf8_valid (map unat b) then Inr (bytes_str b) else Inl ())"

text \<open>The fields of a version 1 line; the outer sum is the parse error.\<close>

definition v1_fields :: "string \<Rightarrow> unit + string option" where
  "v1_fields line =
     (case split_on (CHR '' '') line of
        proxy # rest \<Rightarrow>
          if proxy \<noteq> ''PROXY'' then Inl ()
          else (case rest of
                  [] \<Rightarrow> Inl ()
                | fam # rest' \<Rightarrow>
                    if fam = ''TCP4'' \<or> fam = ''TCP6''
                    then Inr (case rest' of [] \<Rightarrow> None | a # _ \<Rightarrow> Some a)
                    else if fam = ''UNKNOWN'' then Inr None
                    else Inl ())
      | [] \<Rightarrow> Inl ())"

definition parse_v1 :: "sock \<Rightarrow> bytes \<Rightarrow> unit + prefixed_io \<times> string option" where
  "parse_v1 stream buf =
     (case v1_loop stream buf of
        Inl e \<Rightarrow> Inl ()
      | Inr (n, buf', stream') \<Rightarrow>
          (case from_utf8 (take n buf') of
             Inl e \<Rightarrow> Inl ()
           | Inr line \<Rightarrow>
               (case v1_fields line of
                  Inl e \<Rightarrow> Inl ()
                | Inr addr \<Rightarrow> Inr (prefixed_new stream' (drop (n + 2) buf'), addr))))"

text \<open>\<^verbatim>\<open>std::net::Ipv6Addr\<close>'s display form: the first longest run of at least two zero
  segments is written as \<open>::\<close>, and an IPv4-mapped address in dotted form.\<close>

definition show_ipv4 :: "nat list \<Rightarrow> string" where
  "show_ipv4 a = join ''.'' (map show_nat a)"

definition zero_run :: "nat list \<Rightarrow> nat" where
  "zero_run segs = length (takeWhile (\<lambda>x. x = 0) segs)"

fun longest_zeros :: "nat list \<Rightarrow> nat \<times> nat" where
  "longest_zeros [] = (0, 0)"
| "longest_zeros (x # xs) =
     (let n = zero_run (x # xs); (i, m) = longest_zeros xs
      in if n \<ge> m then (0, n) else (Suc i, m))"

definition show_ipv6 :: "nat list \<Rightarrow> string" where
  "show_ipv6 segs =
     (if take 5 segs = [0, 0, 0, 0, 0] \<and> segs ! 5 = 0xFFFF
      then ''::ffff:'' @ show_ipv4 [segs ! 6 div 256, segs ! 6 mod 256, segs ! 7 div 256, segs ! 7 mod 256]
      else case longest_zeros segs of (i, n) \<Rightarrow>
        if n > 1
        then join '':'' (map show_hex (take i segs)) @ ''::''
             @ join '':'' (map show_hex (drop (i + n) segs))
        else join '':'' (map show_hex segs))"

definition be16 :: "u8 \<Rightarrow> u8 \<Rightarrow> nat" where
  "be16 hi lo = unat hi * 256 + unat lo"

text \<open>The address a version 2 header carries.\<close>

definition v2_addr :: "u8 \<Rightarrow> u8 \<Rightarrow> bytes \<Rightarrow> string option" where
  "v2_addr ver_cmd fam_byte addr_block =
     (let is_proxy = (ver_cmd AND 0x0F = 1);
          family = drop_bit 4 fam_byte
      in if \<not> is_proxy then None
         else if family = 1 \<and> length addr_block \<ge> 12
           then Some (show_ipv4 (map unat (take 4 addr_block)))
         else if family = 2 \<and> length addr_block \<ge> 36
           then Some (show_ipv6 (map (\<lambda>i. be16 (addr_block ! (i * 2)) (addr_block ! (i * 2 + 1))) [0..<8]))
         else None)"

definition parse_v2 :: "sock \<Rightarrow> bytes \<Rightarrow> unit + prefixed_io \<times> string option" where
  "parse_v2 stream buf =
     (case read_at_least stream buf 16 of
        Inl e \<Rightarrow> Inl ()
      | Inr (buf, stream) \<Rightarrow>
          (let ver_cmd = buf ! 12
           in if drop_bit 4 ver_cmd \<noteq> 2 then Inl ()
              else let len = be16 (buf ! 14) (buf ! 15)
                   in case read_at_least stream buf (16 + len) of
                        Inl e \<Rightarrow> Inl ()
                      | Inr (buf', stream') \<Rightarrow>
                          Inr (prefixed_new stream' (drop (16 + len) buf'),
                               v2_addr ver_cmd (buf ! 13) (take len (drop 16 buf')))))"

definition read_header :: "sock \<Rightarrow> unit + prefixed_io \<times> string option" where
  "read_header stream =
     (case read_at_least stream [] 12 of
        Inl e \<Rightarrow> Inl ()
      | Inr (buf, stream') \<Rightarrow>
          if take 12 buf = SIG_V2 then parse_v2 stream' buf
          else if starts_with buf SIG_V1 then parse_v1 stream' buf
          else Inl ())"

section \<open>The contract of a byte source\<close>

text \<open>\<open>content s\<close> is what the source still has to deliver before its end or its failure.\<close>

locale byte_source =
  fixes ok :: "'s \<Rightarrow> bool"
    and rd :: "'s \<Rightarrow> nat \<Rightarrow> unit + bytes \<times> 's"
    and content :: "'s \<Rightarrow> bytes"
  assumes rd_bytes: "ok s \<Longrightarrow> 0 < cap \<Longrightarrow> rd s cap = Inr (b, s') \<Longrightarrow>
      content s = b @ content s' \<and> length b \<le> cap \<and> ok s'"
    and rd_eof: "ok s \<Longrightarrow> 0 < cap \<Longrightarrow> rd s cap = Inr ([], s') \<Longrightarrow> content s = []"
    and rd_err: "ok s \<Longrightarrow> 0 < cap \<Longrightarrow> rd s cap = Inl e \<Longrightarrow> content s = []"
begin

text \<open>A reader that uses buffers of the given sizes, one after the other.\<close>

fun drain :: "'s \<Rightarrow> nat list \<Rightarrow> bytes" where
  "drain s [] = []"
| "drain s (cap # caps) =
     (case rd s cap of Inl e \<Rightarrow> [] | Inr (b, s') \<Rightarrow> b @ drain s' caps)"

lemma drain_prefix:
  "ok s \<Longrightarrow> \<forall>cap \<in> set caps. 0 < cap \<Longrightarrow> prefix (drain s caps) (content s)"
proof (induction caps arbitrary: s)
  case (Cons cap caps)
  show ?case
  proof (cases "rd s cap")
    case (Inr r)
    obtain b s' where r: "r = (b, s')" by (cases r)
    with Inr Cons.prems rd_bytes [of s cap b s'] have "content s = b @ content s'" "ok s'"
      by auto
    with Cons Inr r show ?thesis by simp
  qed (simp)
qed simp

lemma drain_complete:
  "ok s \<Longrightarrow> \<forall>cap \<in> set caps. 0 < cap \<Longrightarrow> length (content s) \<le> length caps \<Longrightarrow>
   drain s caps = content s"
proof (induction caps arbitrary: s)
  case (Cons cap caps)
  have cap: "0 < cap" using Cons.prems by simp
  show ?case
  proof (cases "rd s cap")
    case (Inl e)
    with rd_err [OF Cons.prems(1) cap] show ?thesis by simp
  next
    case (Inr r)
    obtain b s' where r: "r = (b, s')" by (cases r)
    with Inr rd_bytes [OF Cons.prems(1) cap] have c: "content s = b @ content s'" "ok s'" by auto
    have "length (content s') \<le> length caps"
    proof (cases "b = []")
      case True
      with Inr r rd_eof [OF Cons.prems(1) cap] c show ?thesis by simp
    next
      case False
      with c Cons.prems(3) show ?thesis by (cases b) auto
    qed
    with Cons.IH [OF c(2)] Cons.prems(2) Inr r c(1) show ?thesis by simp
  qed
qed simp

end

fun sock_content :: "sock \<Rightarrow> bytes" where
  "sock_content [] = []"
| "sock_content (Read_Error # s) = []"
| "sock_content (Arrives b # s) = b @ sock_content s"

text \<open>An arrival carries at least one byte (no bytes would mean end of file).\<close>

definition sock_ok :: "sock \<Rightarrow> bool" where
  "sock_ok s = (Arrives [] \<notin> set s)"

definition prefixed_content :: "prefixed_io \<Rightarrow> bytes" where
  "prefixed_content io = drop (pi_pos io) (pi_prefix io) @ sock_content (pi_inner io)"

definition prefixed_ok :: "prefixed_io \<Rightarrow> bool" where
  "prefixed_ok io = (sock_ok (pi_inner io) \<and> pi_pos io \<le> length (pi_prefix io))"

lemma sock_read_bytes:
  "sock_ok s \<Longrightarrow> 0 < cap \<Longrightarrow> sock_read s cap = Inr (b, s') \<Longrightarrow>
   sock_content s = b @ sock_content s' \<and> length b \<le> cap \<and> sock_ok s'"
  by (cases "(s, cap)" rule: sock_read.cases) (auto simp: sock_ok_def split: if_splits)

lemma sock_read_empty:
  "sock_ok s \<Longrightarrow> 0 < cap \<Longrightarrow> sock_read s cap = Inr ([], s') \<Longrightarrow> sock_content s = []"
  by (cases "(s, cap)" rule: sock_read.cases) (auto simp: sock_ok_def split: if_splits)

lemma sock_read_error: "sock_read s cap = Inl e \<Longrightarrow> sock_content s = []"
  by (cases "(s, cap)" rule: sock_read.cases) (auto split: if_splits)

interpretation sk: byte_source sock_ok sock_read sock_content
  by unfold_locales (auto dest: sock_read_bytes sock_read_empty sock_read_error)

interpretation pio: byte_source prefixed_ok prefixed_read prefixed_content
proof unfold_locales
  fix io cap b io' e
  assume ok: "prefixed_ok io" and cap: "0 < (cap :: nat)"
  show "prefixed_content io = b @ prefixed_content io' \<and> length b \<le> cap \<and> prefixed_ok io'"
    if "prefixed_read io cap = Inr (b, io')"
    using that ok cap sk.rd_bytes [of "pi_inner io" cap b]
    by (auto simp: prefixed_read_def prefixed_content_def prefixed_ok_def Let_def min_def
        drop_drop [symmetric] add.commute simp del: drop_drop split: if_splits sum.splits)
  show "prefixed_content io = []" if "prefixed_read io cap = Inr ([], io')"
    using that ok cap sk.rd_eof [of "pi_inner io" cap]
    by (auto simp: prefixed_read_def prefixed_content_def prefixed_ok_def Let_def
        split: if_splits sum.splits)
  show "prefixed_content io = []" if "prefixed_read io cap = Inl e"
    using that ok cap sk.rd_err [of "pi_inner io" cap]
    by (auto simp: prefixed_read_def prefixed_content_def prefixed_ok_def Let_def
        split: if_splits sum.splits)
qed

section \<open>Reading enough bytes\<close>

lemma read_at_least_Inr:
  "sock_ok s \<Longrightarrow> read_at_least s buf want = Inr (buf', s') \<Longrightarrow>
   buf' @ sock_content s' = buf @ sock_content s \<and> sock_ok s' \<and>
   length buf' \<le> max (length buf) (want + 255)"
proof (induction s buf want rule: read_at_least.induct)
  case (1 s buf want)
  show ?case
  proof (cases "length buf < want")
    case False
    with 1 show ?thesis by (simp add: read_at_least.simps [of s buf want])
  next
    case True
    with 1(3) obtain b s1 where rd: "sock_read s 256 = Inr (b, s1)" "b \<noteq> []"
      and rest: "read_at_least s1 (buf @ b) want = Inr (buf', s')"
      by (subst (asm) read_at_least.simps) (auto split: sum.splits if_splits)
    from sk.rd_bytes [OF 1(2) _ rd(1)]
    have "sock_content s = b @ sock_content s1" "length b \<le> 256" "sock_ok s1" by auto
    with 1(1) [OF True rd(1) refl rd(2) _ rest] True show ?thesis by auto
  qed
qed

lemma read_at_least_Inl:
  "sock_ok s \<Longrightarrow> read_at_least s buf want = Inl e \<longleftrightarrow> length buf + length (sock_content s) < want"
proof (induction s buf want rule: read_at_least.induct)
  case (1 s buf want)
  show ?case
  proof (cases "length buf < want")
    case False
    then show ?thesis by (simp add: read_at_least.simps [of s buf want])
  next
    case True
    show ?thesis
    proof (cases "sock_read s 256")
      case (Inl e)
      with True sk.rd_err [OF 1(2) _ Inl] show ?thesis
        by (simp add: read_at_least.simps [of s buf want])
    next
      case (Inr r)
      obtain b s1 where r: "r = (b, s1)" by (cases r)
      show ?thesis
      proof (cases "b = []")
        case True
        with \<open>length buf < want\<close> Inr r sk.rd_eof [OF 1(2), of 256] show ?thesis
          by (simp add: read_at_least.simps [of s buf want])
      next
        case False
        from Inr r sk.rd_bytes [OF 1(2), of 256] 
        have "sock_content s = b @ sock_content s1" "sock_ok s1" by auto
        with 1(1) [OF True Inr r [symmetric] False] \<open>length buf < want\<close> False Inr r show ?thesis
          by (simp add: read_at_least.simps [of s buf want] add.assoc)
      qed
    qed
  qed
qed

lemmas read_at_least_facts = read_at_least_Inr read_at_least_Inl read_at_least_length

section \<open>What the header means, on the whole byte stream\<close>

definition v1_spec :: "bytes \<Rightarrow> unit + bytes \<times> string option" where
  "v1_spec C =
     (case find_crlf C of
        None \<Rightarrow> Inl ()
      | Some i \<Rightarrow>
          (case from_utf8 (take i C) of
             Inl e \<Rightarrow> Inl ()
           | Inr line \<Rightarrow>
               (case v1_fields line of Inl e \<Rightarrow> Inl () | Inr addr \<Rightarrow> Inr (drop (i + 2) C, addr))))"

definition v2_spec :: "bytes \<Rightarrow> unit + bytes \<times> string option" where
  "v2_spec C =
     (let len = be16 (C ! 14) (C ! 15)
      in if length C < 16 \<or> drop_bit 4 (C ! 12) \<noteq> 2 \<or> length C < 16 + len then Inl ()
         else Inr (drop (16 + len) C, v2_addr (C ! 12) (C ! 13) (take len (drop 16 C))))"

text \<open>What both formats give on a whole stream, with no limit on a version 1 line.\<close>

definition header_grammar :: "bytes \<Rightarrow> unit + bytes \<times> string option" where
  "header_grammar C =
     (if length C < 12 then Inl ()
      else if take 12 C = SIG_V2 then v2_spec C
      else if starts_with C SIG_V1 then v1_spec C
      else Inl ())"

text \<open>What a parse result means: the bytes that remain to be read, and the address.\<close>

definition parse_abs :: "unit + prefixed_io \<times> string option \<Rightarrow> unit + bytes \<times> string option" where
  "parse_abs r = (case r of Inl e \<Rightarrow> Inl e | Inr (io, a) \<Rightarrow> Inr (prefixed_content io, a))"

lemma parse_abs_simps [simp]:
  "parse_abs (Inl e) = Inl e"
  "parse_abs (Inr (io, a)) = Inr (prefixed_content io, a)"
  by (simp_all add: parse_abs_def)

lemma prefixed_content_new [simp]: "prefixed_content (prefixed_new s pre) = pre @ sock_content s"
  by (simp add: prefixed_content_def prefixed_new_def)

lemma nth_of_prefix: "buf @ r = C \<Longrightarrow> i < length buf \<Longrightarrow> buf ! i = C ! i"
  by (auto simp: nth_append)

lemma parse_v2_spec:
  assumes ok: "sock_ok s" and C: "buf @ sock_content s = C"
  shows "parse_abs (parse_v2 s buf) = v2_spec C"
proof (cases "read_at_least s buf 16")
  case (Inl e)
  then have "length C < 16" using C read_at_least_Inl [OF ok] by auto
  with Inl show ?thesis by (simp add: parse_v2_def v2_spec_def Let_def)
next
  case (Inr r)
  obtain buf1 s1 where r: "r = (buf1, s1)" by (cases r)
  note rd = Inr [unfolded r]
  have 1: "buf1 @ sock_content s1 = C" "sock_ok s1" "16 \<le> length buf1"
    using read_at_least_Inr [OF ok rd] read_at_least_length [OF rd] C by auto
  then have len: "16 \<le> length C" by auto
  have nth: "buf1 ! i = C ! i" if "i < 16" for i
    using nth_of_prefix [OF 1(1)] that 1(3) by simp
  define n where "n = be16 (C ! 14) (C ! 15)"
  show ?thesis
  proof (cases "read_at_least s1 buf1 (16 + n)")
    case (Inl e)
    then have "length C < 16 + n" using read_at_least_Inl [OF 1(2), of buf1 "16 + n" e] 1(1) by auto
    with rd Inl len show ?thesis
      by (simp add: parse_v2_def v2_spec_def Let_def nth n_def [symmetric])
  next
    case (Inr r2)
    obtain buf2 s2 where r2: "r2 = (buf2, s2)" by (cases r2)
    note rd2 = Inr [unfolded r2]
    have 2: "buf2 @ sock_content s2 = C" "16 + n \<le> length buf2"
      using read_at_least_Inr [OF 1(2) rd2] read_at_least_length [OF rd2] 1(1) by auto
    have "drop (16 + n) buf2 @ sock_content s2 = drop (16 + n) C"
      "take n (drop 16 buf2) = take n (drop 16 C)" "16 + n \<le> length C"
      using 2 by auto
    with rd rd2 len show ?thesis
      by (simp add: parse_v2_def v2_spec_def Let_def nth n_def [symmetric])
  qed
qed

lemma find_crlf_bound: "find_crlf b = Some i \<Longrightarrow> i + 2 \<le> length b"
  by (induction b arbitrary: i rule: find_crlf.induct) (auto split: if_splits)

lemma find_crlf_append: "find_crlf b = Some i \<Longrightarrow> find_crlf (b @ r) = Some i"
proof (induction b arbitrary: i rule: find_crlf.induct)
  case (1 x y xs)
  then show ?case by (auto split: if_splits)
qed auto

lemma find_crlf_late: "find_crlf b = None \<Longrightarrow> find_crlf (b @ r) = Some i \<Longrightarrow> length b \<le> Suc i"
proof (induction b arbitrary: i rule: find_crlf.induct)
  case (1 x y xs)
  then show ?case by (auto split: if_splits)
qed auto

text \<open>The version 1 loop finds the first CRLF of the stream or fails; it cannot fail when
  that CRLF comes early enough, and never looks past 363 bytes.\<close>

lemma v1_loop_Inr:
  "sock_ok s \<Longrightarrow> v1_loop s buf = Inr (i, buf', s') \<Longrightarrow>
   buf' @ sock_content s' = buf @ sock_content s \<and> find_crlf buf' = Some i \<and>
   length buf' \<le> max (length buf) 363"
proof (induction s buf rule: v1_loop.induct)
  case (1 s buf)
  show ?case
  proof (cases "find_crlf buf")
    case (Some j)
    with 1 show ?thesis by (simp add: v1_loop.simps [of s buf])
  next
    case None
    with 1(3) obtain b1 s1 where short: "\<not> MAX_V1 < length buf"
      and rd: "read_at_least s buf (length buf + 1) = Inr (b1, s1)" and rest: "v1_loop s1 b1 = Inr (i, buf', s')"
      by (subst (asm) v1_loop.simps) (auto split: sum.splits if_splits)
    from read_at_least_Inr [OF 1(2) rd] short
    have "b1 @ sock_content s1 = buf @ sock_content s" "sock_ok s1" "length b1 \<le> 363"
      by (auto simp: MAX_V1_def)
    with 1(1) [OF None short rd refl _ rest] show ?thesis by auto
  qed
qed

lemma v1_loop_Inl:
  assumes "sock_ok s" and "v1_loop s buf = Inl e" and "find_crlf (buf @ sock_content s) = Some i"
  shows "107 \<le> i"
  using assms
proof (induction s buf rule: v1_loop.induct)
  case (1 s buf)
  show ?case
  proof (cases "find_crlf buf")
    case (Some j)
    with 1 show ?thesis by (simp add: v1_loop.simps [of s buf])
  next
    case None
    note late = find_crlf_late [OF None 1(4)]
    show ?thesis
    proof (cases "MAX_V1 < length buf")
      case True
      with late show ?thesis by (simp add: MAX_V1_def)
    next
      case False
      show ?thesis
      proof (cases "read_at_least s buf (length buf + 1)")
        case (Inl e)
        then have "sock_content s = []" using read_at_least_Inl [OF 1(2)] by auto
        with None 1(4) show ?thesis by simp
      next
        case (Inr r)
        obtain b1 s1 where r: "r = (b1, s1)" by (cases r)
        note rd = Inr [unfolded r]
        have "v1_loop s1 b1 = Inl e"
          using 1(3) None False rd by (simp add: v1_loop.simps [of s buf])
        with 1(1) [OF None False rd refl] read_at_least_Inr [OF 1(2) rd] 1(4) show ?thesis by auto
      qed
    qed
  qed
qed

lemma parse_v1_Inr:
  assumes ok: "sock_ok s" and C: "buf @ sock_content s = C" and run: "v1_loop s buf = Inr (i, buf', s')"
  shows "parse_abs (parse_v1 s buf) = v1_spec C"
proof -
  from v1_loop_Inr [OF ok run] C
  have 1: "buf' @ sock_content s' = C" "find_crlf buf' = Some i" by auto
  then have 2: "find_crlf C = Some i" and "i + 2 \<le> length buf'"
    using find_crlf_append find_crlf_bound by blast+
  with 1 have "take i buf' = take i C" "drop (i + 2) buf' @ sock_content s' = drop (i + 2) C"
    by auto
  then show ?thesis
    unfolding parse_v1_def run v1_spec_def 2 by (simp split: sum.splits)
qed

lemma parse_v1_spec:
  assumes ok: "sock_ok s" and C: "buf @ sock_content s = C"
    and early: "\<And>i. find_crlf C = Some i \<Longrightarrow> i < 107"
  shows "parse_abs (parse_v1 s buf) = v1_spec C"
proof (cases "v1_loop s buf")
  case (Inl e)
  have "find_crlf C = None"
    using v1_loop_Inl [OF ok Inl] C early by (cases "find_crlf C") fastforce+
  with Inl show ?thesis by (simp add: parse_v1_def v1_spec_def)
next
  case (Inr r)
  then show ?thesis using parse_v1_Inr [OF ok C] by (cases r) auto
qed

lemma read_header_cases:
  assumes ok: "sock_ok s" and C: "sock_content s = C"
  obtains
    (short) "length C < 12" "read_header s = Inl ()" "header_grammar C = Inl ()"
  | (v2) s1 buf where "sock_ok s1" "buf @ sock_content s1 = C" "read_header s = parse_v2 s1 buf"
      "header_grammar C = v2_spec C" "take 12 C = SIG_V2"
  | (v1) s1 buf where "sock_ok s1" "buf @ sock_content s1 = C" "read_header s = parse_v1 s1 buf"
      "header_grammar C = v1_spec C" "length buf \<le> 267" "take 12 C \<noteq> SIG_V2"
  | (none) "read_header s = Inl ()" "header_grammar C = Inl ()"
proof (cases "read_at_least s [] 12")
  case (Inl e)
  with read_at_least_Inl [OF ok] C have "length C < 12" by auto
  with Inl show ?thesis by (intro short) (auto simp: read_header_def header_grammar_def)
next
  case (Inr r)
  obtain buf s1 where r: "r = (buf, s1)" by (cases r)
  note rd = Inr [unfolded r]
  have 1: "buf @ sock_content s1 = C" "sock_ok s1" "12 \<le> length buf" "length buf \<le> 267"
    using read_at_least_Inr [OF ok rd] read_at_least_length [OF rd] C by auto
  then have tk: "take 12 C = take 12 buf" "12 \<le> length C" by auto
  have sig: "starts_with C SIG_V1 = starts_with buf SIG_V1"
    using 1 by (auto simp: starts_with_def SIG_V1_def str_bytes_def)
  show ?thesis
  proof (cases "take 12 buf = SIG_V2")
    case True
    with rd tk 1 show ?thesis by (intro v2) (auto simp: read_header_def header_grammar_def)
  next
    case no2: False
    show ?thesis
    proof (cases "starts_with buf SIG_V1")
      case True
      with rd tk 1 no2 sig show ?thesis by (intro v1) (auto simp: read_header_def header_grammar_def)
    next
      case False
      with rd tk no2 sig show ?thesis by (intro none) (auto simp: read_header_def header_grammar_def)
    qed
  qed
qed

lemma length_SIG_V2 [simp]: "length SIG_V2 = 12"
  by (simp add: SIG_V2_def)

lemma header_grammar_consumed:
  assumes "header_grammar C = Inr (rest, a)"
  shows "\<exists>hdr. C = hdr @ rest \<and> (starts_with hdr SIG_V2 \<or> starts_with hdr SIG_V1)"
proof (cases "take 12 C = SIG_V2")
  case True
  with assms have "length C \<ge> 16 + be16 (C ! 14) (C ! 15)"
    and rest: "rest = drop (16 + be16 (C ! 14) (C ! 15)) C"
    by (auto simp: header_grammar_def v2_spec_def Let_def split: if_splits)
  with True have "starts_with (take (16 + be16 (C ! 14) (C ! 15)) C) SIG_V2"
    by (simp add: starts_with_def)
  with rest show ?thesis by (intro exI [of _ "take (16 + be16 (C ! 14) (C ! 15)) C"]) simp
next
  case False
  with assms obtain i where v1: "starts_with C SIG_V1" and i: "find_crlf C = Some i"
    and rest: "rest = drop (i + 2) C" and line: "v1_fields (bytes_str (take i C)) \<noteq> Inl ()"
    by (auto simp: header_grammar_def v1_spec_def from_utf8_def split: if_splits option.splits sum.splits)
  from i have len: "i + 2 \<le> length C" by (rule find_crlf_bound)
  have "6 \<le> i + 2"
  proof (rule ccontr)
    assume "\<not> 6 \<le> i + 2"
    then have "i < 4" by simp
    then have "length (bytes_str (take i C)) < 4" using len by (simp add: bytes_str_def)
    then have "\<not> (\<exists>r. split_on (CHR '' '') (bytes_str (take i C)) = ''PROXY'' # r)"
    proof (rule contrapos_pn)
      assume "\<exists>r. split_on (CHR '' '') (bytes_str (take i C)) = ''PROXY'' # r"
      then obtain r where "bytes_str (take i C) = join '' '' (''PROXY'' # r)"
        by (metis join_split_on)
      then show "\<not> length (bytes_str (take i C)) < 4" by (cases r) auto
    qed
    with line show False by (auto simp: v1_fields_def split: list.splits if_splits)
  qed
  with v1 have "starts_with (take (i + 2) C) SIG_V1"
    by (auto simp: starts_with_def SIG_V1_def str_bytes_def min_def)
  with rest show ?thesis by (intro exI [of _ "take (i + 2) C"]) simp
qed

text \<open>An accepted header is what the specification gives on the stream, and a version 1 line was
  within the buffer.\<close>

lemma read_header_Inr:
  assumes "sock_ok s" and "read_header s = Inr (io, a)"
  shows "header_grammar (sock_content s) = Inr (prefixed_content io, a)"
    and "take 12 (sock_content s) \<noteq> SIG_V2 \<Longrightarrow> \<exists>i. find_crlf (sock_content s) = Some i \<and> i + 2 \<le> 363"
proof -
  let ?C = "sock_content s"
  have "header_grammar ?C = Inr (prefixed_content io, a) \<and>
    (take 12 ?C \<noteq> SIG_V2 \<longrightarrow> (\<exists>i. find_crlf ?C = Some i \<and> i + 2 \<le> 363))"
    using assms(1) refl [of ?C]
  proof (cases rule: read_header_cases)
    case (v1 s1 buf)
    with assms(2) obtain i buf' s' where run: "v1_loop s1 buf = Inr (i, buf', s')"
      by (auto simp: parse_v1_def split: sum.splits)
    from v1_loop_Inr [OF v1(1) run] v1(2,5)
    have "buf' @ sock_content s' = ?C" "find_crlf buf' = Some i" "length buf' \<le> 363" by auto
    then have "find_crlf ?C = Some i" "i + 2 \<le> 363"
      using find_crlf_append find_crlf_bound by (metis, metis le_trans)
    moreover have "header_grammar ?C = Inr (prefixed_content io, a)"
      using parse_v1_Inr [OF v1(1,2) run] v1(4) assms(2) [unfolded v1(3)] by simp
    ultimately show ?thesis by blast
  next
    case (v2 s1 buf)
    have "header_grammar ?C = Inr (prefixed_content io, a)"
      using parse_v2_spec [OF v2(1,2)] v2(4) assms(2) [unfolded v2(3)] by simp
    with v2(5) show ?thesis by blast
  qed (use assms(2) in auto)
  then show "header_grammar ?C = Inr (prefixed_content io, a)"
    and "take 12 ?C \<noteq> SIG_V2 \<Longrightarrow> \<exists>i. find_crlf ?C = Some i \<and> i + 2 \<le> 363" by blast+
qed

section \<open>The specification of the header\<close>

text \<open>The headers the server takes, as texts that are put together rather than parsed. A version 1 line
  is the keyword, a protocol, and fields after single spaces, of which the first is the address of a \<^verbatim>\<open>TCP\<close> line;
  the code looks at no other field, and neither does the specification. With its CRLF it has at most
  \<open>lim\<close> bytes. A version 2 header is the signature, four bytes and a block of the announced length.\<close>

definition CRLF :: bytes where
  "CRLF = [0x0D, 0x0A]"

definition fields_after :: "string \<Rightarrow> bool" where
  "fields_after args \<longleftrightarrow> args = [] \<or> hd args = CHR '' ''"

definition v1_line :: "string \<Rightarrow> string option \<Rightarrow> bool" where
  "v1_line line a \<longleftrightarrow>
     (\<exists>args. line = ''PROXY UNKNOWN'' @ args \<and> fields_after args \<and> a = None) \<or>
     (\<exists>fam \<in> {''TCP4'', ''TCP6''}. line = ''PROXY '' @ fam \<and> a = None \<or>
        (\<exists>addr args. line = ''PROXY '' @ fam @ '' '' @ addr @ args \<and> CHR '' '' \<notin> set addr \<and> fields_after args \<and>
           a = Some addr))"

text \<open>The eight segments of an IPv6 address, each sent as its high and its low byte.\<close>

definition ipv6_segments :: "bytes \<Rightarrow> nat list \<Rightarrow> bool" where
  "ipv6_segments block segs \<longleftrightarrow> length segs = 8 \<and> (\<forall>x \<in> set segs. x < 65536) \<and>
     map unat (take 16 block) = concat (map (\<lambda>x. [x div 256, x mod 256]) segs)"

text \<open>The address of a block: the command \<open>1\<close> is \<^verbatim>\<open>PROXY\<close>, the families \<open>1\<close> and \<open>2\<close> are IPv4 and IPv6.\<close>

definition v2_block :: "nat \<Rightarrow> nat \<Rightarrow> bytes \<Rightarrow> string option \<Rightarrow> bool" where
  "v2_block cmd fam block a \<longleftrightarrow>
     (if cmd = 1 \<and> fam = 1 \<and> 12 \<le> length block then a = Some (join ''.'' (map (\<lambda>b. show_nat (unat b)) (take 4 block)))
      else if cmd = 1 \<and> fam = 2 \<and> 36 \<le> length block then
        (\<exists>segs. ipv6_segments block segs \<and> a = Some (show_ipv6 segs))
      else a = None)"

text \<open>\<open>header_spec lim C rest a\<close>: the stream \<open>C\<close> is such a header, which carries \<open>a\<close>, followed by \<open>rest\<close>.\<close>

inductive header_spec :: "nat \<Rightarrow> bytes \<Rightarrow> bytes \<Rightarrow> string option \<Rightarrow> bool" for lim where
  v1_header: "header_spec lim (str_bytes line @ CRLF @ rest) rest a"
    if "v1_line line a" and "utf8_valid (map unat (str_bytes line))" and "\<not> sublist CRLF (str_bytes line)"
      and "length line + 2 \<le> lim"
| v2_header: "header_spec lim (SIG_V2 @ [vc, fb, hi, lo] @ block @ rest) rest a"
    if "unat vc div 16 = 2" and "length block = 256 * unat hi + unat lo"
      and "v2_block (unat vc mod 16) (unat fb div 16) block a"

lemma u8_bound: "unat w < 256" for w :: u8
proof -
  have "unat w < 2 ^ LENGTH(8)" by (rule unsigned_less)
  then show ?thesis by simp
qed

lemma bytes_str_str_bytes [simp]: "bytes_str (str_bytes s) = s"
  by (induction s) (simp_all add: bytes_str_def str_bytes_def take_bit_nat_eq_self unsigned_of_nat)

lemma str_bytes_bytes_str [simp]: "str_bytes (bytes_str b) = b"
proof -
  have "of_nat (unat w mod 256) = w" for w :: u8
    using u8_bound [of w] by simp
  then show ?thesis by (induction b) (simp_all add: bytes_str_def str_bytes_def)
qed

lemma length_str_bytes [simp]: "length (str_bytes s) = length s"
  by (simp add: str_bytes_def)

lemma length_bytes_str [simp]: "length (bytes_str b) = length b"
  by (simp add: bytes_str_def)

lemma fields_after_cases: "fields_after args \<longleftrightarrow> args = [] \<or> (\<exists>m. args = CHR '' '' # m)"
  by (cases args) (auto simp: fields_after_def)

lemma split_word: "fields_after args \<Longrightarrow> CHR '' '' \<notin> set w \<Longrightarrow> \<exists>ps. split_on (CHR '' '') (w @ args) = w # ps"
  by (auto simp: fields_after_cases split_on_no_sep split_on_append)

lemma split_first: "split_on c s = p # ps \<Longrightarrow> c \<notin> set p \<and> (if ps = [] then s = p else s = p @ c # join [c] ps)"
  using split_on_parts [of p c s] join_split_on [of c s] join_Cons [of ps "[c]" p] by (cases "ps = []") auto

lemma v1_fields_line: "v1_fields line = Inr a \<longleftrightarrow> v1_line line a"
proof
  assume f: "v1_fields line = Inr a"
  obtain p ps where sp: "split_on (CHR '' '') line = p # ps" using split_on_not_Nil by (meson neq_Nil_conv)
  then obtain fam qs where ps: "p = ''PROXY''" "ps = fam # qs"
    using f by (auto simp: v1_fields_def split: list.splits if_splits)
  have line: "line = ''PROXY '' @ join '' '' (fam # qs)" using split_first [OF sp] ps by simp
  have fam: "fam = ''UNKNOWN'' \<and> a = None \<or> fam \<in> {''TCP4'', ''TCP6''} \<and> a = (case qs of [] \<Rightarrow> None | x # _ \<Rightarrow> Some x)"
    using f sp ps by (auto simp: v1_fields_def split: if_splits)
  show "v1_line line a"
  proof (cases qs)
    case Nil
    with line fam show ?thesis by (auto simp: v1_line_def fields_after_def)
  next
    case (Cons x xs)
    have x: "CHR '' '' \<notin> set x" using split_on_parts [of x "CHR '' ''" line] sp ps Cons by simp
    have l: "line = ''PROXY '' @ fam @ '' '' @ join '' '' (x # xs)" using line Cons by simp
    have "\<exists>args. join '' '' (x # xs) = x @ args \<and> fields_after args"
      by (cases xs) (auto simp: fields_after_def)
    with l fam x Cons show ?thesis by (auto simp: v1_line_def fields_after_def)
  qed
next
  have known: "split_on (CHR '' '') (''PROXY '' @ r) = ''PROXY'' # split_on (CHR '' '') r" for r
    using split_on_append [of "CHR '' ''" "''PROXY''" r] by simp
  have tcp: "split_on (CHR '' '') (fam @ '' '' @ r) = fam # split_on (CHR '' '') r" if "fam \<in> {''TCP4'', ''TCP6''}" for fam r
    using that split_on_append [of "CHR '' ''" fam r] by auto
  assume "v1_line line a"
  then consider (unknown) args where "line = ''PROXY '' @ ''UNKNOWN'' @ args" "fields_after args" "a = None"
    | (bare) fam where "fam \<in> {''TCP4'', ''TCP6''}" "line = ''PROXY '' @ fam" "a = None"
    | (addr) fam addr args where "fam \<in> {''TCP4'', ''TCP6''}" "line = ''PROXY '' @ fam @ '' '' @ addr @ args"
        "CHR '' '' \<notin> set addr" "fields_after args" "a = Some addr"
    unfolding v1_line_def by fastforce
  then show "v1_fields line = Inr a"
  proof cases
    case unknown
    then obtain ps where "split_on (CHR '' '') (''UNKNOWN'' @ args) = ''UNKNOWN'' # ps"
      using split_word [of args "''UNKNOWN''"] by auto
    with unknown show ?thesis unfolding v1_fields_def unknown(1) known by simp
  next
    case bare
    then have "split_on (CHR '' '') fam = [fam]" by (intro split_on_no_sep) auto
    with bare show ?thesis unfolding v1_fields_def bare(2) known by auto
  next
    case addr
    then obtain ps where "split_on (CHR '' '') (addr @ args) = addr # ps"
      using split_word [of args addr] by auto
    with addr show ?thesis unfolding v1_fields_def addr(2) known tcp [OF addr(1)] by auto
  qed
qed

lemma find_crlf_parts:
  "find_crlf C = Some i \<longleftrightarrow> i + 2 \<le> length C \<and> C = take i C @ CRLF @ drop (i + 2) C \<and> \<not> sublist CRLF (take i C)"
  unfolding CRLF_def
proof (induction C arbitrary: i rule: find_crlf.induct)
  case (1 a b xs)
  show ?case
  proof (cases i)
    case 0
    then show ?thesis by auto
  next
    case (Suc j)
    then show ?thesis using "1.IH" [of j]
      by (cases j) (auto simp: sublist_Cons_right split: if_splits)
  qed
qed auto

text \<open>The nibbles and the big-endian words of a version 2 header, as numbers.\<close>

lemma nibbles:
  fixes w :: u8
  shows "drop_bit 4 w = 2 \<longleftrightarrow> unat w div 16 = 2" and "drop_bit 4 w = 1 \<longleftrightarrow> unat w div 16 = 1"
    and "w AND 0x0F = 1 \<longleftrightarrow> unat w mod 16 = 1"
proof -
  have d: "unat (drop_bit 4 w) = unat w div 16" by (simp add: drop_bit_eq_div unat_div_distrib)
  have "w AND 0x0F = take_bit 4 w" by (simp add: take_bit_eq_mask mask_eq_exp_minus_1)
  then have m: "unat (w AND 0x0F) = unat w mod 16" by (simp add: take_bit_eq_mod unat_mod_distrib)
  show "drop_bit 4 w = 2 \<longleftrightarrow> unat w div 16 = 2" "drop_bit 4 w = 1 \<longleftrightarrow> unat w div 16 = 1"
    using d by (simp_all add: word_unat_eq_iff)
  show "w AND 0x0F = 1 \<longleftrightarrow> unat w mod 16 = 1" using m by (simp add: word_unat_eq_iff)
qed

lemma be16_bound: "be16 hi lo < 65536"
  using u8_bound [of hi] u8_bound [of lo] by (simp add: be16_def)

lemma be16_bytes: "be16 hi lo div 256 = unat hi" "be16 hi lo mod 256 = unat lo"
  using u8_bound [of lo] by (simp_all add: be16_def)

text \<open>Segments and the bytes they are sent as determine each other.\<close>

fun pairs :: "bytes \<Rightarrow> nat list" where
  "pairs (hi # lo # r) = be16 hi lo # pairs r"
| "pairs bs = []"

lemma pairs_iff:
  "length bs = 2 * n \<Longrightarrow>
   (length segs = n \<and> (\<forall>x \<in> set segs. x < 65536) \<and> map unat bs = concat (map (\<lambda>x. [x div 256, x mod 256]) segs)) \<longleftrightarrow>
   segs = pairs bs"
proof (induction n arbitrary: bs segs)
  case (Suc n)
  then obtain hi lo r where bs: "bs = hi # lo # r" "length r = 2 * n"
    by (cases bs; cases "tl bs") auto
  have "x = be16 hi lo \<longleftrightarrow> x < 65536 \<and> unat hi = x div 256 \<and> unat lo = x mod 256" for x
    using be16_bound [of hi lo] be16_bytes [of hi lo] by (auto simp: be16_def)
  with Suc.IH [OF bs(2)] show ?case unfolding bs(1) by (cases segs) auto
qed auto

lemma pairs_nth:
  "2 * n \<le> length bs \<Longrightarrow> pairs (take (2 * n) bs) = map (\<lambda>i. be16 (bs ! (i * 2)) (bs ! (i * 2 + 1))) [0..<n]"
proof (induction n arbitrary: bs)
  case (Suc n)
  then obtain hi lo r where bs: "bs = hi # lo # r" "2 * n \<le> length r"
    by (cases bs; cases "tl bs") auto
  have "[0..<Suc n] = 0 # map Suc [0..<n]" by (simp add: map_Suc_upt upt_conv_Cons del: upt_Suc)
  with Suc.IH [OF bs(2)] show ?case unfolding bs(1) by (simp del: upt_Suc)
qed simp

lemma ipv6_segments_iff:
  assumes "36 \<le> length block"
  shows "ipv6_segments block xs \<longleftrightarrow> xs = map (\<lambda>i. be16 (block ! (i * 2)) (block ! (i * 2 + 1))) [0..<8]"
proof -
  have two: "2 * 8 = (16 :: nat)" by simp
  have "16 \<le> length block" using assms by linarith
  from pairs_nth [of 8 block, unfolded two, OF this]
  have "pairs (take 16 block) = map (\<lambda>i. be16 (block ! (i * 2)) (block ! (i * 2 + 1))) [0..<8]" .
  moreover have "length (take 16 block) = 2 * 8" using assms by simp
  ultimately show ?thesis unfolding ipv6_segments_def using pairs_iff [of "take 16 block" 8 xs] by (simp only:)
qed

lemma v2_addr_block: "v2_addr vc fb block = a \<longleftrightarrow> v2_block (unat vc mod 16) (unat fb div 16) block a"
proof -
  obtain S where S: "map (\<lambda>i. be16 (block ! (i * 2)) (block ! (i * 2 + 1))) [0..<8] = S" by blast
  have four: "show_ipv4 (map unat (take 4 block)) = join ''.'' (map (\<lambda>b. show_nat (unat b)) (take 4 block))"
    by (simp add: show_ipv4_def comp_def)
  show ?thesis
    unfolding v2_block_def v2_addr_def Let_def nibbles four S
    using ipv6_segments_iff [of block, unfolded S] by auto
qed

text \<open>The grammar on whole streams is the specification, for any limit on a version 1 line.\<close>

lemma v1_line_start: "v1_line line a \<Longrightarrow> \<exists>r. line = ''PROXY '' @ r \<and> 4 \<le> length r"
  by (auto simp: v1_line_def)

lemma v1_stream:
  assumes "v1_line line a"
  shows "12 \<le> length (str_bytes line @ CRLF @ rest)" and "starts_with (str_bytes line @ CRLF @ rest) SIG_V1"
    and "take 12 (str_bytes line @ CRLF @ rest) \<noteq> SIG_V2"
  using v1_line_start [OF assms]
  by (auto simp: CRLF_def SIG_V1_def SIG_V2_def starts_with_def str_bytes_def)

lemma header_spec_grammar:
  assumes "header_spec lim C rest a"
  shows "header_grammar C = Inr (rest, a) \<and>
    (take 12 C \<noteq> SIG_V2 \<longrightarrow> (\<exists>i. find_crlf C = Some i \<and> i + 2 \<le> lim))"
  using assms
proof cases
  case (v1_header line)
  have "find_crlf C = Some (length line)"
    unfolding find_crlf_parts v1_header(1) using v1_header(4) by (simp add: CRLF_def)
  moreover have "from_utf8 (str_bytes line) = Inr line" using v1_header(3) by (simp add: from_utf8_def)
  moreover have "v1_fields line = Inr a" using v1_header(2) by (simp add: v1_fields_line)
  moreover have "take (length line) C = str_bytes line" "drop (length line + 2) C = rest"
    by (simp_all add: v1_header(1) CRLF_def)
  ultimately show ?thesis
    using v1_stream [OF v1_header(2), of rest] v1_header(5)
    by (simp add: header_grammar_def v1_spec_def v1_header(1) [symmetric])
next
  case (v2_header vc block hi lo fb)
  have len: "be16 hi lo = length block" using v2_header(3) by (simp add: be16_def)
  have "take 12 C = SIG_V2" "12 \<le> length C" by (simp_all add: v2_header(1))
  moreover have "C ! 12 = vc" "C ! 13 = fb" "C ! 14 = hi" "C ! 15 = lo" by (simp_all add: v2_header(1) nth_append)
  moreover have "drop 16 C = block @ rest" by (simp add: v2_header(1))
  moreover from this have "take (length block) (drop 16 C) = block" "drop (16 + length block) C = rest"
    by (simp_all add: add.commute flip: drop_drop)
  moreover have "16 + length block \<le> length C" by (simp add: v2_header(1))
  ultimately show ?thesis
    using v2_header(2,4) by (simp add: header_grammar_def v2_spec_def Let_def len nibbles v2_addr_block)
qed

lemma grammar_header_spec:
  assumes g: "header_grammar C = Inr (rest, a)"
    and lim: "take 12 C \<noteq> SIG_V2 \<Longrightarrow> \<exists>i. find_crlf C = Some i \<and> i + 2 \<le> lim"
  shows "header_spec lim C rest a"
proof (cases "take 12 C = SIG_V2")
  case True
  define block where "block = take (be16 (C ! 14) (C ! 15)) (drop 16 C)"
  from True g have v2: "16 \<le> length C" "drop_bit 4 (C ! 12) = 2" "16 + be16 (C ! 14) (C ! 15) \<le> length C"
    "rest = drop (16 + be16 (C ! 14) (C ! 15)) C" "a = v2_addr (C ! 12) (C ! 13) block"
    by (auto simp: header_grammar_def v2_spec_def Let_def block_def split: if_splits)
  have "drop i C = C ! i # drop (Suc i) C" if "i < 16" for i
    using Cons_nth_drop_Suc [of i C] that v2(1) by simp
  from this [of 12] this [of 13] this [of 14] this [of 15]
  have four: "drop 12 C = [C ! 12, C ! 13, C ! 14, C ! 15] @ drop 16 C" by simp
  have "drop 16 C = block @ rest"
    using v2(4) append_take_drop_id [of "be16 (C ! 14) (C ! 15)" "drop 16 C"] by (simp add: block_def add.commute)
  then have C: "C = SIG_V2 @ [C ! 12, C ! 13, C ! 14, C ! 15] @ block @ rest"
    using append_take_drop_id [of 12 C] True four by simp
  have "length block = 256 * unat (C ! 14) + unat (C ! 15)" using v2(3) by (simp add: block_def be16_def)
  moreover have "unat (C ! 12) div 16 = 2" using v2(2) by (simp add: nibbles)
  moreover have "v2_block (unat (C ! 12) mod 16) (unat (C ! 13) div 16) block a" using v2(5) v2_addr_block by blast
  ultimately show ?thesis using header_spec.v2_header [of "C ! 12" block "C ! 14" "C ! 15" "C ! 13" a lim rest] C by simp
next
  case False
  with lim obtain i where i: "find_crlf C = Some i" "i + 2 \<le> lim" by blast
  with False g have v1: "utf8_valid (map unat (take i C))" "v1_fields (bytes_str (take i C)) = Inr a" "rest = drop (i + 2) C"
    by (auto simp: header_grammar_def v1_spec_def from_utf8_def split: if_splits sum.splits)
  from i(1) have parts: "i + 2 \<le> length C" "C = take i C @ CRLF @ drop (i + 2) C" "\<not> sublist CRLF (take i C)"
    using find_crlf_parts by blast+
  let ?line = "bytes_str (take i C)"
  have "header_spec lim (str_bytes ?line @ CRLF @ rest) rest a"
    by (rule header_spec.v1_header) (use v1 parts i(2) in \<open>simp_all add: v1_fields_line\<close>)
  then show ?thesis using parts(2) v1(3) by simp
qed

section \<open>Properties\<close>

definition v2_sample :: bytes where
  "v2_sample = SIG_V2 @ [0x21, 0x11, 0, 12] @ [10, 1, 2, 3, 10, 9, 9, 9, 0x1F, 0x90, 0x01, 0xBB]
     @ str_bytes ''GET''"

definition v1_sample :: bytes where
  "v1_sample = str_bytes ''PROXY TCP4 192.168.0.1 10.0.0.1 56324 443'' @ [13, 10] @ str_bytes ''GET''"

text \<open>On the whole stream, for version 2 always and for version 1 whenever the first CRLF comes before offset
  107, the parser is the grammar.\<close>

lemma read_header_grammar:
  assumes "sock_ok s"
    and "take 12 (sock_content s) = SIG_V2 \<or> (\<forall>i. find_crlf (sock_content s) = Some i \<longrightarrow> i < 107)"
  shows "parse_abs (read_header s) = header_grammar (sock_content s)"
  using assms(1) refl [of "sock_content s"]
proof (cases rule: read_header_cases)
  case (v1 s1 buf)
  with assms(2) have "\<And>i. find_crlf (sock_content s) = Some i \<Longrightarrow> i < 107" by blast
  then show ?thesis using parse_v1_spec [OF v1(1,2)] v1(3,4) by simp
qed (use parse_v2_spec in auto)

text \<open>A line of 150 bytes and its CRLF.\<close>

definition v1_long :: bytes where
  "v1_long = str_bytes ''PROXY TCP4 1.2.3.4 '' @ replicate 130 0x41 @ [13, 10]"


lemma v1_sample_spec: "header_spec (MAX_V1 + 1) v1_sample (str_bytes ''GET'') (Some ''192.168.0.1'')"
proof -
  let ?line = "''PROXY TCP4 192.168.0.1 10.0.0.1 56324 443''"
  have "v1_fields ?line = Inr (Some ''192.168.0.1'')" "utf8_valid (map unat (str_bytes ?line))" by code_simp+
  moreover have "\<not> sublist CRLF (str_bytes ?line)"
  proof -
    have "0x0D \<notin> set (str_bytes ?line)" by code_simp
    then show ?thesis by (auto simp: CRLF_def sublist_def)
  qed
  ultimately have "header_spec (MAX_V1 + 1) (str_bytes ?line @ CRLF @ str_bytes ''GET'') (str_bytes ''GET'') (Some ''192.168.0.1'')"
    by (intro header_spec.v1_header) (simp_all add: v1_fields_line MAX_V1_def)
  then show ?thesis by (simp add: v1_sample_def CRLF_def)
qed

lemma v2_sample_spec: "header_spec (MAX_V1 + 1) v2_sample (str_bytes ''GET'') (Some ''10.1.2.3'')"
proof -
  have "v2_block 1 1 [10, 1, 2, 3, 10, 9, 9, 9, 0x1F, 0x90, 0x01, 0xBB] (Some ''10.1.2.3'')"
  proof -
    have "join ''.'' (map (\<lambda>b. show_nat (unat b)) [10, 1, 2, 3 :: u8]) = ''10.1.2.3''" by code_simp
    then show ?thesis by (simp add: v2_block_def)
  qed
  then have "header_spec (MAX_V1 + 1) (SIG_V2 @ [0x21, 0x11, 0, 12] @ [10, 1, 2, 3, 10, 9, 9, 9, 0x1F, 0x90, 0x01, 0xBB] @ str_bytes ''GET'')
      (str_bytes ''GET'') (Some ''10.1.2.3'')"
    by (intro header_spec.v2_header) simp_all
  then show ?thesis by (simp add: v2_sample_def)
qed


text \<open>The mode is strict and loses nothing. A connection is accepted only if its bytes
  start with one of the two signatures; what was accepted is what the specification of the
  formats gives on the whole stream, the bytes left to read are the stream minus that
  header, in order, and a version 1 line is never longer than 363 bytes with its CRLF.\<close>

theorem read_header_strict_lossless:
  assumes "sock_ok s" and "read_header s = Inr (io, a)"
  shows "header_grammar (sock_content s) = Inr (prefixed_content io, a) \<and>
    (\<exists>hdr. sock_content s = hdr @ prefixed_content io \<and>
       (starts_with hdr SIG_V2 \<or> starts_with hdr SIG_V1)) \<and>
    (take 12 (sock_content s) \<noteq> SIG_V2 \<longrightarrow>
       (\<exists>i. find_crlf (sock_content s) = Some i \<and> i + 2 \<le> 363))"
  using read_header_Inr [OF assms] header_grammar_consumed by blast

theorem read_header_strict_lossless_witness:
  "\<exists>hdr. sock_content [Arrives v1_sample] = hdr @ str_bytes ''GET'' \<and>
     (starts_with hdr SIG_V2 \<or> starts_with hdr SIG_V1)"
proof -
  have 1: "sock_ok [Arrives v1_sample]" by code_simp
  have 2: "read_header [Arrives v1_sample] =
      Inr (prefixed_new [] (str_bytes ''GET''), Some ''192.168.0.1'')" by code_simp
  from read_header_strict_lossless [OF 1 2] show ?thesis by simp
qed

text \<open>A reader of the wrapped connection that uses buffers of the given sizes in turn.\<close>

fun read_all :: "prefixed_io \<Rightarrow> nat list \<Rightarrow> bytes" where
  "read_all io [] = []"
| "read_all io (cap # caps) =
     (case prefixed_read io cap of Inl e \<Rightarrow> [] | Inr (b, io') \<Rightarrow> b @ read_all io' caps)"

lemma drain_read_all: "pio.drain io caps = read_all io caps"
  by (induction caps arbitrary: io) (simp_all split: sum.splits)

text \<open>The wrapper replays the leftover exactly once and then the connection: whatever
  (positive) buffer sizes the reader uses, what it gets is an initial part of the leftover
  followed by the rest of the connection, and all of it once it has read often enough.\<close>

theorem prefixed_io_replays:
  assumes "sock_ok s" and "\<forall>cap \<in> set caps. 0 < cap"
  shows "prefix (read_all (prefixed_new s pre) caps) (pre @ sock_content s) \<and>
    (length pre + length (sock_content s) \<le> length caps \<longrightarrow>
       read_all (prefixed_new s pre) caps = pre @ sock_content s)"
proof -
  have ok: "prefixed_ok (prefixed_new s pre)"
    using assms(1) by (simp add: prefixed_ok_def prefixed_new_def)
  from pio.drain_prefix [OF ok assms(2)] pio.drain_complete [OF ok assms(2)] show ?thesis
    by (simp add: drain_read_all)
qed

theorem prefixed_io_replays_witness:
  "read_all (prefixed_new [Arrives [3, 4], Arrives [5]] [1, 2]) [1, 7, 1, 9, 4] = [1, 2, 3, 4, 5]"
proof -
  have 1: "sock_ok [Arrives [3, 4], Arrives [5]]" by (simp add: sock_ok_def)
  from prefixed_io_replays [OF 1, of "[1, 7, 1, 9, 4]" "[1, 2]"] show ?thesis by simp
qed

text \<open>Writing leaves what is still to be read as it was, and reaches the inner stream unchanged, in order.\<close>

lemma prefixed_forward_transparent:
  assumes "prefixed_forward io me = (r, me')"
  shows "prefixed_io.truncate me' = prefixed_io.truncate me \<and> io (pw_sink me) = (r, pw_sink me')"
  using assms by (auto simp: prefixed_forward_def prefixed_io.defs split: prod.splits)


text \<open>The 107-byte limit of version 1 is only enforced between reads: there are two
  ways the same bytes can arrive (a valid-looking line of 150 bytes and its CRLF) such
  that the first is accepted and the second refused.\<close>

theorem v1_limit_depends_on_chunking:
  "sock_content [Arrives v1_long] = sock_content [Arrives (take 108 v1_long), Arrives (drop 108 v1_long)] \<and>
   read_header [Arrives v1_long] = Inr (prefixed_new [] [], Some ''1.2.3.4'') \<and>
   read_header [Arrives (take 108 v1_long), Arrives (drop 108 v1_long)] = Inl ()"
proof (intro conjI)
  show "read_header [Arrives v1_long] = Inr (prefixed_new [] [], Some ''1.2.3.4'')" by code_simp
  show "read_header [Arrives (take 108 v1_long), Arrives (drop 108 v1_long)] = Inl ()" by code_simp
qed simp

end
