(* ===== verification/Lifecycle.thy ===== *)
theory Lifecycle
  imports Config Proxy_Protocol
begin

text \<open>
  The life of a connection and of a server: admission and the shutdown stages
  (\<^verbatim>\<open>serve\<close>, \<^verbatim>\<open>serve_conn\<close>, \<^verbatim>\<open>drive\<close>, \<^verbatim>\<open>wait_closing\<close> of \<^verbatim>\<open>src/server.rs\<close>) and the class \<^verbatim>\<open>RustServer\<close> of
  \<^verbatim>\<open>src/lib.rs\<close>, whose \<^verbatim>\<open>listen\<close> binds the sockets between the two halves of \<open>Config\<close>; the answers of the operating
  system are the record \<open>host_os\<close>, and the files at Unix paths are passed through.

  \<^verbatim>\<open>select!\<close> over several futures is a function of the event that wins. The \<^verbatim>\<open>Arc<Shared>\<close> that the two
  slots of \<^verbatim>\<open>RustServer\<close> share is an address in an explicit store, so that aliasing shows. \<^verbatim>\<open>close\<close> is
  cut at its awaits.
\<close>

section \<open>Shutdown stages\<close>

definition RUNNING :: nat where "RUNNING = 0"
definition PRE_SHUTDOWN :: nat where "PRE_SHUTDOWN = 1"
definition CLOSING :: nat where "CLOSING = 2"

text \<open>\<^verbatim>\<open>wait_closing\<close> over the values a watch channel shows one after the other; after the last one the
  sender is gone. The result is how many changes were awaited.\<close>

fun wait_closing :: "nat list \<Rightarrow> nat" where
  "wait_closing [] = 0"
| "wait_closing (v # vs) = (if v \<ge> CLOSING then 0 else (case vs of [] \<Rightarrow> 0 | _ \<Rightarrow> Suc (wait_closing vs)))"

section \<open>The protocol builders\<close>

text \<open>The settings \<^verbatim>\<open>build_h1\<close> and \<^verbatim>\<open>build_auto\<close> give to hyper; \<^const>\<open>None\<close> leaves hyper's default.\<close>

record h1_builder =
  h1_header_read_timeout :: "nat option"
  h1_max_headers :: "nat option"
  h1_max_buf_size :: "nat option"

record auto_builder =
  ab_h1 :: h1_builder
  ab_max_header_list_size :: "u32 option"
  ab_max_concurrent_streams :: "u32 option"
  ab_initial_stream_window_size :: "u32 option"
  ab_max_pending_accept_reset_streams :: "nat option"

definition MIN_HEADER_BUF :: nat where "MIN_HEADER_BUF = 8192"

definition build_h1 :: "tuning \<Rightarrow> h1_builder" where
  "build_h1 t =
     \<lparr>h1_header_read_timeout = tu_header_read_timeout t, h1_max_headers = tu_max_headers t,
      h1_max_buf_size = map_option (\<lambda>sz. max sz MIN_HEADER_BUF) (tu_max_header_size t)\<rparr>"

definition build_auto :: "tuning \<Rightarrow> auto_builder" where
  "build_auto t =
     \<lparr>ab_h1 = \<lparr>h1_header_read_timeout = tu_header_read_timeout t, h1_max_headers = tu_max_headers t,
               h1_max_buf_size = map_option (\<lambda>sz. max sz MIN_HEADER_BUF) (tu_max_header_size t)\<rparr>,
      ab_max_header_list_size = map_option (\<lambda>sz. of_nat sz) (tu_max_header_size t),
      ab_max_concurrent_streams = tu_max_concurrent_streams t,
      ab_initial_stream_window_size = tu_initial_window_size t,
      ab_max_pending_accept_reset_streams = tu_max_reset_streams t\<rparr>"

section \<open>A connection\<close>

text \<open>What the two \<^verbatim>\<open>select!\<close> of \<^verbatim>\<open>drive\<close> can see: the connection is done, the idle watchdog fired, the
  stage channel shows a value or lost its sender, the handler asked for the connection to close.\<close>

datatype drive_event = ConnDone | IdleFired | StageSeen nat | StageGone | ShedNotified

datatype drive_phase = Serving | Graceful | Finished_Conn

text \<open>Without an idle timeout the watchdog is \<^verbatim>\<open>pending()\<close> and never wins. The first \<^verbatim>\<open>select!\<close> ends with
  \<^verbatim>\<open>graceful_shutdown\<close>; the second one no longer listens to signals. The count is the number of
  \<^verbatim>\<open>graceful_shutdown\<close> calls.\<close>

definition drive_ends :: "nat option \<Rightarrow> drive_event \<Rightarrow> bool" where
  "drive_ends idle e = (e = ConnDone \<or> (e = IdleFired \<and> idle \<noteq> None))"

fun drive_asks :: "drive_event \<Rightarrow> bool" where
  "drive_asks (StageSeen v) = (v \<ge> CLOSING)"
| "drive_asks StageGone = True"
| "drive_asks ShedNotified = True"
| "drive_asks _ = False"

fun drive_step :: "nat option \<Rightarrow> drive_phase \<times> nat \<Rightarrow> drive_event \<Rightarrow> drive_phase \<times> nat" where
  "drive_step idle (Serving, g) e =
     (if drive_ends idle e then (Finished_Conn, g)
      else if drive_asks e then (Graceful, g + 1)
      else (Serving, g))"
| "drive_step idle (Graceful, g) e = (if drive_ends idle e then (Finished_Conn, g) else (Graceful, g))"
| "drive_step idle (Finished_Conn, g) e = (Finished_Conn, g)"

definition drive :: "nat option \<Rightarrow> drive_event list \<Rightarrow> drive_phase \<times> nat" where
  "drive idle es = foldl (drive_step idle) (Serving, 0) es"

text \<open>\<^verbatim>\<open>maybe_timeout\<close>: \<open>took\<close> is how long the future would take.\<close>

definition maybe_timeout :: "nat option \<Rightarrow> nat \<Rightarrow> 'a \<Rightarrow> 'a option" where
  "maybe_timeout d took x = (case d of Some t \<Rightarrow> if t < took then None else Some x | None \<Rightarrow> Some x)"

text \<open>The start of \<^verbatim>\<open>serve_conn\<close>: the stream and the client address the service sees, or an early
  return.\<close>

definition conn_source :: "tuning \<Rightarrow> nat \<Rightarrow> sock \<Rightarrow> string \<Rightarrow> (prefixed_io \<times> string) option" where
  "conn_source t took s peer_ip =
     (if tu_proxy_protocol t
      then (case maybe_timeout (tu_handshake_timeout t) took (read_header s) of
              Some (Inr (io, addr)) \<Rightarrow> Some (io, (case addr of Some a \<Rightarrow> a | None \<Rightarrow> peer_ip))
            | _ \<Rightarrow> None)
      else Some (prefixed_new s [], peer_ip))"

text \<open>Which builder serves the connection. The TLS acceptor is third-party code: \<open>tls\<close> is how long
  its handshake takes and whether it succeeds.\<close>

datatype conn_proto = TlsAuto auto_builder | PlainAuto auto_builder | PlainH1 h1_builder

record served_conn =
  sc_proto :: conn_proto
  sc_ip :: string
  sc_io :: prefixed_io
  sc_phase :: drive_phase
  sc_graceful :: nat

definition serve_conn ::
  "tuning \<Rightarrow> nat \<Rightarrow> sock \<Rightarrow> string \<Rightarrow> nat \<times> bool \<Rightarrow> drive_event list \<Rightarrow> served_conn option" where
  "serve_conn t took s peer_ip tls es =
     (case conn_source t took s peer_ip of
        None \<Rightarrow> None
      | Some (io, ip) \<Rightarrow>
          let run = (\<lambda>p. case drive (tu_idle_timeout t) es of
                           (ph, g) \<Rightarrow> Some \<lparr>sc_proto = p, sc_ip = ip, sc_io = io, sc_phase = ph, sc_graceful = g\<rparr>)
          in if tu_tls t \<noteq> None
             then (case maybe_timeout (tu_handshake_timeout t) (fst tls) (snd tls) of
                     Some True \<Rightarrow> run (TlsAuto (build_auto t))
                   | _ \<Rightarrow> None)
             else if tu_h2c t then run (PlainAuto (build_auto t))
             else run (PlainH1 (build_h1 t)))"

text \<open>\<^verbatim>\<open>accept_any\<close>: a Unix peer has no address and is given loopback; \<^const>\<open>None\<close> is a transient error.\<close>

datatype bound = TcpBound | UnixBound

definition accept_any :: "bound \<Rightarrow> string option \<Rightarrow> (bound \<times> string) option" where
  "accept_any b peer =
     (case (b, peer) of
        (_, None) \<Rightarrow> None
      | (TcpBound, Some ip) \<Rightarrow> Some (TcpBound, ip)
      | (UnixBound, Some _) \<Rightarrow> Some (UnixBound, ''127.0.0.1''))"

text \<open>The service of the admin port.\<close>

definition admin_service :: "('r, 'v, 'd, 'sem) libs \<Rightarrow> ('r, 'v, 'sem) shared \<Rightarrow> http_request \<Rightarrow> response" where
  "admin_service L sh r =
     (case admin_response (lb_http L) (lb_show_secs L) (tu_health_paths (sh_tuning sh)) (sh_readiness sh)
             (sh_metrics sh) (to_uppercase (rq_method r)) (rq_path r) of
        Some res \<Rightarrow> res
      | None \<Rightarrow> status_text 404 ''Not Found'')"

section \<open>The accept loop\<close>

text \<open>The live counter: reserve, test, roll back; released by the guard of the connection.\<close>

definition admit_conn :: "nat option \<Rightarrow> u64 \<Rightarrow> bool \<times> u64" where
  "admit_conn max_connections live =
     (let count = unat live + 1; live' = live + 1
      in if over_limit max_connections count then (False, live' - 1) else (True, live'))"

definition live_drop :: "u64 \<Rightarrow> u64" where
  "live_drop live = live - 1"

text \<open>\<^verbatim>\<open>serve\<close> beside its connection tasks and the sender of the stage. A connection task
  is spawned, runs \<^verbatim>\<open>serve_conn\<close>, drops the guard of the gauge and then the one of the live counter, and then releases
  its clone of the drain sender; each of these is a step of its own, and \<open>ss_spawned\<close>, \<open>ss_serving\<close>, \<open>ss_leaving\<close> and
  \<open>ss_releasing\<close> count the tasks between them. \<open>ss_expired\<close> records that the deadline ended the drain,
  \<open>ss_done\<close> counts the notifications of \<^verbatim>\<open>done\<close>. A ready \<^verbatim>\<open>select!\<close> picks any ready branch, so a
  connection may still be accepted after the signal, until the loop sees it.\<close>

datatype serve_phase = Accepting | Draining | Served

text \<open>The phases in the order of the source.\<close>

instantiation serve_phase :: linorder
begin

fun less_eq_serve_phase :: "serve_phase \<Rightarrow> serve_phase \<Rightarrow> bool" where
  "Accepting \<le> q \<longleftrightarrow> True"
| "Draining \<le> q \<longleftrightarrow> q \<noteq> Accepting"
| "Served \<le> q \<longleftrightarrow> q = Served"

definition less_serve_phase :: "serve_phase \<Rightarrow> serve_phase \<Rightarrow> bool" where
  "less_serve_phase p q \<longleftrightarrow> p \<le> q \<and> \<not> q \<le> p"

instance
proof
  fix p q r :: serve_phase
  show "p < q \<longleftrightarrow> p \<le> q \<and> \<not> q \<le> p" by (rule less_serve_phase_def)
  show "p \<le> p" by (cases p) simp_all
  show "p \<le> q \<or> q \<le> p" by (cases p; cases q) simp_all
  show "p \<le> r" if "p \<le> q" "q \<le> r" using that by (cases p; cases q) simp_all
  show "p = q" if "p \<le> q" "q \<le> p" using that by (cases p; cases q) simp_all
qed

end

record serve_state =
  ss_phase :: serve_phase
  ss_stage :: nat
  ss_gone :: bool
  ss_listening :: bool
  ss_live :: u64
  ss_spawned :: nat
  ss_serving :: nat
  ss_leaving :: nat
  ss_releasing :: nat
  ss_metrics :: metrics
  ss_expired :: bool
  ss_done :: nat

definition serve_start :: serve_state where
  "serve_start =
     \<lparr>ss_phase = Accepting, ss_stage = RUNNING, ss_gone = False, ss_listening = True, ss_live = 0,
      ss_spawned = 0, ss_serving = 0, ss_leaving = 0, ss_releasing = 0, ss_metrics = metrics_new, ss_expired = False, ss_done = 0\<rparr>"

text \<open>The connections that count against the limit, and the tasks that hold a clone of the drain sender.\<close>

definition ss_open :: "serve_state \<Rightarrow> nat" where
  "ss_open s = ss_spawned s + ss_serving s + ss_leaving s"

definition ss_tasks :: "serve_state \<Rightarrow> nat" where
  "ss_tasks s = ss_open s + ss_releasing s"

definition closing_ready :: "serve_state \<Rightarrow> bool" where
  "closing_ready s = (ss_stage s \<ge> CLOSING \<or> ss_gone s)"

definition accept_conn :: "nat option \<Rightarrow> serve_state \<Rightarrow> serve_state" where
  "accept_conn mx s =
     (case admit_conn mx (ss_live s) of
        (True, live') \<Rightarrow> s\<lparr>ss_live := live', ss_spawned := ss_spawned s + 1\<rparr>
      | (False, live') \<Rightarrow> s\<lparr>ss_live := live'\<rparr>)"

definition start_conn :: "serve_state \<Rightarrow> serve_state" where
  "start_conn s =
     s\<lparr>ss_spawned := ss_spawned s - 1, ss_serving := ss_serving s + 1, ss_metrics := conn_opened (ss_metrics s)\<rparr>"

definition end_conn :: "serve_state \<Rightarrow> serve_state" where
  "end_conn s =
     s\<lparr>ss_serving := ss_serving s - 1, ss_leaving := ss_leaving s + 1, ss_metrics := conn_closed (ss_metrics s)\<rparr>"

definition drop_live :: "serve_state \<Rightarrow> serve_state" where
  "drop_live s =
     s\<lparr>ss_leaving := ss_leaving s - 1, ss_releasing := ss_releasing s + 1, ss_live := live_drop (ss_live s)\<rparr>"

definition drop_drain :: "serve_state \<Rightarrow> serve_state" where
  "drop_drain s = s\<lparr>ss_releasing := ss_releasing s - 1\<rparr>"

definition finish_drain :: "bool \<Rightarrow> serve_state \<Rightarrow> serve_state" where
  "finish_drain late s = s\<lparr>ss_phase := Served, ss_expired := late, ss_done := ss_done s + 1\<rparr>"

text \<open>The bound of \<open>accept_step\<close> says that fewer than \<open>2 ^ 64\<close> connection tasks exist.\<close>

inductive serve_step :: "nat option \<Rightarrow> serve_state \<Rightarrow> serve_state \<Rightarrow> bool" for mx where
  accept_step: "ss_phase s = Accepting \<Longrightarrow> ss_tasks s + 1 < 2 ^ 64 \<Longrightarrow> serve_step mx s (accept_conn mx s)"
| accept_error: "ss_phase s = Accepting \<Longrightarrow> serve_step mx s s"
| stage_step: "ss_stage s \<le> v \<Longrightarrow> v \<in> {PRE_SHUTDOWN, CLOSING} \<Longrightarrow> serve_step mx s (s\<lparr>ss_stage := v\<rparr>)"
| gone_step: "serve_step mx s (s\<lparr>ss_gone := True\<rparr>)"
| leave_step: "ss_phase s = Accepting \<Longrightarrow> closing_ready s \<Longrightarrow>
    serve_step mx s (s\<lparr>ss_phase := Draining, ss_listening := False\<rparr>)"
| start_step: "0 < ss_spawned s \<Longrightarrow> serve_step mx s (start_conn s)"
| end_step: "0 < ss_serving s \<Longrightarrow> serve_step mx s (end_conn s)"
| live_step: "0 < ss_leaving s \<Longrightarrow> serve_step mx s (drop_live s)"
| release_step: "0 < ss_releasing s \<Longrightarrow> serve_step mx s (drop_drain s)"
| drained_step: "ss_phase s = Draining \<Longrightarrow> ss_tasks s = 0 \<Longrightarrow> serve_step mx s (finish_drain False s)"
| deadline_step: "ss_phase s = Draining \<Longrightarrow> serve_step mx s (finish_drain True s)"

inductive_simps serve_step_iff: "serve_step mx s s'"

section \<open>Binding\<close>

text \<open>What the system answers to the calls of \<^verbatim>\<open>listen\<close>: the doorbell, name resolution, the calls on the main and
  the admin socket, the faults at a Unix path, the runtime, and whether the bound sockets register with its
  reactor (\<^verbatim>\<open>from_std\<close>).\<close>

record host_os =
  os_doorbell :: "string option"
  os_literal :: "string \<Rightarrow> (string \<times> bool) option"
  os_resolve :: "string \<Rightarrow> string + (string \<times> bool) list"
  os_main :: "sys_call \<Rightarrow> string option"
  os_admin :: "sys_call \<Rightarrow> string option"
  os_unix :: unix_faults
  os_runtime :: "string option"
  os_parse_f64 :: "string \<Rightarrow> rat option"
  os_parallelism :: "nat option"
  os_cgroup :: "string option \<times> string option \<times> string option"
  os_register :: bool
  os_register_admin :: bool

type_synonym files = "string \<Rightarrow> file_kind option"

text \<open>\<^verbatim>\<open>ListenTarget\<close>, with the calls that made it.\<close>

datatype listen_target = TcpTarget "sys_call list" | UnixTarget string

definition bind_main ::
  "host_os \<Rightarrow> string \<Rightarrow> u16 \<Rightarrow> listen_options \<Rightarrow> tuning \<Rightarrow> files \<Rightarrow> files \<times> (string + listen_target)" where
  "bind_main os host port o' t fs =
     (case lo_unix_path o' of
        Some path \<Rightarrow>
          (case bind_unix (os_unix os) path fs of
             (fs', Inl e) \<Rightarrow> (fs', Inl (''bind unix '' @ path @ '': '' @ e))
           | (fs', Inr _) \<Rightarrow> (fs', Inr (UnixTarget path)))
      | None \<Rightarrow>
          (case bind_tcp (os_literal os) (os_resolve os) (os_main os) host (unat port) (tu_socket t) of
             (_, Inl e) \<Rightarrow> (fs, Inl (''bind '' @ host @ '':'' @ show_nat (unat port) @ '': '' @ e))
           | (calls, Inr _) \<Rightarrow> (fs, Inr (TcpTarget calls))))"

definition bind_admin :: "host_os \<Rightarrow> string \<Rightarrow> tuning \<Rightarrow> string + sys_call list option" where
  "bind_admin os host t =
     (case tu_admin_port t of
        None \<Rightarrow> Inr None
      | Some p \<Rightarrow>
          (case bind_tcp (os_literal os) (os_resolve os) (os_admin os) host (unat p) (tu_socket t) of
             (_, Inl e) \<Rightarrow> Inl (''bind admin '' @ host @ '':'' @ show_nat (unat p) @ '': '' @ e)
           | (calls, Inr _) \<Rightarrow> Inr (Some calls)))"

definition auto_workers :: "host_os \<Rightarrow> nat" where
  "auto_workers os =
     (case os_cgroup os of
        (cpu_max, quota_us, period_us) \<Rightarrow> worker_threads_auto (os_parse_f64 os) (os_parallelism os) cpu_max quota_us period_us)"

text \<open>The main task that \<^verbatim>\<open>listen\<close> spawns: a socket that does not register ends it at once, with \<^verbatim>\<open>done\<close> notified.\<close>

definition main_task :: "bool \<Rightarrow> serve_state" where
  "main_task registered =
     (if registered then serve_start
      else serve_start\<lparr>ss_phase := Served, ss_listening := False, ss_done := 1\<rparr>)"

section \<open>The server object\<close>

record running =
  rn_shared :: nat
  rn_stage :: nat
  rn_close_deadline :: nat
  rn_pre_shutdown_delay :: nat
  rn_target :: listen_target
  rn_admin :: "sys_call list option"
  rn_workers :: nat
  rn_task :: serve_state

record ('r, 'v, 'sem) rust_server =
  sv_state :: "running option"
  sv_active :: "nat option"
  sv_heap :: "nat \<Rightarrow> ('r, 'v, 'sem) shared"

definition server_new :: "(nat \<Rightarrow> ('r, 'v, 'sem) shared) \<Rightarrow> ('r, 'v, 'sem) rust_server" where
  "server_new h = \<lparr>sv_state = None, sv_active = None, sv_heap = h\<rparr>"

definition upd_shared ::
  "nat \<Rightarrow> (('r, 'v, 'sem) shared \<Rightarrow> ('r, 'v, 'sem) shared) \<Rightarrow> ('r, 'v, 'sem) rust_server \<Rightarrow> ('r, 'v, 'sem) rust_server" where
  "upd_shared a f sv = sv\<lparr>sv_heap := (sv_heap sv)(a := f (sv_heap sv a))\<rparr>"

text \<open>The end of \<^verbatim>\<open>listen\<close>: the runtime, the rest of the options, the shared state at \<open>addr\<close>, and the two slots.\<close>

definition start_server ::
  "('r, 'v, 'd, 'sem) libs \<Rightarrow> host_os \<Rightarrow> nat \<Rightarrow> bool \<Rightarrow> listen_options \<Rightarrow> ('r, 'v) prepared \<Rightarrow> listen_target
   \<Rightarrow> sys_call list option \<Rightarrow> ('r, 'v, 'sem) rust_server \<Rightarrow> string + ('r, 'v, 'sem) rust_server" where
  "start_server L os addr has_not_found o' p target admin sv =
     and_then (case os_runtime os of Some e \<Rightarrow> Inl e | None \<Rightarrow> Inr ()) (\<lambda>_.
     and_then (assemble L has_not_found o' p) (\<lambda>(sh, deadline, pre_delay).
       Inr (sv\<lparr>sv_heap := (sv_heap sv)(addr := sh), sv_active := Some addr,
               sv_state := Some \<lparr>rn_shared = addr, rn_stage = RUNNING, rn_close_deadline = deadline,
                                 rn_pre_shutdown_delay = pre_delay, rn_target = target, rn_admin = admin,
                                 rn_workers = workers_of o' (auto_workers os), rn_task = main_task (os_register os)\<rparr>\<rparr>)))"

text \<open>\<^verbatim>\<open>listen\<close>, with what it leaves of the file system: refused while the server listens; everything that can be
  checked is checked, then the main socket is bound, then the admin socket, then the server starts.\<close>

definition listen ::
  "('r, 'v, 'd, 'sem) libs \<Rightarrow> host_os \<Rightarrow> nat \<Rightarrow> u16 \<Rightarrow> string \<Rightarrow> js_route list \<Rightarrow> bool \<Rightarrow> listen_options
   \<Rightarrow> ('r, 'v, 'sem) rust_server \<Rightarrow> files \<Rightarrow> files \<times> (string + ('r, 'v, 'sem) rust_server)" where
  "listen L os addr port host routes has_not_found o' sv fs =
     (if sv_state sv \<noteq> None then (fs, Inl ''listen: this server is already listening; call close() first'')
      else case prepare L (os_doorbell os) routes o' of
             Inl e \<Rightarrow> (fs, Inl e)
           | Inr p \<Rightarrow>
               (case bind_main os host port o' (pr_tuning p) fs of
                  (fs', Inl e) \<Rightarrow> (fs', Inl e)
                | (fs', Inr target) \<Rightarrow>
                    (fs', and_then (bind_admin os host (pr_tuning p)) (\<lambda>admin.
                            start_server L os addr has_not_found o' p target admin sv))))"

definition sv_take_batch :: "('r, 'v, 'sem) rust_server \<Rightarrow> matched_request list \<times> ('r, 'v, 'sem) rust_server" where
  "sv_take_batch sv =
     (case sv_active sv of
        None \<Rightarrow> ([], sv)
      | Some a \<Rightarrow> (case take_batch (sh_bridge (sv_heap sv a)) of
                    (batch, b) \<Rightarrow> (batch, upd_shared a (\<lambda>sh. sh\<lparr>sh_bridge := b\<rparr>) sv)))"

definition sv_take_body :: "u32 \<Rightarrow> ('r, 'v, 'sem) rust_server \<Rightarrow> body_parts option \<times> ('r, 'v, 'sem) rust_server" where
  "sv_take_body rid sv =
     (case sv_active sv of
        None \<Rightarrow> (None, sv)
      | Some a \<Rightarrow> (case take_body rid (sh_bridge (sv_heap sv a)) of
                    (parts, b) \<Rightarrow> (parts, upd_shared a (\<lambda>sh. sh\<lparr>sh_bridge := b\<rparr>) sv)))"

definition sv_respond :: "u32 \<Rightarrow> js_response \<Rightarrow> ('r, 'v, 'sem) rust_server \<Rightarrow> ('r, 'v, 'sem) rust_server" where
  "sv_respond rid res sv =
     (case sv_active sv of
        None \<Rightarrow> sv
      | Some a \<Rightarrow> upd_shared a (\<lambda>sh. sh\<lparr>sh_bridge := respond rid res (sh_bridge sh)\<rparr>) sv)"

fun purge_all :: "string option \<Rightarrow> leaf_cache option list \<Rightarrow> nat \<times> leaf_cache option list" where
  "purge_all path [] = (0, [])"
| "purge_all path (None # cs) = (case purge_all path cs of (n, cs') \<Rightarrow> (n, None # cs'))"
| "purge_all path (Some c # cs) =
     (case purge c path of (k, c') \<Rightarrow> case purge_all path cs of (n, cs') \<Rightarrow> (k + n, Some c' # cs'))"

definition sv_purge_cache :: "string option \<Rightarrow> ('r, 'v, 'sem) rust_server \<Rightarrow> u32 \<times> ('r, 'v, 'sem) rust_server" where
  "sv_purge_cache path sv =
     (case sv_active sv of
        None \<Rightarrow> (0, sv)
      | Some a \<Rightarrow>
          (case purge_all path (sh_cache (sv_heap sv a)) of
             (n, cs) \<Rightarrow> (of_nat n, upd_shared a (\<lambda>sh. sh\<lparr>sh_cache := cs\<rparr>) sv)))"

definition sv_set_ready :: "bool \<Rightarrow> ('r, 'v, 'sem) rust_server \<Rightarrow> ('r, 'v, 'sem) rust_server" where
  "sv_set_ready ready sv =
     (case sv_state sv of
        None \<Rightarrow> sv
      | Some r \<Rightarrow> upd_shared (rn_shared r) (\<lambda>sh. sh\<lparr>sh_readiness := set_js_ready (sh_readiness sh) ready\<rparr>) sv)"

text \<open>\<^verbatim>\<open>close\<close> up to its first await: the running state leaves its slot, readiness drops, and the stage
  moves to \<^const>\<open>PRE_SHUTDOWN\<close> when there is a delay. Then \<^const>\<open>CLOSING\<close>, and after the drain the end.\<close>

definition close_begin :: "('r, 'v, 'sem) rust_server \<Rightarrow> running option \<times> ('r, 'v, 'sem) rust_server" where
  "close_begin sv =
     (case sv_state sv of
        None \<Rightarrow> (None, sv)
      | Some r \<Rightarrow>
          (Some (if rn_pre_shutdown_delay r \<noteq> 0 then r\<lparr>rn_stage := PRE_SHUTDOWN\<rparr> else r),
           upd_shared (rn_shared r) (\<lambda>sh. sh\<lparr>sh_readiness := set_draining (sh_readiness sh) True\<rparr>)
             (sv\<lparr>sv_state := None\<rparr>)))"

definition close_signal :: "running \<Rightarrow> running" where
  "close_signal r = r\<lparr>rn_stage := CLOSING\<rparr>"

definition close_end :: "('r, 'v, 'sem) rust_server \<Rightarrow> ('r, 'v, 'sem) rust_server" where
  "close_end sv = sv\<lparr>sv_active := None\<rparr>"

section \<open>Lemmas\<close>

lemma upd_shared_frames [simp]:
  "sv_state (upd_shared a f sv) = sv_state sv" "sv_active (upd_shared a f sv) = sv_active sv"
  "sv_heap (upd_shared a f sv) a = f (sv_heap sv a)"
  "b \<noteq> a \<Longrightarrow> sv_heap (upd_shared a f sv) b = sv_heap sv b"
  by (simp_all add: upd_shared_def)

text \<open>A listening server has one shared state behind both slots.\<close>

definition sv_inv :: "('r, 'v, 'sem) rust_server \<Rightarrow> bool" where
  "sv_inv sv \<longleftrightarrow> (case sv_state sv of None \<Rightarrow> True | Some r \<Rightarrow> sv_active sv = Some (rn_shared r))"

lemma stage_values: "RUNNING < CLOSING" "PRE_SHUTDOWN < CLOSING" "CLOSING = 2"
  by (simp_all add: RUNNING_def PRE_SHUTDOWN_def CLOSING_def)

lemma listen_running: "listen L os addr port host routes nf o' sv fs = (fs', Inr sv') \<Longrightarrow> sv_state sv' \<noteq> None"
  by (auto simp: listen_def start_server_def and_then_def split: if_splits sum.splits prod.splits option.splits)

text \<open>The calls of JavaScript on the server object, \<^verbatim>\<open>listen\<close> with the answers of the system to it and
  \<^verbatim>\<open>close\<close> up to its first await; \<^verbatim>\<open>inject\<close> has a theory of its own. The files are those \<^verbatim>\<open>listen\<close> touches.\<close>

datatype sv_method = CallTakeBatch | CallTakeBody u32 | CallRespond u32 js_response
  | CallPurge "string option" | CallSetReady bool | CallClose
  | CallListen host_os nat u16 string "js_route list" bool listen_options

fun sv_call ::
  "('r, 'v, 'd, 'sem) libs \<Rightarrow> ('r, 'v, 'sem) rust_server \<times> files \<Rightarrow> sv_method \<Rightarrow> ('r, 'v, 'sem) rust_server \<times> files" where
  "sv_call L (sv, fs) CallTakeBatch = (snd (sv_take_batch sv), fs)"
| "sv_call L (sv, fs) (CallTakeBody rid) = (snd (sv_take_body rid sv), fs)"
| "sv_call L (sv, fs) (CallRespond rid res) = (sv_respond rid res sv, fs)"
| "sv_call L (sv, fs) (CallPurge path) = (snd (sv_purge_cache path sv), fs)"
| "sv_call L (sv, fs) (CallSetReady b) = (sv_set_ready b sv, fs)"
| "sv_call L (sv, fs) CallClose = (snd (close_begin sv), fs)"
| "sv_call L (sv, fs) (CallListen os addr port host routes nf o') =
     (case listen L os addr port host routes nf o' sv fs of
        (fs', Inl _) \<Rightarrow> (sv, fs')
      | (fs', Inr sv') \<Rightarrow> (sv', fs'))"

text \<open>No \<^verbatim>\<open>listen\<close> among the calls succeeds on a server that does not listen: it never listens in between.\<close>

fun never_listens ::
  "('r, 'v, 'd, 'sem) libs \<Rightarrow> ('r, 'v, 'sem) rust_server \<times> files \<Rightarrow> sv_method list \<Rightarrow> bool" where
  "never_listens L s [] = (sv_state (fst s) = None)"
| "never_listens L s (c # cs) = (sv_state (fst s) = None \<and> never_listens L (sv_call L s c) cs)"

text \<open>A server between the two halves of \<^verbatim>\<open>close\<close>.\<close>

definition draining_at :: "nat \<Rightarrow> ('r, 'v, 'sem) rust_server \<Rightarrow> bool" where
  "draining_at a sv \<longleftrightarrow> sv_state sv = None \<and> sv_active sv = Some a \<and> rd_draining (sh_readiness (sv_heap sv a))"

lemma never_listens_now: "never_listens L s cs \<Longrightarrow> sv_state (fst s) = None"
  by (cases cs) simp_all

lemma draining_call:
  assumes "draining_at a (fst s)" and "sv_state (fst (sv_call L s c)) = None"
  shows "draining_at a (fst (sv_call L s c))"
proof -
  obtain sv fs where s: "s = (sv, fs)" by (cases s)
  show ?thesis
  proof (cases "\<exists>os addr port host routes nf o'. c = CallListen os addr port host routes nf o'")
    case True
    then obtain os addr port host routes nf o' where c: "c = CallListen os addr port host routes nf o'" by blast
    show ?thesis
    proof (cases "listen L os addr port host routes nf o' sv fs")
      case (Pair fs' r)
      then show ?thesis
        using assms listen_running [of L os addr port host routes nf o' sv fs fs'] by (cases r) (auto simp: s c)
    qed
  next
    case False
    with assms(1) s show ?thesis
      by (cases c) (auto simp: draining_at_def sv_take_batch_def sv_take_body_def sv_respond_def sv_purge_cache_def
        sv_set_ready_def close_begin_def split: prod.splits option.splits)
  qed
qed

lemma draining_calls:
  "draining_at a (fst s) \<Longrightarrow> never_listens L s cs \<Longrightarrow> draining_at a (fst (foldl (sv_call L) s cs))"
proof (induction cs arbitrary: s)
  case (Cons c cs)
  then have "never_listens L (sv_call L s c) cs" by simp
  with Cons.IH [OF draining_call [OF Cons.prems(1) never_listens_now [OF this]] this] show ?case by simp
qed simp

lemma drive_finished: "foldl (drive_step idle) (Finished_Conn, g) es = (Finished_Conn, g)"
  by (induction es) auto

lemma drive_graceful:
  "foldl (drive_step idle) (Graceful, g) es =
     ((if list_ex (drive_ends idle) es then Finished_Conn else Graceful), g)"
  by (induction es) (simp_all add: drive_finished)

lemma drive_serving:
  "foldl (drive_step idle) (Serving, g) es =
     (let asked = list_ex drive_asks (takeWhile (\<lambda>e. \<not> drive_ends idle e) es)
      in (if list_ex (drive_ends idle) es then Finished_Conn else if asked then Graceful else Serving,
          if asked then g + 1 else g))"
  by (induction es arbitrary: g) (simp_all add: drive_finished drive_graceful Let_def)

lemma wait_closing_Cons:
  "wait_closing (v # vs) = (if v \<ge> CLOSING \<or> vs = [] then 0 else Suc (wait_closing vs))"
  by (cases vs) simp_all

lemmas wait_closing_eqs = wait_closing.simps(1) wait_closing_Cons

lemma wait_closing_bound: "vs \<noteq> [] \<Longrightarrow> wait_closing vs < length vs"
  by (induction vs) (auto simp: wait_closing_eqs simp del: wait_closing.simps)

lemma wait_closing_skips: "i < wait_closing vs \<Longrightarrow> vs ! i < CLOSING"
proof (induction vs arbitrary: i)
  case (Cons v vs)
  then show ?case
    by (cases i) (auto simp: wait_closing_eqs simp del: wait_closing.simps split: if_splits)
qed simp

lemma wait_closing_prefix: "x \<in> set (take (wait_closing vs) vs) \<Longrightarrow> x < CLOSING"
  by (auto simp: in_set_conv_nth intro: wait_closing_skips)

lemma wait_closing_stops: "vs \<noteq> [] \<Longrightarrow> vs ! wait_closing vs \<ge> CLOSING \<or> Suc (wait_closing vs) = length vs"
  by (induction vs) (auto simp: wait_closing_eqs simp del: wait_closing.simps)

subsection \<open>Starting\<close>

lemma bind_tcp_Inr:
  assumes "bind_tcp literal resolve os_err host port opts = (calls, Inr u)"
  obtains a ipv6 where
    "calls = [NewSocket ipv6, SetReuseAddress] @ (if so_reuse_port opts then [SetReusePort] else []) @
       [BindAddr a, Listen (so_backlog opts), SetNonblocking]"
    and "list_all (\<lambda>c. os_err c = None) calls"
    and "literal (host @ '':'' @ show_nat port) = Some (a, ipv6) \<or> (\<exists>as. resolve host = Inr ((a, ipv6) # as))"
proof -
  let ?calls = "\<lambda>a v6. [NewSocket v6, SetReuseAddress] @ (if so_reuse_port opts then [SetReusePort] else []) @
       [BindAddr a, Listen (so_backlog opts), SetNonblocking]"
  from assms obtain a v6 where r: "run_calls os_err (?calls a v6) = (calls, Inr ())"
    and src: "literal (host @ '':'' @ show_nat port) = Some (a, v6) \<or> (\<exists>as. resolve host = Inr ((a, v6) # as))"
    unfolding bind_tcp_def Let_def by (fastforce split: option.splits sum.splits list.splits prod.splits)
  from r run_calls_all [of os_err "?calls a v6"] have "calls = ?calls a v6" by simp
  with r run_calls_ok [of os_err "?calls a v6"] src that [of v6 a] show ?thesis by (simp add: list_all_iff)
qed

text \<open>What is known when \<^verbatim>\<open>listen\<close> succeeds.\<close>

lemma listen_Inr:
  assumes "listen L os addr port host routes nf o' sv fs = (fs', Inr sv')"
  obtains p target admin sh deadline pre rn where
    "sv_state sv = None" and "prepare L (os_doorbell os) routes o' = Inr p"
    and "bind_main os host port o' (pr_tuning p) fs = (fs', Inr target)" and "bind_admin os host (pr_tuning p) = Inr admin"
    and "assemble L nf o' p = Inr (sh, deadline, pre)" and "sv_state sv' = Some rn"
    and "rn = \<lparr>rn_shared = addr, rn_stage = RUNNING, rn_close_deadline = deadline, rn_pre_shutdown_delay = pre,
           rn_target = target, rn_admin = admin, rn_workers = workers_of o' (auto_workers os),
           rn_task = main_task (os_register os)\<rparr>"
    and "sv' = sv\<lparr>sv_heap := (sv_heap sv)(addr := sh), sv_active := Some addr, sv_state := Some rn\<rparr>"
  using assms
  by (auto simp: listen_def start_server_def and_then_Inr split: if_splits sum.splits prod.splits option.splits)

lemma bind_main_files:
  assumes "bind_main os host port o' t fs = (fs', r)"
  shows "lo_unix_path o' \<noteq> Some p \<Longrightarrow> fs' p = fs p" and "fs p = Some OtherFile \<Longrightarrow> fs' p = Some OtherFile"
  using assms
  by (auto simp: bind_main_def bind_unix_def unix_bind_def split: option.splits prod.splits sum.splits file_kind.splits if_splits)

lemma listen_files:
  assumes "listen L os addr port host routes nf o' sv fs = (fs', r)"
  shows "fs' = fs \<or> (\<exists>t r'. bind_main os host port o' t fs = (fs', r'))"
  using assms by (auto simp: listen_def split: if_splits sum.splits prod.splits)

lemma bind_main_target:
  assumes "bind_main os host port o' t fs = (fs', Inr target)"
  shows "case lo_unix_path o' of
      Some path \<Rightarrow> target = UnixTarget path \<and> fs' path = Some SocketFile
    | None \<Rightarrow> \<exists>calls. target = TcpTarget calls \<and> Listen (so_backlog (tu_socket t)) \<in> set calls \<and>
                (SetReusePort \<in> set calls \<longleftrightarrow> so_reuse_port (tu_socket t))"
proof (cases "lo_unix_path o'")
  case None
  then obtain calls where "bind_tcp (os_literal os) (os_resolve os) (os_main os) host (unat port) (tu_socket t) = (calls, Inr ())"
    and "target = TcpTarget calls"
    using assms by (auto simp: bind_main_def split: prod.splits sum.splits)
  with None show ?thesis by (elim bind_tcp_Inr) auto
next
  case (Some path)
  then show ?thesis using assms bind_unix_safe(3) by (auto simp: bind_main_def split: prod.splits sum.splits)
qed

lemma bind_admin_some: "bind_admin os host t = Inr admin \<Longrightarrow> admin = None \<longleftrightarrow> tu_admin_port t = None"
  by (auto simp: bind_admin_def split: option.splits prod.splits sum.splits)

lemma prepare_tuning:
  assumes "prepare L db routes o' = Inr p"
  shows "tu_socket (pr_tuning p) = socket_of o'" and "tu_admin_port (pr_tuning p) = lo_admin_port o'"
    and "so_reuse_port (socket_of o') \<longleftrightarrow> lo_reuse_port o' = Some True"
    and "case tu_tls (pr_tuning p) of
           None \<Rightarrow> lo_tls o' = None
         | Some acc \<Rightarrow> lo_tls o' \<noteq> None \<and> ta_certs acc \<noteq> [] \<and> ta_alpn acc = [''h2'', ''http/1.1'']"
proof -
  from assms obtain tls st where tls: "tls_of (lb_rustls L) o' = Inr tls" and t: "tuning_of o' tls st = Inr (pr_tuning p)"
    by (auto simp: prepare_def and_then_Inr)
  note t = tuning_of_Inr [OF t]
  show "tu_socket (pr_tuning p) = socket_of o'" "tu_admin_port (pr_tuning p) = lo_admin_port o'" by (simp_all add: t)
  show "case tu_tls (pr_tuning p) of
           None \<Rightarrow> lo_tls o' = None
         | Some acc \<Rightarrow> lo_tls o' \<noteq> None \<and> ta_certs acc \<noteq> [] \<and> ta_alpn acc = [''h2'', ''http/1.1'']"
    unfolding t(8) using tls by (auto simp: tls_of_def and_then_Inr build_acceptor_Inr split: option.splits)
  show "so_reuse_port (socket_of o') \<longleftrightarrow> lo_reuse_port o' = Some True"
    by (simp add: socket_of_def Let_def or_default_def default_socket_options_def split: option.splits)
qed

lemma workers_positive:
  assumes "os_parallelism os \<noteq> Some 0"
  shows "1 \<le> workers_of o' (auto_workers os)"
proof -
  obtain a b c where "os_cgroup os = (a, b, c)" by (cases "os_cgroup os")
  with worker_threads_bounds [OF assms, of "os_parse_f64 os" a b c] have "1 \<le> auto_workers os"
    by (simp add: auto_workers_def Let_def)
  then show ?thesis by (auto simp: workers_of_def or_default_def positive_def Suc_le_eq split: option.splits)
qed

subsection \<open>The accept loop\<close>

lemmas conn_ops = accept_conn_def start_conn_def end_conn_def drop_live_def drop_drain_def

lemma conn_frames [simp]:
  "ss_phase (start_conn s) = ss_phase s" "ss_phase (end_conn s) = ss_phase s" "ss_phase (drop_live s) = ss_phase s"
  "ss_phase (drop_drain s) = ss_phase s"
  "ss_listening (start_conn s) = ss_listening s" "ss_listening (end_conn s) = ss_listening s"
  "ss_listening (drop_live s) = ss_listening s" "ss_listening (drop_drain s) = ss_listening s"
  "ss_expired (start_conn s) = ss_expired s" "ss_expired (end_conn s) = ss_expired s"
  "ss_expired (drop_live s) = ss_expired s" "ss_expired (drop_drain s) = ss_expired s"
  "ss_done (start_conn s) = ss_done s" "ss_done (end_conn s) = ss_done s" "ss_done (drop_live s) = ss_done s"
  "ss_done (drop_drain s) = ss_done s"
  "closing_ready (start_conn s) = closing_ready s" "closing_ready (end_conn s) = closing_ready s"
  "closing_ready (drop_live s) = closing_ready s" "closing_ready (drop_drain s) = closing_ready s"
  by (simp_all add: conn_ops closing_ready_def)

lemma conn_counters [simp]:
  "ss_live (start_conn s) = ss_live s" "ss_live (end_conn s) = ss_live s" "ss_live (drop_drain s) = ss_live s"
  "ss_live (drop_live s) = ss_live s - 1"
  "mt_connections (ss_metrics (start_conn s)) = mt_connections (ss_metrics s) + 1"
  "mt_connections (ss_metrics (end_conn s)) = mt_connections (ss_metrics s) - 1"
  "ss_metrics (drop_live s) = ss_metrics s" "ss_metrics (drop_drain s) = ss_metrics s"
  by (simp_all add: conn_ops live_drop_def conn_opened_def conn_closed_def)

lemma task_counts [simp]:
  "ss_open serve_start = 0" "ss_tasks serve_start = 0"
  "0 < ss_spawned s \<Longrightarrow> ss_open (start_conn s) = ss_open s" "0 < ss_spawned s \<Longrightarrow> ss_tasks (start_conn s) = ss_tasks s"
  "0 < ss_serving s \<Longrightarrow> ss_open (end_conn s) = ss_open s" "0 < ss_serving s \<Longrightarrow> ss_tasks (end_conn s) = ss_tasks s"
  "0 < ss_leaving s \<Longrightarrow> ss_open (drop_live s) = ss_open s - 1" "0 < ss_leaving s \<Longrightarrow> ss_tasks (drop_live s) = ss_tasks s"
  "ss_open (drop_drain s) = ss_open s" "0 < ss_releasing s \<Longrightarrow> ss_tasks (drop_drain s) = ss_tasks s - 1"
  "ss_open (finish_drain late s) = ss_open s" "ss_tasks (finish_drain late s) = ss_tasks s"
  by (simp_all add: ss_open_def ss_tasks_def serve_start_def conn_ops finish_drain_def)

lemma serving_counts [simp]:
  "ss_serving (start_conn s) = ss_serving s + 1" "ss_serving (end_conn s) = ss_serving s - 1"
  "ss_serving (drop_live s) = ss_serving s" "ss_serving (drop_drain s) = ss_serving s"
  by (simp_all add: conn_ops)

lemma task_counts_upd [simp]:
  "ss_open (s\<lparr>ss_stage := v\<rparr>) = ss_open s" "ss_tasks (s\<lparr>ss_stage := v\<rparr>) = ss_tasks s"
  "ss_open (s\<lparr>ss_gone := g\<rparr>) = ss_open s" "ss_tasks (s\<lparr>ss_gone := g\<rparr>) = ss_tasks s"
  "ss_open (s\<lparr>ss_phase := p, ss_listening := b\<rparr>) = ss_open s" "ss_tasks (s\<lparr>ss_phase := p, ss_listening := b\<rparr>) = ss_tasks s"
  by (simp_all add: ss_open_def ss_tasks_def)

definition serve_inv :: "nat option \<Rightarrow> serve_state \<Rightarrow> bool" where
  "serve_inv mx s \<longleftrightarrow>
     ss_live s = of_nat (ss_open s) \<and> ss_tasks s < 2 ^ 64 \<and> \<not> over_limit mx (ss_open s) \<and>
     mt_connections (ss_metrics s) = of_nat (ss_serving s) \<and>
     (ss_listening s \<longleftrightarrow> ss_phase s = Accepting) \<and> (ss_phase s \<noteq> Accepting \<longrightarrow> closing_ready s) \<and>
     (ss_phase s = Served \<longrightarrow> ss_expired s \<or> ss_tasks s = 0) \<and>
     ss_done s = (if ss_phase s = Served then 1 else 0)"

lemma serve_inv_start: "serve_inv mx serve_start"
  by (cases mx) (simp_all add: serve_inv_def ss_open_def ss_tasks_def serve_start_def metrics_new_def)

lemma open_le_tasks: "ss_open s \<le> ss_tasks s" "ss_serving s \<le> ss_open s"
  by (simp_all add: ss_tasks_def ss_open_def)

lemma serve_inv_live: "serve_inv mx s \<Longrightarrow> unat (ss_live s) = ss_open s"
  using open_le_tasks(1) [of s] by (simp add: serve_inv_def unat_of_nat take_bit_nat_eq_self)

lemma serve_inv_gauge: "serve_inv mx s \<Longrightarrow> unat (mt_connections (ss_metrics s)) = ss_serving s"
  using open_le_tasks [of s] by (simp add: serve_inv_def unat_of_nat take_bit_nat_eq_self)

lemma accept_conn_counts:
  "ss_open (accept_conn mx s) = (if over_limit mx (unat (ss_live s) + 1) then ss_open s else ss_open s + 1)"
  "ss_tasks (accept_conn mx s) = (if over_limit mx (unat (ss_live s) + 1) then ss_tasks s else ss_tasks s + 1)"
  by (simp_all add: ss_open_def ss_tasks_def accept_conn_def admit_conn_def Let_def)

lemma serve_inv_accept:
  assumes "serve_inv mx s" and "ss_phase s = Accepting" and "ss_tasks s + 1 < 2 ^ 64"
  shows "serve_inv mx (accept_conn mx s)"
  using assms serve_inv_live [OF assms(1)]
  by (auto simp: serve_inv_def accept_conn_counts)
     (auto simp: accept_conn_def admit_conn_def Let_def closing_ready_def)

lemma serve_inv_start_conn: "serve_inv mx s \<Longrightarrow> 0 < ss_spawned s \<Longrightarrow> serve_inv mx (start_conn s)"
  by (simp add: serve_inv_def add.commute)

lemma serve_inv_end_conn: "serve_inv mx s \<Longrightarrow> 0 < ss_serving s \<Longrightarrow> serve_inv mx (end_conn s)"
  by (simp add: serve_inv_def of_nat_diff Suc_leI)

lemma serve_inv_drop_live:
  assumes "serve_inv mx s" and "0 < ss_leaving s"
  shows "serve_inv mx (drop_live s)"
proof -
  have "1 \<le> ss_open s" using assms(2) by (simp add: ss_open_def)
  with assms show ?thesis by (cases mx) (auto simp: serve_inv_def of_nat_diff)
qed

lemma serve_inv_drop_drain: "serve_inv mx s \<Longrightarrow> 0 < ss_releasing s \<Longrightarrow> serve_inv mx (drop_drain s)"
  by (auto simp: serve_inv_def)

lemma serve_inv_step: "serve_step mx s s' \<Longrightarrow> serve_inv mx s \<Longrightarrow> serve_inv mx s'"
proof (induction rule: serve_step.induct)
  case (accept_step s)
  then show ?case by (intro serve_inv_accept) auto
qed (auto intro: serve_inv_start_conn serve_inv_end_conn serve_inv_drop_live serve_inv_drop_drain,
     auto simp: serve_inv_def closing_ready_def finish_drain_def CLOSING_def PRE_SHUTDOWN_def ss_open_def ss_tasks_def)

interpretation accepting: invariant "serve_step mx" "serve_inv mx" serve_start for mx
  by unfold_locales (auto intro: serve_inv_start serve_inv_step)

text \<open>A drain can always run to its end: let every task take its remaining steps.\<close>

definition task_measure :: "serve_state \<Rightarrow> nat" where
  "task_measure s = 4 * ss_spawned s + 3 * ss_serving s + 2 * ss_leaving s + ss_releasing s"

lemma task_progress:
  assumes "ss_tasks s \<noteq> 0"
  shows "\<exists>s'. serve_step mx s s' \<and> task_measure s' < task_measure s \<and> ss_phase s' = ss_phase s"
proof -
  note defs = task_measure_def conn_ops
  consider "0 < ss_spawned s" | "0 < ss_serving s" | "0 < ss_leaving s" | "0 < ss_releasing s"
    using assms by (auto simp: ss_tasks_def ss_open_def)
  then show ?thesis
  proof cases
    case 1
    then show ?thesis by (intro exI [of _ "start_conn s"] conjI start_step) (simp_all add: defs)
  next
    case 2
    then show ?thesis by (intro exI [of _ "end_conn s"] conjI end_step) (simp_all add: defs)
  next
    case 3
    then show ?thesis by (intro exI [of _ "drop_live s"] conjI live_step) (simp_all add: defs)
  next
    case 4
    then show ?thesis by (intro exI [of _ "drop_drain s"] conjI release_step) (simp_all add: defs)
  qed
qed

lemma drain_path:
  "ss_phase s = Draining \<Longrightarrow>
   \<exists>s'. (serve_step mx)\<^sup>*\<^sup>* s s' \<and> ss_phase s' = Served \<and> \<not> ss_expired s' \<and> ss_tasks s' = 0"
proof (induction "task_measure s" arbitrary: s rule: less_induct)
  case less
  show ?case
  proof (cases "ss_tasks s = 0")
    case True
    with less.prems have "serve_step mx s (finish_drain False s)" by (intro drained_step)
    moreover have "ss_phase (finish_drain False s) = Served" "\<not> ss_expired (finish_drain False s)"
      by (simp_all add: finish_drain_def)
    ultimately show ?thesis using True by (metis r_into_rtranclp task_counts(12))
  next
    case False
    from task_progress [OF this, of mx] obtain t where
      t: "serve_step mx s t" "task_measure t < task_measure s" "ss_phase t = ss_phase s" by blast
    from less.hyps [OF t(2)] t(3) less.prems accepting.chain [OF t(1)] show ?thesis by auto
  qed
qed

text \<open>The loop only moves forward, and after it left no connection is added.\<close>

lemma phase_step: "serve_step mx s s' \<Longrightarrow> ss_phase s \<le> ss_phase s'"
  by (induction rule: serve_step.induct)
     (auto simp: conn_ops finish_drain_def split: prod.splits bool.splits)

interpretation phases: stable "serve_step mx" "\<lambda>s. p \<le> ss_phase s" for mx p
  by unfold_locales (blast intro: order_trans phase_step)

lemma left_open_step:
  "serve_step mx s s' \<Longrightarrow> Draining \<le> ss_phase s \<Longrightarrow> ss_open s' \<le> ss_open s \<and> ss_tasks s' \<le> ss_tasks s"
  by (induction rule: serve_step.induct) auto

interpretation leaving: stable "serve_step mx" "\<lambda>s. Draining \<le> ss_phase s \<and> ss_open s \<le> n \<and> ss_tasks s \<le> k" for mx n k
  by unfold_locales (meson left_open_step phases.kept order_trans)

lemma closing_ready_start: "\<not> closing_ready serve_start"
  by (simp add: closing_ready_def serve_start_def RUNNING_def CLOSING_def)

lemma pre_shutdown_keeps_accepting:
  "serve_step mx s s' \<Longrightarrow> ss_phase s = Accepting \<Longrightarrow> \<not> closing_ready s \<Longrightarrow>
   ss_phase s' = Accepting \<and> (ss_listening s' = ss_listening s)"
  by (induction rule: serve_step.induct) (auto simp: conn_ops split: prod.splits bool.splits)

section \<open>Properties\<close>

text \<open>C37: What \<^verbatim>\<open>drive\<close> does with a connection, for every sequence of events. It ends exactly when
  the connection is done or the idle watchdog (if there is one) fires; \<^verbatim>\<open>graceful_shutdown\<close> is called
  at most once, exactly when an order to close (the stage \<^const>\<open>CLOSING\<close>, the loss of its sender, or
  the overload signal) comes before that; the stage \<^const>\<open>PRE_SHUTDOWN\<close> changes nothing; and the stage
  values that \<^const>\<open>wait_closing\<close> waits through leave the connection serving, the one it returns at
  does not.\<close>

theorem drive_outcome:
  "drive idle es =
     (let asked = list_ex drive_asks (takeWhile (\<lambda>e. \<not> drive_ends idle e) es)
      in (if list_ex (drive_ends idle) es then Finished_Conn else if asked then Graceful else Serving,
          if asked then 1 else 0)) \<and>
   drive idle (filter (\<lambda>e. e \<noteq> StageSeen PRE_SHUTDOWN) es) = drive idle es \<and>
   drive idle (map StageSeen (take (wait_closing (v # vs)) (v # vs))) = (Serving, 0) \<and>
   drive idle (map StageSeen (take (Suc (wait_closing (v # vs))) (v # vs)) @ [StageGone]) = (Graceful, 1)"
proof (intro conjI)
  let ?w = "wait_closing (v # vs)"
  have st: "\<not> drive_ends idle (StageSeen x)" for x by (simp add: drive_ends_def)
  have stages: "list_ex (drive_ends idle) (map StageSeen xs) = False"
    "takeWhile (\<lambda>e. \<not> drive_ends idle e) (map StageSeen xs @ ys) =
       map StageSeen xs @ takeWhile (\<lambda>e. \<not> drive_ends idle e) ys" for xs ys
    by (induction xs) (simp_all add: st)
  show "drive idle es =
     (let asked = list_ex drive_asks (takeWhile (\<lambda>e. \<not> drive_ends idle e) es)
      in (if list_ex (drive_ends idle) es then Finished_Conn else if asked then Graceful else Serving,
          if asked then 1 else 0))"
    by (simp add: drive_def drive_serving Let_def)
  have skip: "drive_step idle p (StageSeen PRE_SHUTDOWN) = p" for p
    by (cases "(idle, p, StageSeen PRE_SHUTDOWN)" rule: drive_step.cases) (auto simp: st stage_values(2) not_le)
  show "drive idle (filter (\<lambda>e. e \<noteq> StageSeen PRE_SHUTDOWN) es) = drive idle es"
    unfolding drive_def by (induction es arbitrary: rule: rev_induct) (auto simp: skip)
  have "list_ex drive_asks (map StageSeen (take ?w (v # vs))) = False"
    by (auto simp: list_ex_iff not_le [symmetric] simp del: wait_closing.simps dest!: wait_closing_prefix)
  then show "drive idle (map StageSeen (take ?w (v # vs))) = (Serving, 0)"
    using stages(1) stages(2) [of _ "[]", unfolded takeWhile.simps append_Nil2]
    by (simp only: drive_def drive_serving Let_def if_False)
  show "drive idle (map StageSeen (take (Suc ?w) (v # vs)) @ [StageGone]) = (Graceful, 1)"
    by (simp only: drive_def drive_serving stages(2) list_ex_append stages(1) Let_def)
      (simp add: drive_ends_def)
qed

text \<open>C18: With the PROXY protocol on, a connection is served only behind a valid prefix that came
  in time: its bytes start with one of the two signatures, the stream that TLS or HTTP reads is
  what follows the header, nothing lost, and the client address is the header's, or the
  peer's when the header names none.\<close>

theorem proxy_gate:
  assumes "tu_proxy_protocol t" and "sock_ok s" and "serve_conn t took s peer_ip tls es = Some c"
  shows "\<exists>hdr addr. sock_content s = hdr @ prefixed_content (sc_io c) \<and>
     (starts_with hdr SIG_V2 \<or> starts_with hdr SIG_V1) \<and>
     header_grammar (sock_content s) = Inr (prefixed_content (sc_io c), addr) \<and>
     sc_ip c = (case addr of Some a \<Rightarrow> a | None \<Rightarrow> peer_ip) \<and>
     (\<forall>d. tu_handshake_timeout t = Some d \<longrightarrow> took \<le> d)"
proof -
  obtain io ip where src: "conn_source t took s peer_ip = Some (io, ip)" and c: "sc_io c = io" "sc_ip c = ip"
    using assms(3) by (auto simp: serve_conn_def Let_def split: option.splits if_splits prod.splits bool.splits)
  from src assms(1) obtain addr where rh: "read_header s = Inr (io, addr)"
    and ip: "ip = (case addr of Some a \<Rightarrow> a | None \<Rightarrow> peer_ip)"
    and tm: "\<forall>d. tu_handshake_timeout t = Some d \<longrightarrow> took \<le> d"
    by (auto simp: conn_source_def maybe_timeout_def split: option.splits sum.splits if_splits)
  from read_header_Inr(1) [OF assms(2) rh] have "header_grammar (sock_content s) = Inr (prefixed_content io, addr)" .
  with header_grammar_consumed [OF this] ip tm c show ?thesis by blast
qed

theorem proxy_gate_witness:
  "\<exists>c. serve_conn (sample_tuning\<lparr>tu_proxy_protocol := True, tu_handshake_timeout := Some 5\<rparr>) 3 [Arrives v1_sample]
         ''10.0.0.9'' (0, True) [] = Some c \<and> sc_ip c = ''192.168.0.1''"
proof -
  let ?t = "sample_tuning\<lparr>tu_proxy_protocol := True, tu_handshake_timeout := Some 5\<rparr>"
  let ?c = "\<lparr>sc_proto = PlainH1 (build_h1 ?t), sc_ip = ''192.168.0.1'', sc_io = prefixed_new [] (str_bytes ''GET''),
             sc_phase = Serving, sc_graceful = 0\<rparr>"
  have rh: "read_header [Arrives v1_sample] = Inr (prefixed_new [] (str_bytes ''GET''), Some ''192.168.0.1'')"
    by code_simp
  have 1: "sock_ok [Arrives v1_sample]" by code_simp
  have 2: "serve_conn ?t 3 [Arrives v1_sample] ''10.0.0.9'' (0, True) [] = Some ?c"
    by (simp add: serve_conn_def conn_source_def maybe_timeout_def rh sample_tuning_def drive_def)
  have 3: "header_grammar (sock_content [Arrives v1_sample]) = Inr (str_bytes ''GET'', Some ''192.168.0.1'')" by code_simp
  from proxy_gate [OF _ 1 2] 2 3 show ?thesis by auto
qed

text \<open>C13: The connection limit and its counters hold in every state the accept loop can reach, in any
  interleaving of accepts, refusals, starting and ending connection tasks and shutdown signals: the live counter is
  the number of admitted connections, which never passes the limit; the connections gauge is the number of
  those being served; the listener is open exactly until the loop has seen the order to close; \<^verbatim>\<open>done\<close> is notified exactly once,
  and only when every connection task has ended or the deadline expired; when they all have, both counters are zero.\<close>

theorem accept_loop_invariant:
  assumes "(serve_step mx)\<^sup>*\<^sup>* serve_start s"
  shows "unat (ss_live s) = ss_open s \<and> (\<forall>m. mx = Some m \<longrightarrow> ss_open s \<le> m) \<and>
    unat (mt_connections (ss_metrics s)) = ss_serving s \<and> ss_serving s \<le> ss_open s \<and>
    (ss_listening s \<longleftrightarrow> ss_phase s = Accepting) \<and> (\<not> closing_ready s \<longrightarrow> ss_listening s) \<and>
    ss_done s = (if ss_phase s = Served then 1 else 0) \<and>
    (ss_phase s = Served \<longrightarrow> ss_tasks s = 0 \<or> ss_expired s) \<and>
    (ss_tasks s = 0 \<longrightarrow> ss_live s = 0 \<and> mt_connections (ss_metrics s) = 0)"
proof -
  have inv: "serve_inv mx s" by (rule accepting.always [OF assms])
  then show ?thesis
    using serve_inv_live [OF inv] serve_inv_gauge [OF inv] open_le_tasks [of s] by (auto simp: serve_inv_def)
qed

text \<open>Two clients, one place, and a shutdown that waits for the admitted one.\<close>

definition sample_serve_run :: serve_state where
  "sample_serve_run =
     finish_drain False (drop_drain (drop_live (end_conn (start_conn ((accept_conn (Some 1) (accept_conn (Some 1) serve_start))
       \<lparr>ss_stage := CLOSING, ss_phase := Draining, ss_listening := False\<rparr>)))))"

lemma sample_serve_reach: "(serve_step (Some 1))\<^sup>*\<^sup>* serve_start sample_serve_run"
proof -
  let ?a = "accept_conn (Some 1) serve_start"
  let ?b = "accept_conn (Some 1) ?a"
  let ?c = "?b\<lparr>ss_stage := CLOSING\<rparr>"
  let ?d = "?c\<lparr>ss_phase := Draining, ss_listening := False\<rparr>"
  let ?e = "drop_drain (drop_live (end_conn (start_conn ?d)))"
  note defs = serve_start_def conn_ops admit_conn_def Let_def ss_open_def ss_tasks_def
  have 1: "serve_step (Some 1) serve_start ?a" by (rule accept_step) (simp_all add: defs)
  have 2: "serve_step (Some 1) ?a ?b" by (rule accept_step) (simp_all add: defs)
  have 3: "serve_step (Some 1) ?b ?c" by (rule stage_step) (simp_all add: defs RUNNING_def)
  have 4: "serve_step (Some 1) ?c ?d" by (rule leave_step) (simp_all add: defs closing_ready_def)
  have 5: "serve_step (Some 1) ?d (start_conn ?d)" by (rule start_step) (simp add: defs)
  have 6: "serve_step (Some 1) (start_conn ?d) (end_conn (start_conn ?d))" by (rule end_step) (simp add: defs)
  have 7: "serve_step (Some 1) (end_conn (start_conn ?d)) (drop_live (end_conn (start_conn ?d)))"
    by (rule live_step) (simp add: defs)
  have 8: "serve_step (Some 1) (drop_live (end_conn (start_conn ?d))) ?e" by (rule release_step) (simp add: defs)
  have 9: "serve_step (Some 1) ?e (finish_drain False ?e)" by (rule drained_step) (simp_all add: defs)
  have "(serve_step (Some 1))\<^sup>*\<^sup>* serve_start (finish_drain False ?e)"
    by (intro accepting.chain [OF 1] accepting.chain [OF 2] accepting.chain [OF 3] accepting.chain [OF 4] accepting.chain [OF 5]
        accepting.chain [OF 6] accepting.chain [OF 7] accepting.chain [OF 8] accepting.chain [OF 9] rtranclp.rtrancl_refl)
  then show ?thesis by (simp add: sample_serve_run_def)
qed

theorem accept_loop_invariant_witness:
  "ss_phase sample_serve_run = Served \<and> unat (ss_live sample_serve_run) = ss_open sample_serve_run \<and>
   ss_done sample_serve_run = 1"
  using accept_loop_invariant [OF sample_serve_reach]
  by (simp add: sample_serve_run_def finish_drain_def)

text \<open>C14: The shutdown stages do what the balancer needs. As long as neither \<^const>\<open>CLOSING\<close> was sent
  nor the sender is gone, as in the \<^const>\<open>PRE_SHUTDOWN\<close> window, no step closes the listener; the loop only
  moves forward, and once it left, no connection is ever added; and from every reachable state in which the order to close
  can be seen there is a run that drains every connection and ends without the deadline.\<close>

theorem shutdown_stages:
  assumes "(serve_step mx)\<^sup>*\<^sup>* serve_start s"
  shows "(\<forall>s'. \<not> closing_ready s \<and> serve_step mx s s' \<longrightarrow> ss_listening s') \<and>
    (\<forall>s'. (serve_step mx)\<^sup>*\<^sup>* s s' \<longrightarrow> ss_phase s \<le> ss_phase s') \<and>
    (\<forall>s'. ss_phase s \<noteq> Accepting \<and> (serve_step mx)\<^sup>*\<^sup>* s s' \<longrightarrow> ss_open s' \<le> ss_open s \<and> ss_tasks s' \<le> ss_tasks s \<and> \<not> ss_listening s') \<and>
    (closing_ready s \<and> ss_phase s \<noteq> Served \<longrightarrow>
      (\<exists>t. (serve_step mx)\<^sup>*\<^sup>* s t \<and> ss_phase t = Served \<and> \<not> ss_expired t \<and> ss_tasks t = 0))"
proof -
  have inv: "serve_inv mx s" by (rule accepting.always [OF assms])
  have "ss_listening s'" if "\<not> closing_ready s" "serve_step mx s s'" for s'
    using inv that pre_shutdown_keeps_accepting [OF that(2)] by (auto simp: serve_inv_def)
  moreover have "ss_phase s \<le> ss_phase s'" if "(serve_step mx)\<^sup>*\<^sup>* s s'" for s'
    using phases.along [OF that order_refl] .
  moreover have "ss_open s' \<le> ss_open s \<and> ss_tasks s' \<le> ss_tasks s \<and> \<not> ss_listening s'"
    if "ss_phase s \<noteq> Accepting" "(serve_step mx)\<^sup>*\<^sup>* s s'" for s'
  proof -
    have "serve_inv mx s'" using accepting.ever_after [OF assms that(2)] .
    with leaving.along [OF that(2), of "ss_open s" "ss_tasks s"] that(1) show ?thesis by (simp add: serve_inv_def)
  qed
  moreover have "\<exists>t. (serve_step mx)\<^sup>*\<^sup>* s t \<and> ss_phase t = Served \<and> \<not> ss_expired t \<and> ss_tasks t = 0"
    if c: "closing_ready s" and ns: "ss_phase s \<noteq> Served"
  proof (cases "ss_phase s")
    case Accepting
    let ?d = "s\<lparr>ss_phase := Draining, ss_listening := False\<rparr>"
    have "serve_step mx s ?d" using Accepting c by (rule leave_step)
    then have "(serve_step mx)\<^sup>*\<^sup>* s t" if "(serve_step mx)\<^sup>*\<^sup>* ?d t" for t using that by (rule accepting.chain)
    moreover from drain_path [of ?d mx]
    obtain t where "(serve_step mx)\<^sup>*\<^sup>* ?d t" "ss_phase t = Served" "\<not> ss_expired t" "ss_tasks t = 0" by auto
    ultimately show ?thesis by blast
  qed (use drain_path ns in auto)
  ultimately show ?thesis by blast
qed

theorem shutdown_stages_witness:
  "ss_listening (serve_start\<lparr>ss_stage := PRE_SHUTDOWN\<rparr>) \<and>
   (\<exists>t. (serve_step None)\<^sup>*\<^sup>* (serve_start\<lparr>ss_stage := CLOSING\<rparr>) t \<and> ss_phase t = Served \<and> ss_tasks t = 0)"
proof
  have "serve_step None serve_start (serve_start\<lparr>ss_stage := PRE_SHUTDOWN\<rparr>)"
    by (rule stage_step) (simp_all add: serve_start_def RUNNING_def)
  then show "ss_listening (serve_start\<lparr>ss_stage := PRE_SHUTDOWN\<rparr>)"
    using shutdown_stages [OF rtranclp.rtrancl_refl, of None] closing_ready_start by blast
  have 1: "serve_step None serve_start (serve_start\<lparr>ss_stage := CLOSING\<rparr>)"
    by (rule stage_step) (simp_all add: serve_start_def RUNNING_def)
  have 2: "closing_ready (serve_start\<lparr>ss_stage := CLOSING\<rparr>)" "ss_phase (serve_start\<lparr>ss_stage := CLOSING\<rparr>) \<noteq> Served"
    by (simp_all add: closing_ready_def serve_start_def)
  from shutdown_stages [OF accepting.chain [OF 1 rtranclp.rtrancl_refl]] 2
  show "\<exists>t. (serve_step None)\<^sup>*\<^sup>* (serve_start\<lparr>ss_stage := CLOSING\<rparr>) t \<and> ss_phase t = Served \<and> ss_tasks t = 0" by blast
qed

text \<open>C15: Closing is idempotent and does not cut off the responses of the drain. Once \<^verbatim>\<open>close\<close> has begun
  and until it ends, after any sequence of calls of \<^verbatim>\<open>take_batch\<close>, \<^verbatim>\<open>take_body\<close>, \<^verbatim>\<open>respond\<close>, \<^verbatim>\<open>purge_cache\<close>,
  \<^verbatim>\<open>set_ready\<close>, \<^verbatim>\<open>close\<close> and \<^verbatim>\<open>listen\<close> in which no \<^verbatim>\<open>listen\<close> succeeds: another \<^verbatim>\<open>close\<close> does nothing, the
  readiness probe says \<^verbatim>\<open>draining\<close> whatever \<^verbatim>\<open>set_ready\<close> was told, and \<^verbatim>\<open>respond\<close> and \<^verbatim>\<open>take_batch\<close> still work on
  the bridge of the server being closed. After the end they do nothing. A \<^verbatim>\<open>listen\<close> that succeeds in between
  is excluded here: the slot then belongs to the new server (the theorem on listening again during a drain).\<close>

theorem close_keeps_bridge:
  assumes "sv_inv sv" and "sv_state sv = Some r" and "close_begin sv = (Some r', sv1)"
    and "never_listens L (sv1, fs) calls" and "foldl (sv_call L) (sv1, fs) calls = (sv2, fs2)"
  shows "close_begin sv2 = (None, sv2) \<and>
    reason (sh_readiness (sv_heap sv2 (rn_shared r))) = ''draining'' \<and>
    sh_bridge (sv_heap (sv_respond rid res sv2) (rn_shared r)) =
      respond rid res (sh_bridge (sv_heap sv2 (rn_shared r))) \<and>
    fst (sv_take_batch sv2) = fst (take_batch (sh_bridge (sv_heap sv2 (rn_shared r)))) \<and>
    sv_respond rid res (close_end sv2) = close_end sv2 \<and> fst (sv_take_batch (close_end sv2)) = []"
proof (intro conjI)
  have "draining_at (rn_shared r) sv1"
    using assms(1-3) by (auto simp: close_begin_def draining_at_def sv_inv_def)
  then have d: "draining_at (rn_shared r) sv2" using draining_calls [of _ "(sv1, fs)", OF _ assms(4)] assms(5) by simp
  then show "close_begin sv2 = (None, sv2)" by (simp add: draining_at_def close_begin_def)
  show "reason (sh_readiness (sv_heap sv2 (rn_shared r))) = ''draining''"
    using d by (simp add: draining_at_def reason_def)
  show "sh_bridge (sv_heap (sv_respond rid res sv2) (rn_shared r)) =
           respond rid res (sh_bridge (sv_heap sv2 (rn_shared r)))"
    and "fst (sv_take_batch sv2) = fst (take_batch (sh_bridge (sv_heap sv2 (rn_shared r))))"
    using d by (simp_all add: draining_at_def sv_respond_def sv_take_batch_def split: prod.splits)
  show "sv_respond rid res (close_end sv2) = close_end sv2" "fst (sv_take_batch (close_end sv2)) = []"
    by (simp_all add: close_end_def sv_respond_def sv_take_batch_def)
qed

lemma sample_prepared:
  "\<exists>p sh d pre. prepare sample_libs None [sample_js_route] sample_options = Inr p \<and>
     assemble sample_libs False sample_options p = Inr (sh, d, pre) \<and> tu_admin_port (pr_tuning p) = None"
proof -
  from sample_server obtain sh d pre where "build_server sample_libs [sample_js_route] False sample_options = Inr (sh, d, pre)"
    and a: "tu_admin_port (sh_tuning sh) = None" by blast
  then obtain p where "prepare sample_libs None [sample_js_route] sample_options = Inr p"
    "assemble sample_libs False sample_options p = Inr (sh, d, pre)" by (auto simp: build_server_def and_then_Inr)
  moreover from this(2) a have "tu_admin_port (pr_tuning p) = None" by (auto simp: assemble_def and_then_Inr shared_of_def)
  ultimately show ?thesis by blast
qed

text \<open>A system where every call succeeds.\<close>

definition sample_os :: host_os where
  "sample_os =
     \<lparr>os_doorbell = None, os_literal = (\<lambda>a. Some (a, False)), os_resolve = (\<lambda>_. Inr []), os_main = (\<lambda>_. None),
      os_admin = (\<lambda>_. None), os_unix = \<lparr>uf_meta = None, uf_remove = None, uf_bind = None, uf_nonblocking = None\<rparr>,
      os_runtime = None, os_parse_f64 = micros, os_parallelism = Some 4, os_cgroup = (None, None, None),
      os_register = True, os_register_admin = True\<rparr>"

lemma sample_listens:
  assumes "sv_state sv = None"
  shows "\<exists>r sv'. listen sample_libs sample_os addr 80 ''h'' [sample_js_route] False sample_options sv fs = (fs, Inr sv') \<and>
     sv_inv sv' \<and> sv_state sv' = Some r \<and> rn_shared r = addr"
proof -
  from sample_prepared obtain p sh d pre where p: "prepare sample_libs None [sample_js_route] sample_options = Inr p"
    "assemble sample_libs False sample_options p = Inr (sh, d, pre)" "tu_admin_port (pr_tuning p) = None" by blast
  have "snd (run_calls (\<lambda>_. None) cs) = Inr ()" for cs by (simp add: run_calls_ok)
  then have "\<exists>calls. bind_main sample_os ''h'' 80 sample_options (pr_tuning p) fs = (fs, Inr (TcpTarget calls))"
    by (auto simp: bind_main_def sample_options_def sample_os_def bind_tcp_def Let_def split: prod.splits sum.splits)
  then show ?thesis
    using assms p by (auto simp: listen_def start_server_def bind_admin_def sv_inv_def sample_os_def)
qed

theorem close_keeps_bridge_witness:
  "\<exists>sv sv2 fs. listen sample_libs sample_os 3 80 ''h'' [sample_js_route] False sample_options
        (server_new (\<lambda>_. sample_shared)) Map.empty = (fs, Inr sv) \<and>
     sv2 = fst (foldl (sv_call sample_libs) (snd (close_begin sv), Map.empty)
       [CallSetReady True, CallClose, CallListen (sample_os\<lparr>os_doorbell := Some ''closed''\<rparr>) 4 80 ''h'' [] False sample_options]) \<and>
     reason (sh_readiness (sv_heap sv2 3)) = ''draining''"
proof -
  from sample_listens [of "server_new (\<lambda>_. sample_shared)" 3 Map.empty] obtain r sv
    where l: "listen sample_libs sample_os 3 80 ''h'' [sample_js_route] False sample_options
      (server_new (\<lambda>_. sample_shared)) Map.empty = (Map.empty, Inr sv)"
    and sv: "sv_inv sv" "sv_state sv = Some r" "rn_shared r = 3" by (auto simp: server_new_def)
  obtain r' where b: "close_begin sv = (Some r', snd (close_begin sv))" using sv by (simp add: close_begin_def)
  let ?sv1 = "snd (close_begin sv)"
  let ?os = "sample_os\<lparr>os_doorbell := Some ''closed''\<rparr>"
  let ?calls = "[CallSetReady True, CallClose, CallListen ?os 4 80 ''h'' [] False sample_options]"
  have n: "sv_state ?sv1 = None" using sv(2) by (simp add: close_begin_def)
  have refused: "\<exists>e. prepare sample_libs (os_doorbell ?os) [] sample_options = Inl e"
    by (auto simp: prepare_def and_then_def split: sum.splits)
  have quiet: "never_listens sample_libs (?sv1, Map.empty) ?calls"
    using n refused by (auto simp: sv_set_ready_def close_begin_def listen_def)
  obtain sv2 fs2 where run: "foldl (sv_call sample_libs) (?sv1, Map.empty) ?calls = (sv2, fs2)"
    by (cases "foldl (sv_call sample_libs) (?sv1, Map.empty) ?calls")
  have "reason (sh_readiness (sv_heap sv2 3)) = ''draining''"
    using close_keeps_bridge [OF sv(1,2) b quiet run] sv(3) by simp
  moreover have "sv2 = fst (foldl (sv_call sample_libs) (?sv1, Map.empty) ?calls)" unfolding run by simp
  ultimately show ?thesis using l by blast
qed

text \<open>C40: \<^verbatim>\<open>close\<close> forgets which server it closes. \<^verbatim>\<open>listen\<close> is allowed again as soon as \<^verbatim>\<open>close\<close> has begun; when
  the drain of the first server then ends, \<^verbatim>\<open>close\<close> clears the slot of the new one: a server that
  listens, refuses another \<^verbatim>\<open>listen\<close>, and whose requests JavaScript can neither take nor answer.\<close>

theorem relisten_during_drain_is_cut_off:
  assumes "close_begin sv = (Some r, sv1)"
    and "listen L os addr port host routes nf opts sv1 fs = (fs', Inr sv2)"
  shows "sv_state (close_end sv2) \<noteq> None \<and>
    fst (sv_take_batch (close_end sv2)) = [] \<and> fst (sv_take_body rid (close_end sv2)) = None \<and>
    sv_respond rid res (close_end sv2) = close_end sv2 \<and>
    (\<exists>msg. listen L os addr' port host routes nf opts (close_end sv2) fs' = (fs', Inl msg))"
proof -
  from listen_Inr [OF assms(2)] obtain rn where "sv_state sv2 = Some rn" by blast
  then show ?thesis
    by (simp add: listen_def close_end_def sv_take_batch_def sv_take_body_def sv_respond_def)
qed

theorem relisten_during_drain_is_cut_off_witness:
  "\<exists>sv r sv1 sv2 fs. close_begin sv = (Some r, sv1) \<and>
     listen sample_libs sample_os 4 80 ''h'' [sample_js_route] False sample_options sv1 Map.empty = (fs, Inr sv2) \<and>
     sv_state (close_end sv2) \<noteq> None"
proof -
  from sample_listens [of "server_new (\<lambda>_. sample_shared)" 3 Map.empty] obtain r
    and sv :: "((string \<times> int) list, unit, nat) rust_server"
    where sv: "sv_state sv = Some r" by (auto simp: server_new_def)
  obtain r' sv1 where b: "close_begin sv = (Some r', sv1)" and n: "sv_state sv1 = None"
    using sv by (simp add: close_begin_def)
  from sample_listens [OF n] obtain sv2
    where l: "listen sample_libs sample_os 4 80 ''h'' [sample_js_route] False sample_options sv1 Map.empty = (Map.empty, Inr sv2)" by blast
  from relisten_during_drain_is_cut_off [OF b l] b l show ?thesis by blast
qed



end
