(* ===== verification/Admin.thy ===== *)
theory Admin
  imports Lifecycle
begin

text \<open>
  The admin port of \<^verbatim>\<open>src/server.rs\<close>: the accept loop of \<^verbatim>\<open>serve_admin\<close> and its connections. Unlike
  \<^verbatim>\<open>serve\<close> the loop does not wait for its connections, does not count them in the gauge and has no
  overload signal. It refines the accept loop of the main port, and so inherits its invariant.
\<close>

section \<open>The accept loop\<close>

record admin_state =
  as_accepting :: bool
  as_stage :: nat
  as_gone :: bool
  as_live :: u64
  as_open :: nat

definition admin_start :: admin_state where
  "admin_start = \<lparr>as_accepting = True, as_stage = RUNNING, as_gone = False, as_live = 0, as_open = 0\<rparr>"

text \<open>The task that \<^verbatim>\<open>listen\<close> spawns for a bound admin socket; one that does not register is dropped.\<close>

definition admin_task :: "host_os \<Rightarrow> sys_call list option \<Rightarrow> admin_state option" where
  "admin_task os target =
     (case target of None \<Rightarrow> None | Some _ \<Rightarrow> if os_register_admin os then Some admin_start else None)"

definition admin_accept :: "nat option \<Rightarrow> admin_state \<Rightarrow> admin_state" where
  "admin_accept mx s =
     (case admit_conn mx (as_live s) of
        (True, live') \<Rightarrow> s\<lparr>as_live := live', as_open := as_open s + 1\<rparr>
      | (False, live') \<Rightarrow> s\<lparr>as_live := live'\<rparr>)"

definition admin_end :: "admin_state \<Rightarrow> admin_state" where
  "admin_end s = s\<lparr>as_live := live_drop (as_live s), as_open := as_open s - 1\<rparr>"

definition admin_closing :: "admin_state \<Rightarrow> bool" where
  "admin_closing s = (as_stage s \<ge> CLOSING \<or> as_gone s)"

text \<open>The loop beside its connection tasks and the sender of the stage; \<open>admin_left\<close> is the \<^verbatim>\<open>break\<close>,
  which drops the listener.\<close>

inductive admin_step :: "nat option \<Rightarrow> admin_state \<Rightarrow> admin_state \<Rightarrow> bool" for mx where
  admin_accepts: "as_accepting s \<Longrightarrow> as_open s + 1 < 2 ^ 64 \<Longrightarrow> admin_step mx s (admin_accept mx s)"
| admin_error: "as_accepting s \<Longrightarrow> admin_step mx s s"
| admin_stage: "as_stage s \<le> v \<Longrightarrow> v \<in> {PRE_SHUTDOWN, CLOSING} \<Longrightarrow> admin_step mx s (s\<lparr>as_stage := v\<rparr>)"
| admin_gone: "admin_step mx s (s\<lparr>as_gone := True\<rparr>)"
| admin_left: "as_accepting s \<Longrightarrow> admin_closing s \<Longrightarrow> admin_step mx s (s\<lparr>as_accepting := False\<rparr>)"
| admin_ends: "0 < as_open s \<Longrightarrow> admin_step mx s (admin_end s)"

section \<open>A connection\<close>

text \<open>Each connection has the settings of \<^verbatim>\<open>build_h1\<close> and the watchdog of the main port. Its overload
  signal is a fresh \<^verbatim>\<open>Notify\<close> nobody holds, so \<^const>\<open>ShedNotified\<close> never wins.\<close>

definition admin_conn :: "tuning \<Rightarrow> drive_event list \<Rightarrow> h1_builder \<times> drive_phase \<times> nat" where
  "admin_conn t es = (build_h1 t, drive (tu_idle_timeout t) (filter (\<lambda>e. e \<noteq> ShedNotified) es))"

section \<open>Lemmas\<close>

text \<open>The part of a state of the main loop that the admin loop has too.\<close>

definition admin_of :: "serve_state \<Rightarrow> admin_state" where
  "admin_of s =
     \<lparr>as_accepting = (ss_phase s = Accepting), as_stage = ss_stage s, as_gone = ss_gone s,
      as_live = ss_live s, as_open = ss_open s\<rparr>"

lemma admin_of_simps [simp]:
  "as_accepting (admin_of s) \<longleftrightarrow> ss_phase s = Accepting" "as_stage (admin_of s) = ss_stage s"
  "as_gone (admin_of s) = ss_gone s" "as_live (admin_of s) = ss_live s" "as_open (admin_of s) = ss_open s"
  by (simp_all add: admin_of_def)

lemma admin_closing_of [simp]: "admin_closing (admin_of s) = closing_ready s"
  by (simp add: admin_closing_def closing_ready_def)

lemma admin_of_operations:
  "admin_of serve_start = admin_start"
  "admin_of (accept_conn mx s) = admin_accept mx (admin_of s)"
  "0 < ss_spawned s \<Longrightarrow> admin_of (drop_drain (drop_live (end_conn (start_conn s)))) = admin_end (admin_of s)"
  by (simp_all add: admin_of_def admin_start_def admin_accept_def admin_end_def conn_ops ss_open_def serve_start_def
      split: prod.splits bool.splits)

lemma admin_of_updates:
  "admin_of (s\<lparr>ss_stage := v\<rparr>) = (admin_of s)\<lparr>as_stage := v\<rparr>"
  "admin_of (s\<lparr>ss_gone := True\<rparr>) = (admin_of s)\<lparr>as_gone := True\<rparr>"
  "admin_of (s\<lparr>ss_phase := Draining, ss_listening := False\<rparr>) = (admin_of s)\<lparr>as_accepting := False\<rparr>"
  by (simp_all add: admin_of_def ss_open_def)

text \<open>A connection task of the admin port is seen as one that the main loop has spawned; its end as the four steps of
  such a task. Then every step of the admin loop is a run of the main loop.\<close>

definition seen_as :: "admin_state \<Rightarrow> serve_state \<Rightarrow> bool" where
  "seen_as a s \<longleftrightarrow> admin_of s = a \<and> ss_serving s = 0 \<and> ss_leaving s = 0 \<and> ss_releasing s = 0"

lemma seen_as_counts: "seen_as a s \<Longrightarrow> ss_tasks s = as_open a \<and> ss_spawned s = as_open a"
  by (auto simp: seen_as_def admin_of_def ss_tasks_def ss_open_def)

lemma task_run:
  assumes "0 < ss_spawned s"
  shows "(serve_step mx)\<^sup>*\<^sup>* s (drop_drain (drop_live (end_conn (start_conn s))))"
proof -
  have 1: "serve_step mx s (start_conn s)" using assms by (rule start_step)
  have 2: "serve_step mx (start_conn s) (end_conn (start_conn s))" by (rule end_step) simp
  have 3: "serve_step mx (end_conn (start_conn s)) (drop_live (end_conn (start_conn s)))"
    by (rule live_step) (simp add: end_conn_def)
  have 4: "serve_step mx (drop_live (end_conn (start_conn s))) (drop_drain (drop_live (end_conn (start_conn s))))"
    by (rule release_step) (simp add: drop_live_def)
  show ?thesis by (rule accepting.chain [OF 1 accepting.chain [OF 2 accepting.chain [OF 3 r_into_rtranclp [of "serve_step mx", OF 4]]]])
qed

lemma accept_frames [simp]:
  "ss_serving (accept_conn mx s) = ss_serving s" "ss_leaving (accept_conn mx s) = ss_leaving s"
  "ss_releasing (accept_conn mx s) = ss_releasing s"
  by (simp_all add: accept_conn_def split: prod.splits bool.splits)

lemma admin_simulated:
  assumes "admin_step mx a a'" and "seen_as a s"
  shows "\<exists>s'. (serve_step mx)\<^sup>*\<^sup>* s s' \<and> seen_as a' s'"
proof -
  have one: ?thesis if "serve_step mx s s'" "seen_as a' s'" for s' using that by blast
  note seen = assms(2) [unfolded seen_as_def]
  from assms(1) show ?thesis
  proof (cases rule: admin_step.cases)
    case admin_accepts
    then show ?thesis using seen seen_as_counts [OF assms(2)]
      by (intro one [OF accept_step]) (auto simp: seen_as_def admin_of_operations)
  next
    case admin_error
    then show ?thesis using assms(2) by blast
  next
    case (admin_stage v)
    then show ?thesis using seen by (intro one [OF stage_step [of s v]]) (auto simp: seen_as_def admin_of_updates)
  next
    case admin_gone
    then show ?thesis using seen by (intro one [OF gone_step]) (auto simp: seen_as_def admin_of_updates)
  next
    case admin_left
    then show ?thesis using seen by (intro one [OF leave_step]) (auto simp: seen_as_def admin_of_updates)
  next
    case admin_ends
    then have "0 < ss_spawned s" using seen_as_counts [OF assms(2)] by simp
    from admin_of_operations(3) [OF this] admin_ends seen
    have "seen_as a' (drop_drain (drop_live (end_conn (start_conn s))))"
      by (simp add: seen_as_def) (simp add: conn_ops)
    with task_run [OF \<open>0 < ss_spawned s\<close>] show ?thesis by blast
  qed
qed

interpretation admin_loop: simulation_of_invariant "admin_step mx" admin_start "serve_step mx" serve_start
  seen_as "serve_inv mx" for mx
proof unfold_locales
  show "seen_as admin_start serve_start"
    unfolding seen_as_def admin_of_operations(1) by (simp add: serve_start_def)
qed (rule admin_simulated)

lemma drive_asks_iff: "drive_asks e \<longleftrightarrow> (\<exists>v \<ge> CLOSING. e = StageSeen v) \<or> e = StageGone \<or> e = ShedNotified"
  by (cases e) auto

section \<open>Properties\<close>

text \<open>C36: The admin port is hardened like the main port: every state its accept loop can reach is the
  view of a reachable state of \<^verbatim>\<open>serve\<close>, so its live counter equals its open connections, which
  never pass the connection limit, and it accepts until the order to close is visible; each
  connection has the HTTP/1 settings and the idle watchdog of the main port, and asks for a graceful
  end exactly when the shutdown does.\<close>

theorem admin_port_refines_serve:
  assumes "admin_task os target = Some a0" and "(admin_step mx)\<^sup>*\<^sup>* a0 a"
  shows "target \<noteq> None \<and> (\<exists>s. (serve_step mx)\<^sup>*\<^sup>* serve_start s \<and> admin_of s = a) \<and>
    unat (as_live a) = as_open a \<and> (\<forall>m. mx = Some m \<longrightarrow> as_open a \<le> m) \<and>
    (\<not> admin_closing a \<longrightarrow> as_accepting a) \<and>
    (\<forall>es. ShedNotified \<notin> set es \<longrightarrow> admin_conn t es = (build_h1 t, drive (tu_idle_timeout t) es)) \<and>
    (\<forall>es. snd (snd (admin_conn t es)) = 1 \<longrightarrow> (\<exists>e \<in> set es. e = StageGone \<or> (\<exists>v \<ge> CLOSING. e = StageSeen v)))"
proof (intro conjI allI impI)
  show "target \<noteq> None" using assms(1) by (auto simp: admin_task_def split: option.splits)
  have "a0 = admin_start" using assms(1) by (auto simp: admin_task_def split: option.splits if_splits)
  note reach = assms(2) [unfolded this]
  from admin_loop.follows_reachable [OF reach] show "\<exists>s. (serve_step mx)\<^sup>*\<^sup>* serve_start s \<and> admin_of s = a"
    by (auto simp: seen_as_def)
  from admin_loop.conc.always [OF reach] obtain s where s: "serve_inv mx s" and a: "a = admin_of s"
    by (auto simp: seen_as_def)
  show "unat (as_live a) = as_open a"
    using s by (simp add: a serve_inv_live)
  show "as_accepting a" if "\<not> admin_closing a" using s that by (auto simp: a serve_inv_def)
  show "as_open a \<le> m" if "mx = Some m" for m using s that by (simp add: a serve_inv_def)
  show "admin_conn t es = (build_h1 t, drive (tu_idle_timeout t) es)" if "ShedNotified \<notin> set es" for es
    using that by (auto simp: admin_conn_def intro!: arg_cong [where f = "drive _"] filter_True)
  show "\<exists>e \<in> set es. e = StageGone \<or> (\<exists>v \<ge> CLOSING. e = StageSeen v)" if "snd (snd (admin_conn t es)) = 1" for es
    using that by (auto simp: admin_conn_def drive_def drive_serving Let_def list_ex_iff drive_asks_iff
        dest!: set_takeWhileD split: if_splits)
qed

text \<open>Two clients of the admin port, one place, and a shutdown.\<close>

theorem admin_port_refines_serve_witness:
  "let a = admin_accept (Some 1) (admin_accept (Some 1) admin_start)
   in as_open a = 1 \<and> unat (as_live a) = 1 \<and> as_accepting a \<and>
      snd (admin_conn sample_tuning [ShedNotified, StageSeen CLOSING, ConnDone]) = (Finished_Conn, 1)"
proof -
  let ?a = "admin_accept (Some 1) admin_start"
  note defs = admin_start_def admin_accept_def admit_conn_def Let_def
  have 1: "admin_step (Some 1) admin_start ?a" by (rule admin_accepts) (simp_all add: defs)
  have 2: "admin_step (Some 1) ?a (admin_accept (Some 1) ?a)" by (rule admin_accepts) (simp_all add: defs)
  have o1: "as_open (admin_accept (Some 1) ?a) = 1" and nc: "\<not> admin_closing (admin_accept (Some 1) ?a)"
    by (simp_all add: defs admin_closing_def RUNNING_def CLOSING_def)
  have c: "snd (admin_conn sample_tuning [ShedNotified, StageSeen CLOSING, ConnDone]) = (Finished_Conn, 1)"
    by (simp add: admin_conn_def drive_def drive_ends_def)
  have t: "admin_task sample_os (Some []) = Some admin_start" by (simp add: admin_task_def sample_os_def)
  from admin_port_refines_serve [OF t admin_loop.conc.chain [OF 1 admin_loop.conc.chain [OF 2 rtranclp.rtrancl_refl]]] o1 nc c
  show ?thesis by (simp add: Let_def)
qed

end
