(* ===== verification/Inject.thy ===== *)
theory Inject
  imports Lifecycle
begin

text \<open>
  \<^verbatim>\<open>RustServer::inject\<close> of \<^verbatim>\<open>src/lib.rs\<close> and \<^verbatim>\<open>inject\<close> of \<^verbatim>\<open>src/server.rs\<close>: a request that runs through
  the whole pipeline without a socket.

  The HTTP/1 client and server of hyper at the two ends of the in-memory pipe are the record
  \<open>inject_ops\<close>: what becomes of a request sent (an error, an answer of hyper itself such as 431, or its
  arrival at the service), and what the client receives of the response. What is documented of them, within
  the limits hyper has by default, is \<open>inject_laws\<close>.
\<close>

section \<open>Definitions\<close>

datatype sent = SendError string | Answered nat "kv_pair list" string | Delivered http_request

record inject_ops =
  ij_method :: "string \<Rightarrow> string option"
  ij_uri :: "string \<Rightarrow> string + string \<times> string option"
  ij_bad_name :: string
  ij_bad_value :: string
  ij_handshake :: "string option"
  ij_send :: "http_request \<Rightarrow> sent"
  ij_head :: "http_request \<Rightarrow> response \<Rightarrow> string + nat \<times> kv_pair list"
  ij_body :: "http_request \<Rightarrow> response \<Rightarrow> string + string"

record inject_response =
  ir_status :: nat
  ir_headers :: "kv_pair list"
  ir_body :: string

subsection \<open>The request builder\<close>

text \<open>The builder of the crate \<^verbatim>\<open>http\<close> keeps its first error; \<^const>\<open>None\<close> of \<^const>\<open>ij_method\<close> is a legal method.\<close>

type_synonym request_builder = "string + string \<times> (string \<times> string option) \<times> kv_pair list"

definition rb_start :: "inject_ops \<Rightarrow> string \<Rightarrow> string \<Rightarrow> request_builder" where
  "rb_start J meth path =
     (case ij_method J meth of
        Some e \<Rightarrow> Inl e
      | None \<Rightarrow> (case ij_uri J path of Inl e \<Rightarrow> Inl e | Inr u \<Rightarrow> Inr (meth, u, [])))"

definition rb_header :: "http_ops \<Rightarrow> inject_ops \<Rightarrow> string \<Rightarrow> string \<Rightarrow> request_builder \<Rightarrow> request_builder" where
  "rb_header H J k v b =
     (case b of
        Inl e \<Rightarrow> Inl e
      | Inr (m, u, hs) \<Rightarrow>
          (case ho_name H k of
             None \<Rightarrow> Inl (ij_bad_name J)
           | Some k' \<Rightarrow> if ho_value H v then Inr (m, u, hs @ [kv k' v]) else Inl (ij_bad_value J)))"

text \<open>The loop over the headers, with \<open>has_host\<close>.\<close>

fun add_headers ::
  "http_ops \<Rightarrow> inject_ops \<Rightarrow> kv_pair list \<Rightarrow> bool \<Rightarrow> request_builder \<Rightarrow> bool \<times> request_builder" where
  "add_headers H J [] has_host b = (has_host, b)"
| "add_headers H J (p # ps) has_host b =
     add_headers H J ps (has_host \<or> to_lowercase (kv_key p) = ''host'') (rb_header H J (kv_key p) (kv_value p) b)"

definition inject_request ::
  "http_ops \<Rightarrow> inject_ops \<Rightarrow> string \<Rightarrow> string \<Rightarrow> kv_pair list \<Rightarrow> bytes option \<Rightarrow> string + http_request" where
  "inject_request H J meth path headers body =
     (let body_bytes = (case body of None \<Rightarrow> [] | Some b \<Rightarrow> b)
      in case add_headers H J headers False (rb_start J meth path) of
           (has_host, b) \<Rightarrow>
             (case (if has_host then b else rb_header H J ''host'' ''inject.local'' b) of
                Inl e \<Rightarrow> Inl (''inject: malformed request: '' @ e)
              | Inr (m, (p, q), hs) \<Rightarrow>
                  Inr \<lparr>rq_method = m, rq_path = p, rq_query = q, rq_headers = hs,
                       rq_body = (if body_bytes = [] then [] else [(0, DataFrame body_bytes)])\<rparr>))"

subsection \<open>The pipe\<close>

text \<open>\<^verbatim>\<open>server::inject\<close>: one request over the pipe, served by \<^const>\<open>handle\<close> with the loopback address. \<^const>\<open>None\<close>:
  the handler never returns.\<close>

definition inject ::
  "('r, 'v, 'd, 'sem) libs \<Rightarrow> inject_ops \<Rightarrow> env \<Rightarrow> (('r, 'v, 'sem) shared \<Rightarrow> ('r, 'v, 'sem) shared)
   \<Rightarrow> (('r, 'v, 'sem) shared \<Rightarrow> bool \<times> ('r, 'v, 'sem) shared) \<Rightarrow> nat \<times> string \<Rightarrow> http_request
   \<Rightarrow> ('r, 'v, 'sem) shared \<Rightarrow> ((string + inject_response) \<times> ('r, 'v, 'sem) shared) option" where
  "inject L J e js wait clock req sh =
     (case ij_handshake J of
        Some err \<Rightarrow> Some (Inl (''inject handshake: '' @ err), sh)
      | None \<Rightarrow>
          (case ij_send J req of
             SendError err \<Rightarrow> Some (Inl (''inject request: '' @ err), sh)
           | Answered status hs b \<Rightarrow>
               Some (Inr \<lparr>ir_status = status, ir_headers = collect_headers hs, ir_body = b\<rparr>, sh)
           | Delivered r \<Rightarrow>
               (case handle L e js wait clock ''127.0.0.1'' r sh of
                  None \<Rightarrow> None
                | Some (h, sh') \<Rightarrow>
                    Some (case ij_head J req (hd_response h) of
                            Inl err \<Rightarrow> Inl (''inject request: '' @ err)
                          | Inr (status, hs) \<Rightarrow>
                              (case ij_body J req (hd_response h) of
                                 Inl err \<Rightarrow> Inl (''inject body: '' @ err)
                               | Inr b \<Rightarrow> Inr \<lparr>ir_status = status, ir_headers = collect_headers hs, ir_body = b\<rparr>),
                          sh'))))"

text \<open>\<^verbatim>\<open>RustServer::inject\<close>. \<open>aborted\<close> is what the task did before the runtime dropped it, if it did.\<close>

definition sv_inject ::
  "('r, 'v, 'd, 'sem) libs \<Rightarrow> inject_ops \<Rightarrow> env \<Rightarrow> (('r, 'v, 'sem) shared \<Rightarrow> ('r, 'v, 'sem) shared)
   \<Rightarrow> (('r, 'v, 'sem) shared \<Rightarrow> bool \<times> ('r, 'v, 'sem) shared) \<Rightarrow> nat \<times> string
   \<Rightarrow> (('r, 'v, 'sem) shared \<Rightarrow> ('r, 'v, 'sem) shared) option
   \<Rightarrow> string \<Rightarrow> string \<Rightarrow> kv_pair list \<Rightarrow> bytes option \<Rightarrow> ('r, 'v, 'sem) rust_server
   \<Rightarrow> ((string + inject_response) \<times> ('r, 'v, 'sem) rust_server) option" where
  "sv_inject L J e js wait clock aborted meth path headers body sv =
     (case sv_state sv of
        None \<Rightarrow> Some (Inl ''inject: server is not running'', sv)
      | Some rn \<Rightarrow>
          (case inject_request (lb_http L) J meth path headers body of
             Inl err \<Rightarrow> Some (Inl err, sv)
           | Inr req \<Rightarrow>
               (case aborted of
                  Some part \<Rightarrow> Some (Inl ''inject: task aborted'', upd_shared (rn_shared rn) part sv)
                | None \<Rightarrow>
                    (case inject L J e js wait clock req (sv_heap sv (rn_shared rn)) of
                       None \<Rightarrow> None
                     | Some (res, sh') \<Rightarrow> Some (res, upd_shared (rn_shared rn) (\<lambda>_. sh') sv)))))"

section \<open>What is documented of the pipe\<close>

text \<open>The headers that frame a message belong to hyper. A header it carries has a name of lower-case
  letters, digits and hyphens, none of those, and a value of visible characters, spaces, tabs and bytes
  above ASCII; a value arrives without the blanks around it.\<close>

definition framing :: "string \<Rightarrow> bool" where
  "framing k \<longleftrightarrow> k \<in> {''content-length'', ''transfer-encoding'', ''connection''}"

definition field_value :: "string \<Rightarrow> bool" where
  "field_value v \<longleftrightarrow> list_all (\<lambda>c. let n = of_char c :: nat in n = 9 \<or> 32 \<le> n \<and> n \<noteq> 127) v"

definition carried_header :: "string \<Rightarrow> string \<Rightarrow> bool" where
  "carried_header k v \<longleftrightarrow> header_token k \<and> to_lowercase k = k \<and> field_value v \<and> \<not> framing k"

definition is_blank :: "char \<Rightarrow> bool" where
  "is_blank c \<longleftrightarrow> (let n = of_char c :: nat in n = 9 \<or> n = 32)"

definition strip_blanks :: "string \<Rightarrow> string" where
  "strip_blanks v = rev (dropWhile is_blank (rev (dropWhile is_blank v)))"

text \<open>A target in origin form, of the characters a URI allows, and the bytes a request takes on the wire,
  with \<open>64\<close> for the version, the line ends and the length header of the client.\<close>

definition uri_char :: "char \<Rightarrow> bool" where
  "uri_char c \<longleftrightarrow> is_ascii_alphanumeric c \<or> c \<in> set ''-._~!$&()*+,;=:@%/''"

definition origin_form :: "string \<Rightarrow> string option \<Rightarrow> bool" where
  "origin_form p q \<longleftrightarrow> starts_with p ''/'' \<and> list_all uri_char p \<and>
     (case q of None \<Rightarrow> True | Some s \<Rightarrow> list_all (\<lambda>c. uri_char c \<or> c = CHR ''?'') s)"

definition headers_size :: "(string \<times> string) list \<Rightarrow> nat" where
  "headers_size hs = sum_list (map (\<lambda>(k, v). length k + length v + 4) hs)"

definition wire_size :: "string \<Rightarrow> string \<Rightarrow> string option \<Rightarrow> kv_pair list \<Rightarrow> bytes \<Rightarrow> nat" where
  "wire_size m p q hs b =
     length m + length p + (case q of None \<Rightarrow> 0 | Some s \<Rightarrow> length s + 1) +
     headers_size (map (\<lambda>h. (kv_key h, kv_value h)) hs) + length b + 64"

text \<open>Requests the pipe carries: a legal method other than \<^verbatim>\<open>CONNECT\<close>, origin form, a host, a body of at most one
  frame, at most 99 headers (hyper takes 100 by default and its client adds one), and no more bytes than the
  buffer of the pipe (\<^verbatim>\<open>duplex(64 * 1024)\<close>), so that the client never waits for a server that may have
  answered already.\<close>

definition sendable :: "inject_ops \<Rightarrow> http_request \<Rightarrow> bool" where
  "sendable J r \<longleftrightarrow> ij_method J (rq_method r) = None \<and> rq_method r \<noteq> ''CONNECT'' \<and>
     origin_form (rq_path r) (rq_query r) \<and> contains_key (rq_headers r) ''host'' \<and>
     list_all (\<lambda>h. carried_header (kv_key h) (kv_value h)) (rq_headers r) \<and> length (rq_headers r) \<le> 99 \<and>
     (rq_body r = [] \<or> (\<exists>b. rq_body r = [(0, DataFrame b)])) \<and>
     wire_size (rq_method r) (rq_path r) (rq_query r) (rq_headers r) (concat (frame_data (rq_body r))) \<le> 64 * 1024"

text \<open>Responses it carries back: a final status other than 205, at most 97 headers (the server adds up to three
  to them) of at most 400000 bytes.\<close>

definition returnable :: "response \<Rightarrow> bool" where
  "returnable res \<longleftrightarrow> 200 \<le> re_status res \<and> re_status res \<le> 999 \<and> re_status res \<noteq> 205 \<and>
     list_all (\<lambda>(k, v). carried_header k v) (re_headers res) \<and> length (re_headers res) \<le> 97 \<and>
     headers_size (re_headers res) \<le> 400000"

text \<open>The body a client reads of a fixed one: none after \<^verbatim>\<open>HEAD\<close>, 204 and 304.\<close>

definition body_seen :: "string \<Rightarrow> response \<Rightarrow> string \<Rightarrow> string" where
  "body_seen m res b = (if m = ''HEAD'' \<or> re_status res = 204 \<or> re_status res = 304 then [] else b)"

text \<open>A sendable request arrives as sent, up to framing headers, the blanks around values and the split of its
  body; a returnable response too.\<close>

definition values_under :: "string \<Rightarrow> kv_pair list \<Rightarrow> string list" where
  "values_under k hs = map kv_value (filter (\<lambda>h. kv_key h = k) hs)"

definition arrives_as :: "http_request \<Rightarrow> http_request \<Rightarrow> bool" where
  "arrives_as r r' \<longleftrightarrow> rq_method r' = rq_method r \<and> rq_path r' = rq_path r \<and> rq_query r' = rq_query r \<and>
     (\<forall>k. framing k \<or> values_under k (rq_headers r') = map strip_blanks (values_under k (rq_headers r))) \<and>
     list_all (\<lambda>(_, fr). \<exists>b. fr = DataFrame b) (rq_body r') \<and>
     concat (frame_data (rq_body r')) = concat (frame_data (rq_body r))"

definition inject_laws :: "inject_ops \<Rightarrow> bool" where
  "inject_laws J \<longleftrightarrow>
     ij_handshake J = None \<and>
     (\<forall>r. sendable J r \<longrightarrow>
        (\<exists>r'. ij_send J r = Delivered r' \<and> arrives_as r r') \<and>
        (\<forall>res. returnable res \<longrightarrow>
           (\<exists>hs. ij_head J r res = Inr (re_status res, hs) \<and>
              (\<forall>(k, v) \<in> set (re_headers res). kv k (strip_blanks v) \<in> set hs)) \<and>
           (\<forall>b. re_body res = Full b \<longrightarrow> ij_body J r res = Inr (body_seen (rq_method r) res b))))"

section \<open>Lemmas\<close>

text \<open>The headers of the request: the given ones with lower-case names, and a host.\<close>

definition given_headers :: "kv_pair list \<Rightarrow> kv_pair list" where
  "given_headers hs =
     map (\<lambda>p. kv (to_lowercase (kv_key p)) (kv_value p)) hs @
     (if list_ex (\<lambda>p. to_lowercase (kv_key p) = ''host'') hs then [] else [kv ''host'' ''inject.local''])"

definition legal_headers :: "kv_pair list \<Rightarrow> bool" where
  "legal_headers hs \<longleftrightarrow>
     list_all (\<lambda>p. header_token (kv_key p) \<and> printable (kv_value p) \<and> \<not> framing (to_lowercase (kv_key p))) hs"

lemma rb_header_legal:
  assumes "http_laws H" and "header_token k" and "printable v"
  shows "rb_header H J k v (Inr (m, u, hs)) = Inr (m, u, hs @ [kv (to_lowercase k) v])"
  using assms by (simp add: rb_header_def http_lawsD [OF assms(1)])

lemma add_headers_legal:
  assumes "http_laws H"
  shows "legal_headers ps \<Longrightarrow> add_headers H J ps has_host (Inr (m, u, hs)) =
     (has_host \<or> list_ex (\<lambda>p. to_lowercase (kv_key p) = ''host'') ps,
      Inr (m, u, hs @ map (\<lambda>p. kv (to_lowercase (kv_key p)) (kv_value p)) ps))"
  by (induction ps arbitrary: has_host hs) (simp_all add: legal_headers_def rb_header_legal [OF assms])

lemma host_legal: "header_token ''host''" "printable ''inject.local''" "to_lowercase ''host'' = ''host''"
  by code_simp+

lemma alphanumeric_lower: "is_ascii_alphanumeric c \<Longrightarrow> is_ascii_alphanumeric (lower_char c)"
  by (auto simp: is_ascii_alphanumeric_def lower_char_def Let_def of_char_of split: if_splits)

lemma lower_hyphen: "lower_char (CHR ''-'') = CHR ''-''"
  by code_simp

lemma header_token_lower: "header_token k \<Longrightarrow> header_token (to_lowercase k)"
  by (auto simp: header_token_def to_lowercase_def list_all_iff alphanumeric_lower lower_hyphen)

lemma printable_field_value: "printable v \<Longrightarrow> field_value v"
  by (auto simp: printable_def field_value_def list_all_iff Let_def)

lemma host_carried: "carried_header ''host'' ''inject.local''"
  by code_simp

lemma given_headers_ok:
  assumes "legal_headers hs"
  shows "contains_key (given_headers hs) ''host''"
    and "list_all (\<lambda>h. carried_header (kv_key h) (kv_value h)) (given_headers hs)"
    and "length (given_headers hs) \<le> length hs + 1"
  using assms host_carried
  by (auto simp: given_headers_def contains_key_def legal_headers_def list_ex_iff list_all_iff carried_header_def
      header_token_lower printable_field_value)

lemma inject_request_legal:
  assumes "http_laws H" and "legal_headers headers" and "ij_method J meth = None" and "ij_uri J path = Inr (p, q)"
  shows "\<exists>r. inject_request H J meth path headers body = Inr r \<and> rq_method r = meth \<and> rq_path r = p \<and>
     rq_query r = q \<and> rq_headers r = given_headers headers \<and>
     (rq_body r = [] \<or> (\<exists>b. rq_body r = [(0, DataFrame b)])) \<and>
     concat (frame_data (rq_body r)) = (case body of None \<Rightarrow> [] | Some b \<Rightarrow> b)"
  using assms(3,4) host_legal
  by (simp add: inject_request_def rb_start_def add_headers_legal [OF assms(1,2)] rb_header_legal [OF assms(1)]
      given_headers_def split: option.splits)

lemma inject_lawsD:
  assumes "inject_laws J"
  shows "ij_handshake J = None"
    and "sendable J r \<Longrightarrow> \<exists>r'. ij_send J r = Delivered r' \<and> arrives_as r r'"
    and "sendable J r \<Longrightarrow> returnable res \<Longrightarrow> \<exists>hs. ij_head J r res = Inr (re_status res, hs) \<and>
      (\<forall>(k, v) \<in> set (re_headers res). kv k (strip_blanks v) \<in> set hs)"
    and "sendable J r \<Longrightarrow> returnable res \<Longrightarrow> re_body res = Full b \<Longrightarrow>
      ij_body J r res = Inr (body_seen (rq_method r) res b)"
  using assms by (auto simp: inject_laws_def)

text \<open>What the caller of \<^verbatim>\<open>inject\<close> gets of a response: its status, its headers as strings, and of a fixed
  body what a client reads; of a streamed one whatever the pipe gives, or its error.\<close>

definition shows_response :: "string \<Rightarrow> response \<Rightarrow> inject_response \<Rightarrow> bool" where
  "shows_response m res ir \<longleftrightarrow> ir_status ir = re_status res \<and>
     (\<forall>b. re_body res = Full b \<longrightarrow> ir_body ir = body_seen m res b) \<and>
     (\<forall>(k, v) \<in> set (re_headers res).
        kv k (case to_str (strip_blanks v) of Some s \<Rightarrow> s | None \<Rightarrow> []) \<in> set (ir_headers ir))"

definition caller_sees :: "string \<Rightarrow> response \<Rightarrow> string + inject_response \<Rightarrow> bool" where
  "caller_sees m res out \<longleftrightarrow>
     (case out of
        Inl err \<Rightarrow> re_body res = Channel \<and> starts_with err ''inject body: ''
      | Inr ir \<Rightarrow> shows_response m res ir)"

lemma collect_headers_mem:
  "kv k v \<in> set hs \<Longrightarrow> kv k (case to_str v of Some s \<Rightarrow> s | None \<Rightarrow> []) \<in> set (collect_headers hs)"
  by (force simp: collect_headers_def)

lemma response_seen:
  assumes "inject_laws J" and "sendable J r0" and "ij_send J r0 = Delivered r" and "returnable (hd_response h)"
    and "handle L e js wait clock ''127.0.0.1'' r sh = Some (h, sh')"
  shows "\<exists>out. inject L J e js wait clock r0 sh = Some (out, sh') \<and> caller_sees (rq_method r0) (hd_response h) out"
proof -
  obtain hs where hs: "ij_head J r0 (hd_response h) = Inr (re_status (hd_response h), hs)"
    "\<forall>(k, v) \<in> set (re_headers (hd_response h)). kv k (strip_blanks v) \<in> set hs"
    using inject_lawsD(3) [OF assms(1,2,4)] by blast
  have hdrs: "\<forall>(k, v) \<in> set (re_headers (hd_response h)).
      kv k (case to_str (strip_blanks v) of Some s \<Rightarrow> s | None \<Rightarrow> []) \<in> set (collect_headers hs)"
    using hs(2) by (auto dest: collect_headers_mem)
  note run = inject_def inject_lawsD(1) [OF assms(1)] assms(3,5) hs(1)
  show ?thesis
  proof (cases "re_body (hd_response h)")
    case (Full b)
    from inject_lawsD(4) [OF assms(1,2,4) this] hdrs Full show ?thesis
      by (simp add: run caller_sees_def shows_response_def)
  next
    case Channel
    then show ?thesis
      using hdrs by (cases "ij_body J r0 (hd_response h)")
        (simp_all add: run caller_sees_def shows_response_def starts_with_def)
  qed
qed

section \<open>Properties\<close>


text \<open>A pipe that trims header values and refuses more than 99 headers, and a listening server.\<close>

definition sample_pipe :: inject_ops where
  "sample_pipe =
     \<lparr>ij_method = (\<lambda>_. None), ij_uri = (\<lambda>s. Inr (s, None)), ij_bad_name = ''invalid HTTP header name'',
      ij_bad_value = ''failed to parse header value'', ij_handshake = None,
      ij_send = (\<lambda>r. if length (rq_headers r) \<le> 99
        then Delivered (r\<lparr>rq_headers := map (\<lambda>h. kv (kv_key h) (strip_blanks (kv_value h))) (rq_headers r)\<rparr>)
        else Answered 431 [] []),
      ij_head = (\<lambda>_ res. Inr (re_status res, map (\<lambda>(k, v). kv k (strip_blanks v)) (re_headers res))),
      ij_body = (\<lambda>r res. case re_body res of Full b \<Rightarrow> Inr (body_seen (rq_method r) res b) | Channel \<Rightarrow> Inl [])\<rparr>"

definition sample_running :: running where
  "sample_running =
     \<lparr>rn_shared = 3, rn_stage = RUNNING, rn_close_deadline = 0, rn_pre_shutdown_delay = 0, rn_target = TcpTarget [],
      rn_admin = None, rn_workers = 1, rn_task = main_task True\<rparr>"

definition sample_listening_server :: "((string \<times> int) list, unit, nat) rust_server" where
  "sample_listening_server =
     \<lparr>sv_state = Some sample_running,
      sv_active = Some 3, sv_heap = (\<lambda>_. sample_shared)\<rparr>"

lemma sample_pipe_laws: "inject_laws sample_pipe"
  by (force simp: inject_laws_def sample_pipe_def arrives_as_def sendable_def values_under_def filter_map comp_def)


end
