(* ===== verification/Disconnect.thy ===== *)
theory Disconnect
  imports Server Crowd
begin

text \<open>
  What a handler is told about the end of its request (\<^verbatim>\<open>AbortSignal\<close> and \<^verbatim>\<open>BodyIo::wait_abort\<close> in
  \<^verbatim>\<open>src/stream.rs\<close>, \<^verbatim>\<open>AbortGuard\<close> and the end of \<^verbatim>\<open>dispatch\<close> in \<^verbatim>\<open>src/server.rs\<close>), among all the other
  requests.

  The state is the crowd of requests together with the future, the signal and the resolved waits of
  one request \<open>i\<close>. The future of \<^verbatim>\<open>dispatch\<close> is running until its await ends; then it completes the
  signal and returns, which drops the guard and fires it, two operations another thread can come
  between. A future that is dropped at its await fires the signal uncompleted. \<^verbatim>\<open>Notify\<close> keeps one
  permit, and a wait that resolves uses it up.
\<close>

section \<open>Definitions\<close>

datatype request_future = Running | Returning | Ended

record 'b watched =
  wt_crowd :: "'b crowd"
  wt_future :: request_future
  wt_signal :: abort_signal
  wt_heard :: "bool list"

definition watch_start :: "'b watched" where
  "watch_start = \<lparr>wt_crowd = crowd_start, wt_future = Running, wt_signal = abort_new, wt_heard = []\<rparr>"

definition is_over :: "stage \<Rightarrow> bool" where
  "is_over st = (case st of Answered _ \<Rightarrow> True | Dropped \<Rightarrow> True | _ \<Rightarrow> False)"

text \<open>Everything but the end of the request \<open>i\<close> is a step of the crowd.\<close>

inductive watch_step :: "nat \<Rightarrow> 'b watched \<Rightarrow> 'b watched \<Rightarrow> bool" for i where
  crowd_moves: "crowd_step (wt_crowd w) c \<Longrightarrow>
    is_over (cr_stage c i) \<longrightarrow> cr_stage c i = cr_stage (wt_crowd w) i \<Longrightarrow> watch_step i w (w\<lparr>wt_crowd := c\<rparr>)"
| response_produced: "request_step i (wt_crowd w) c \<Longrightarrow> cr_stage (wt_crowd w) i = Awaits rid \<Longrightarrow>
    cr_stage c i = Answered x \<Longrightarrow>
    watch_step i w (w\<lparr>wt_crowd := c, wt_future := Returning, wt_signal := complete (wt_signal w)\<rparr>)"
| guard_dropped: "wt_future w = Returning \<Longrightarrow>
    watch_step i w (w\<lparr>wt_future := Ended, wt_signal := fire (wt_signal w)\<rparr>)"
| future_dropped: "request_step i (wt_crowd w) c \<Longrightarrow> cr_stage (wt_crowd w) i = Awaits rid \<Longrightarrow>
    cr_stage c i = Dropped \<Longrightarrow>
    watch_step i w (w\<lparr>wt_crowd := c, wt_future := Ended, wt_signal := fire (wt_signal w)\<rparr>)"
| abort_heard: "wait_abort (io\<lparr>bi_abort := wt_signal w\<rparr>) = Some (v, io') \<Longrightarrow>
    watch_step i w (w\<lparr>wt_signal := bi_abort io', wt_heard := wt_heard w @ [v]\<rparr>)"

section \<open>Lemmas\<close>

lemma is_over_simps [simp]:
  "\<not> is_over Fresh" "\<not> is_over (Ticketed r)" "\<not> is_over (Registered r)" "\<not> is_over (Awaits r)"
  "is_over (Answered x)" "is_over Dropped"
  by (simp_all add: is_over_def)

text \<open>A request that has no ticket yet is fresh, and one that is over stays so.\<close>

interpretation tickets_ahead: invariant crowd_step "\<lambda>s. \<forall>i \<ge> cr_count s. cr_stage s i = Fresh" crowd_start
  by unfold_locales (auto simp: crowd_start_def crowd_step_def request_step_iff js_step_iff)

lemma over_stays:
  assumes "crowd_step s s'" and "\<forall>i \<ge> cr_count s. cr_stage s i = Fresh" and "is_over (cr_stage s i)"
  shows "cr_stage s' i = cr_stage s i"
  using assms by (auto simp: crowd_step_def request_step_iff js_step_iff)

lemma wait_abort_signal:
  "wait_abort (io\<lparr>bi_abort := a\<rparr>) = Some (v, io') \<longleftrightarrow>
     as_permit a \<and> v = as_aborted a \<and> io' = io\<lparr>bi_abort := a\<lparr>as_permit := False\<rparr>\<rparr>"
  by (auto simp: wait_abort_def)

lemma signal_simps [simp]:
  "as_permit abort_new = False" "as_permit (complete a) = as_permit a" "as_permit (fire a) = True"
  "as_aborted abort_new = True" "as_aborted (complete a) = False" "as_aborted (fire a) = as_aborted a"
  by (simp_all add: abort_new_def complete_def fire_def)

lemma abort_after_simps [simp]:
  "as_permit (abort_after f) = True" "as_aborted (abort_after f) \<longleftrightarrow> \<not> f"
  by (simp_all add: abort_after_def)

definition watch_inv :: "nat \<Rightarrow> 'b watched \<Rightarrow> bool" where
  "watch_inv i w \<longleftrightarrow>
     (let st = cr_stage (wt_crowd w) i
      in case wt_future w of
           Running \<Rightarrow> \<not> is_over st \<and> wt_signal w = abort_new \<and> wt_heard w = []
         | Returning \<Rightarrow> (\<exists>x. st = Answered x) \<and> wt_signal w = complete abort_new \<and> wt_heard w = []
         | Ended \<Rightarrow> is_over st \<and>
             (wt_heard w = [] \<and> wt_signal w = abort_after (st \<noteq> Dropped) \<or>
              wt_heard w = [st = Dropped] \<and> \<not> as_permit (wt_signal w)))"

text \<open>The crowd inside is the crowd of requests, so its invariants hold there.\<close>

lemma watch_crowd: "watch_step i w w' \<Longrightarrow> wt_crowd w' = wt_crowd w \<or> crowd_step (wt_crowd w) (wt_crowd w')"
  by (induction rule: watch_step.induct) (auto simp: crowd_step_def)

interpretation watched_crowd: simulation_of_invariant "watch_step i" watch_start crowd_step crowd_start
  "\<lambda>w c. wt_crowd w = c" "\<lambda>s. \<forall>i \<ge> cr_count s. cr_stage s i = Fresh" for i
proof unfold_locales
  show "\<exists>c'. crowd_step\<^sup>*\<^sup>* c c' \<and> wt_crowd w' = c'" if "watch_step i w w'" "wt_crowd w = c" for w w' :: "'b watched" and c
    using watch_crowd [OF that(1)] that(2) by auto
qed (simp add: watch_start_def)

lemma watch_inv_step:
  assumes "watch_step i w w'" and "\<forall>i \<ge> cr_count (wt_crowd w). cr_stage (wt_crowd w) i = Fresh" and "watch_inv i w"
  shows "watch_inv i w'"
  using assms(1)
proof cases
  case (crowd_moves c)
  then show ?thesis using over_stays [OF crowd_moves(2) assms(2), of i] assms(3)
    by (auto simp: watch_inv_def Let_def split: request_future.splits)
next
  case (response_produced c rid x)
  then show ?thesis using assms(3) by (auto simp: watch_inv_def Let_def split: request_future.splits)
next
  case guard_dropped
  then show ?thesis using assms(3) by (auto simp: watch_inv_def Let_def abort_after_def)
next
  case (future_dropped c rid)
  then show ?thesis using assms(3)
    by (auto simp: watch_inv_def Let_def abort_after_def split: request_future.splits)
next
  case (abort_heard io v io')
  then show ?thesis using assms(3)
    by (auto simp: watch_inv_def Let_def wait_abort_signal split: request_future.splits)
qed

interpretation watched: invariant "watch_step i"
  "\<lambda>w. (\<forall>i \<ge> cr_count (wt_crowd w). cr_stage (wt_crowd w) i = Fresh) \<and> watch_inv i w" watch_start for i
proof unfold_locales
  fix w w' :: "'b watched"
  assume "watch_step i w w'" and "(\<forall>i \<ge> cr_count (wt_crowd w). cr_stage (wt_crowd w) i = Fresh) \<and> watch_inv i w"
  then show "(\<forall>i \<ge> cr_count (wt_crowd w'). cr_stage (wt_crowd w') i = Fresh) \<and> watch_inv i w'"
    using watched_crowd.conc.kept [of i w w'] watch_inv_step [of i w w'] by blast
qed (use tickets_ahead.initially in \<open>simp_all add: watch_start_def watch_inv_def crowd_start_def\<close>)

text \<open>A run of the crowd that leaves the request unfinished is one of the watched system.\<close>

lemma crowd_run_watched:
  assumes "crowd_step\<^sup>*\<^sup>* (wt_crowd w) c" and "\<forall>i \<ge> cr_count (wt_crowd w). cr_stage (wt_crowd w) i = Fresh"
    and "\<not> is_over (cr_stage c i)"
  shows "(watch_step i)\<^sup>*\<^sup>* w (w\<lparr>wt_crowd := c\<rparr>)"
  using assms(1,3)
proof (induction rule: rtranclp_induct)
  case (step y z)
  have "\<not> is_over (cr_stage y i)"
    using over_stays [OF step.hyps(2) tickets_ahead.along [OF step.hyps(1) assms(2)], of i] step.prems by auto
  moreover have "watch_step i (w\<lparr>wt_crowd := y\<rparr>) (w\<lparr>wt_crowd := z\<rparr>)"
    using crowd_moves [of "w\<lparr>wt_crowd := y\<rparr>" z i] step by simp
  ultimately show ?case using step.IH by (blast intro: rtranclp.rtrancl_into_rtrancl)
qed simp

section \<open>Properties\<close>

text \<open>C9: A handler that watches its client is told the truth. In every interleaving with other requests,
  responses and cancellations, \<^verbatim>\<open>wait_abort\<close> resolves only after the future of the request ended, at most
  once, and says \<open>True\<close> exactly when that future was dropped before a response was produced; once the
  future has ended the first wait is always ready with that answer, so no handler waits for ever; a future
  that has its response can always end; and if the handler is told that nobody left, the client was given
  the first response to its own ticket (up to \<open>2 ^ 32\<close> tickets).\<close>

theorem wait_abort_tells_the_truth:
  assumes "(watch_step i)\<^sup>*\<^sup>* watch_start w"
  shows "length (wt_heard w) \<le> 1 \<and>
    (\<forall>v \<in> set (wt_heard w). wt_future w = Ended \<and> (v \<longleftrightarrow> cr_stage (wt_crowd w) i = Dropped)) \<and>
    (wt_future w = Ended \<and> wt_heard w = [] \<longrightarrow> wt_signal w = abort_after (cr_stage (wt_crowd w) i \<noteq> Dropped) \<and>
       (\<forall>io. \<exists>io'. wait_abort (io\<lparr>bi_abort := wt_signal w\<rparr>) = Some (cr_stage (wt_crowd w) i = Dropped, io'))) \<and>
    (is_over (cr_stage (wt_crowd w) i) \<and> wt_future w \<noteq> Ended \<longrightarrow>
       watch_step i w (w\<lparr>wt_future := Ended, wt_signal := fire (wt_signal w)\<rparr>)) \<and>
    (False \<in> set (wt_heard w) \<and> cr_count (wt_crowd w) \<le> 2 ^ 32 \<longrightarrow>
       answer (wt_crowd w) i \<noteq> None \<and> cr_stage (wt_crowd w) i = Answered (answer (wt_crowd w) i))"
proof -
  have inv: "watch_inv i w" using watched.always [OF assms] by blast
  have crowd: "crowd_step\<^sup>*\<^sup>* crowd_start (wt_crowd w)" using watched_crowd.follows_reachable [OF assms] by blast
  have "answer (wt_crowd w) i \<noteq> None \<and> cr_stage (wt_crowd w) i = Answered (answer (wt_crowd w) i)"
    if heard: "False \<in> set (wt_heard w)" and n: "cr_count (wt_crowd w) \<le> 2 ^ 32"
  proof -
    obtain x where x: "cr_stage (wt_crowd w) i = Answered x"
      using inv heard by (auto simp: watch_inv_def Let_def is_over_def split: request_future.splits stage.splits)
    have c: "crowd_inv (wt_crowd w)" by (rule inv_reach [OF crowd n])
    have "i < 2 ^ 32" using crowd_invD(2) [OF c, of i] x n by (auto simp: not_le)
    with crowd_invD(3) [OF c, of i] x show ?thesis by (auto simp: request_ok_def)
  qed
  moreover have "watch_step i w (w\<lparr>wt_future := Ended, wt_signal := fire (wt_signal w)\<rparr>)"
    if "is_over (cr_stage (wt_crowd w) i)" and "wt_future w \<noteq> Ended"
    using inv that by (intro guard_dropped) (auto simp: watch_inv_def Let_def split: request_future.splits)
  ultimately show ?thesis
    using inv by (auto simp: watch_inv_def Let_def wait_abort_signal split: request_future.splits)
qed

text \<open>One request that is answered, and one whose client leaves.\<close>

theorem wait_abort_tells_the_truth_witness:
  "\<exists>(w :: unit watched) (w' :: unit watched). wt_heard w = [False] \<and> cr_stage (wt_crowd w) 0 = Answered (Some sample_res) \<and>
     wt_heard w' = [True] \<and> cr_stage (wt_crowd w') 0 = Dropped"
proof -
  let ?io = "body_io_new None True None abort_new"
  have n0: "br_next_id (cr_bridge (crowd_start :: unit crowd)) = 0" "cr_count (crowd_start :: unit crowd) = 0"
    "cr_log (crowd_start :: unit crowd) = []"
    by (simp_all add: crowd_start_def dstart_def bridge_new_def)
  obtain s :: "unit crowd" where s: "crowd_step\<^sup>*\<^sup>* crowd_start s" "cr_stage s 0 = Awaits 0" "cr_since s 0 = 0"
    "cr_log s = []" "cr_count s = 1"
    using crowd_enqueue [of sample_req crowd_start "\<lparr>pd_body = Some (), pd_done = 0\<rparr>"] n0 by (auto simp: sample_req_def)
  let ?t = "s\<lparr>cr_door := set_bridge (respond 0 sample_res (cr_bridge s)) (cr_door s), cr_log := [(0, sample_res)]\<rparr>"
  have t: "crowd_step\<^sup>*\<^sup>* crowd_start ?t" "cr_stage ?t 0 = Awaits 0" "answer ?t 0 = Some sample_res" "cr_count ?t \<le> 2 ^ 32"
    using s responds [of s 0 sample_res] by (auto simp: crowd_step_def answer_def intro: rtranclp.rtrancl_into_rtrancl)
  let ?u = "?t\<lparr>cr_stage := (cr_stage ?t)(0 := Answered (Some sample_res))\<rparr>"
  let ?d = "s\<lparr>cr_stage := (cr_stage s)(0 := Dropped)\<rparr>"
  have "br_done (cr_bridge ?t) 0 = Sent sample_res"
    using crowd_invD(3) [OF inv_reach [OF t(1,4)], of 0] t(2,3) by (simp add: request_ok_def)
  from request_step.answered [OF t(2) this] have u: "request_step 0 ?t ?u" .
  have d: "request_step 0 s ?d" using s(2) by (rule request_step.dropped)
  have run: "(watch_step 0)\<^sup>*\<^sup>* watch_start (watch_start\<lparr>wt_crowd := c\<rparr>)"
    if "crowd_step\<^sup>*\<^sup>* crowd_start c" "cr_stage c 0 = Awaits 0" for c :: "unit crowd"
    using crowd_run_watched [of watch_start c 0] that tickets_ahead.initially by (simp add: watch_start_def)
  have hear: "\<exists>w2. (watch_step 0)\<^sup>*\<^sup>* watch_start w2 \<and> wt_heard w2 = [cr_stage (wt_crowd w1) 0 = Dropped] \<and> wt_crowd w2 = wt_crowd w1"
    if r: "(watch_step 0)\<^sup>*\<^sup>* watch_start w1" and e: "wt_future w1 = Ended" "wt_heard w1 = []" for w1 :: "unit watched"
  proof -
    obtain io' where "wait_abort (?io\<lparr>bi_abort := wt_signal w1\<rparr>) = Some (cr_stage (wt_crowd w1) 0 = Dropped, io')"
      using wait_abort_tells_the_truth [OF r] e by blast
    from rtranclp.rtrancl_into_rtrancl [OF r abort_heard [OF this]] e(2) show ?thesis
      by (intro exI [of _ "w1\<lparr>wt_signal := bi_abort io', wt_heard := wt_heard w1 @ [cr_stage (wt_crowd w1) 0 = Dropped]\<rparr>"]) simp
  qed
  let ?w1 = "watch_start\<lparr>wt_crowd := ?u, wt_future := Ended, wt_signal := fire (complete abort_new)\<rparr>"
  let ?w2 = "watch_start\<lparr>wt_crowd := ?d, wt_future := Ended, wt_signal := fire abort_new\<rparr>"
  have "watch_step 0 (watch_start\<lparr>wt_crowd := ?t\<rparr>)
      (watch_start\<lparr>wt_crowd := ?u, wt_future := Returning, wt_signal := complete abort_new\<rparr>)"
    using response_produced [of 0 "watch_start\<lparr>wt_crowd := ?t\<rparr>" ?u] u t(2) by (simp add: watch_start_def)
  moreover have "watch_step 0 (watch_start\<lparr>wt_crowd := ?u, wt_future := Returning, wt_signal := complete abort_new\<rparr>) ?w1"
    using guard_dropped [of "watch_start\<lparr>wt_crowd := ?u, wt_future := Returning, wt_signal := complete abort_new\<rparr>" 0]
    by simp
  ultimately have 1: "(watch_step 0)\<^sup>*\<^sup>* watch_start ?w1"
    using run [OF t(1,2)] by (meson rtranclp.rtrancl_into_rtrancl)
  have "watch_step 0 (watch_start\<lparr>wt_crowd := s\<rparr>) ?w2"
    using future_dropped [of 0 "watch_start\<lparr>wt_crowd := s\<rparr>" ?d] d s(2) by (simp add: watch_start_def)
  then have 2: "(watch_step 0)\<^sup>*\<^sup>* watch_start ?w2"
    using run [OF s(1,2)] by (meson rtranclp.rtrancl_into_rtrancl)
  have e1: "wt_future ?w1 = Ended" "wt_heard ?w1 = []" and e2: "wt_future ?w2 = Ended" "wt_heard ?w2 = []"
    by (simp_all add: watch_start_def)
  from hear [OF 1 e1] obtain w :: "unit watched" where "wt_heard w = [cr_stage (wt_crowd ?w1) 0 = Dropped]" "wt_crowd w = wt_crowd ?w1"
    by blast
  then have "wt_heard w = [False]" "cr_stage (wt_crowd w) 0 = Answered (Some sample_res)" by simp_all
  moreover from hear [OF 2 e2] obtain w' :: "unit watched" where "wt_heard w' = [cr_stage (wt_crowd ?w2) 0 = Dropped]" "wt_crowd w' = wt_crowd ?w2"
    by blast
  then have "wt_heard w' = [True]" "cr_stage (wt_crowd w') 0 = Dropped" by simp_all
  ultimately show ?thesis by blast
qed

end
