(* ===== verification/Spec2Isabelle.thy ===== *)
theory Spec2Isabelle
  imports Admin Inject Disconnect
begin

text \<open>
  A verification development for the Rust core of \<^verbatim>\<open>@oxide-ts/http\<close>, the crate under \<^verbatim>\<open>src/src\<close>: an HTTP
  server that Node.js loads as a native addon. Rust accepts connections, routes, validates, limits,
  caches and compresses; JavaScript runs the handlers. The two meet in a queue.

  \<^bold>\<open>The parts of the program, and the theories that model them.\<close> A connection is accepted and admitted
  (\<^verbatim>\<open>serve\<close>), may have to show a PROXY header (\<^verbatim>\<open>proxy_protocol.rs\<close>), is watched for idleness
  (\<^verbatim>\<open>idle.rs\<close>) and driven until it ends or the server closes. Every request on it goes through \<^verbatim>\<open>handle\<close>: a
  probe (\<^verbatim>\<open>health.rs\<close>, \<^verbatim>\<open>metrics.rs\<close>), the limiter (\<^verbatim>\<open>overload.rs\<close>), the edge (\<^verbatim>\<open>cors.rs\<close>, the declared
  length), the router (\<^verbatim>\<open>router.rs\<close>) and \<^verbatim>\<open>dispatch\<close>: the response cache (\<^verbatim>\<open>cache.rs\<close>), multipart parsing
  (\<^verbatim>\<open>multipart.rs\<close>), buffering and decoding (\<^verbatim>\<open>compress.rs\<close>), schema validation (\<^verbatim>\<open>schema.rs\<close>), and then the
  hand-over to JavaScript (\<^verbatim>\<open>bridge.rs\<close>, \<^verbatim>\<open>stream.rs\<close>). \<^verbatim>\<open>lib.rs\<close> turns options into that state and owns it.

  \<^item> \<open>Prelude\<close>: words, strings, numbers in decimal and hexadecimal, parsing of integers, association
    lists; the shared simplification rules.
  \<^item> \<open>Contracts\<close>: the locales \<open>gauge\<close> (a counter that goes up and down) and \<open>size_guard\<close> (a reader with a
    limit), interpreted for the metrics gauges, the idle guard, the buffered, streamed and decoded bodies
    and the parts of a form; and the locales of step relations, \<open>stable\<close> (a predicate every step keeps), \<open>invariant\<close>,
    \<open>simulation\<close> and \<open>settling\<close> (every step decreases a measure), interpreted for the doorbell, the crowd of requests, the
    limiter, the response stream, both accept loops and the abort signal. \<open>Cache\<close>, \<open>Router\<close> and \<open>Proxy_Protocol\<close> have their own interfaces (\<open>response_cache\<close>,
    \<open>route_table\<close>, \<open>byte_source\<close>), each interpreted on the model of the code.
  \<^item> \<open>Wire\<close>: the objects that cross to JavaScript (\<^verbatim>\<open>KvPair\<close>, \<^verbatim>\<open>MatchedRequest\<close>, \<^verbatim>\<open>JsResponse\<close>).
  \<^item> \<open>Router\<close>: pattern translation, the trees per method, matching, the list of allowed methods.
  \<^item> \<open>Cache\<close>: keys, eligibility, lookup, store with sweep and eviction, purge.
  \<^item> \<open>Health\<close>, \<open>Cors\<close>, \<open>Metrics\<close>, \<open>Compress\<close>, \<open>Schema\<close>, \<open>Cpu\<close>, \<open>Listener\<close>, \<open>Tls\<close>: one theory per source file.
  \<^item> \<open>Idle\<close>: the activity clock, the watchdog loop and the stream wrapper.
  \<^item> \<open>Overload\<close>: the limiter, its queue, and its callers as an inductive step relation.
  \<^item> \<open>Bridge\<close>: tickets, the pending table, the queue and the doorbell protocol between producers and
    the JavaScript thread, as interleaved steps. \<open>Crowd\<close>: any number of requests on one bridge, each from its ticket
    to its answer or its end, interleaved with everything JavaScript may call. \<open>Disconnect\<close>: what a handler that watches
    its client is told (\<^verbatim>\<open>AbortSignal\<close>), on top of the crowd. Two orders of the library are instantiated: a channel only
    moves up from open, the accept loop only moves forward.
  \<^item> \<open>Multipart\<close>, \<open>Body_Stream\<close>: the parsing task and the body object of JavaScript, request and response.
  \<^item> \<open>Proxy_Protocol\<close>: both header formats over a socket that delivers bytes in any pieces.
  \<^item> \<open>Http\<close>: the helpers of \<^verbatim>\<open>server.rs\<close>: header reading, client address, body reading, response building,
    the probe responses, the line of the access log. \<open>Access_Log\<close>: its queue and writer.
  \<^item> \<open>Server\<close>: \<^verbatim>\<open>dispatch\<close>, \<^verbatim>\<open>route_and_dispatch\<close>, \<^verbatim>\<open>handle_inner\<close>, \<^verbatim>\<open>handle\<close>, composed as the code composes them.
  \<^item> \<open>Config\<close>: from the options of \<^verbatim>\<open>listen()\<close> to the shared state, with the start-up checks: what runs before the
    sockets are bound (\<^const>\<open>prepare\<close>) and after (\<^const>\<open>assemble\<close>).
  \<^item> \<open>Lifecycle\<close>: the builders, \<^verbatim>\<open>drive\<close>, \<^verbatim>\<open>serve_conn\<close>, the accept loop with its drain as a step relation, \<^verbatim>\<open>listen\<close>
    with the sockets and files it binds, and the methods of \<^verbatim>\<open>RustServer\<close> over an explicit store of shared states.
  \<^item> \<open>Admin\<close>: the accept loop and the connections of the admin port (\<^verbatim>\<open>serve_admin\<close>), as a refinement of the main one.
  \<^item> \<open>Inject\<close>: \<^verbatim>\<open>inject\<close>, a request through the pipeline without a socket.
  \<^item> this theory: the properties of the whole pipeline.

  \<^bold>\<open>How the model is built.\<close> Shared state is a record that is passed through; an \<^verbatim>\<open>await\<close> in the middle of a
  function is a cut, and what the rest of the world does meanwhile is an argument (a function on the
  shared state), so the theorems hold for every behaviour of JavaScript and of other requests. The phases of \<^verbatim>\<open>dispatch\<close>
  before the hand-over run as one step; they do not read the bridge (\<open>dispatch_pre_on_bridge\<close>), so steps on it
  during the await of a body commute with them. Atomic
  counters are words and wrap around. Times are naturals in nanoseconds, one reading per use of the clock.
  Errors are values of sum and option types. Third-party code is a parameter: the radix tree (\<^verbatim>\<open>matchit\<close>),
  the JSON library and schema validator, the decoders, the multipart parser, the semaphore, the header and
  status types of \<^verbatim>\<open>http\<close>, the two ends of the in-memory pipe of \<^verbatim>\<open>inject\<close>, the TLS acceptor and the kernel. What is
  relied on is a named hypothesis (\<^const>\<open>http_laws\<close>, \<^const>\<open>sem_laws\<close>, \<^const>\<open>inject_laws\<close>), and the witnesses instantiate the
  parameter with a concrete one.

  \<^bold>\<open>Bounds and fuel.\<close> A decoder is third-party and may never end: \<^const>\<open>decode\<close> has fuel, and its
  termination theorem gives the fuel that is enough for every decoder that makes progress. Readers of a body or
  a form have fuel for the loop of the handler; the number of frames suffices. Everything else is total:
  the loops on sockets end because the bytes do, the watchdog has a measure. Size laws are stated for bodies
  below \<open>2 ^ 64\<close> bytes, the range of the counters; the theorems on many requests for \<open>2 ^ 32\<close> tickets, after which
  a ticket is given out again.

  \<^bold>\<open>What the theorems show.\<close> A request reaches JavaScript exactly once or not at all, with the bytes the client
  sent, and its answer comes back to it; what Rust refuses never wakes JavaScript; a
  handler that waits for its client to leave is told the truth, once; the doorbell loses no request;
  limits (connections, concurrency, queue, body, decoded body, parts, cache) are never passed; a cache hit is
  what an earlier request with an equal key stored; the PROXY parser, the watchdog, the histogram and the
  router agree with their specifications; in any interleaving each request gets the answer to its own ticket and no
  other; \<^verbatim>\<open>listen\<close> reports what it bound; an injected request is handled as one from the network; the admin port is
  limited and closed like the main one; shutdown drains and always can. Some theorems show where the code does
  not do what its comments say; each such theorem states what happens.

  \<^bold>\<open>Not modelled.\<close> hyper, rustls, its PEM reader and tokio themselves; \<^verbatim>\<open>build.rs\<close> (one call); the conversion of
  napi objects; memory ordering (every atomic access is one step); the case mapping of letters outside ASCII. The tests in the sources are not modelled.
\<close>

section \<open>Lemmas across components\<close>

lemma enqueue_counts:
  "br_next_id (enqueue req p b) = br_next_id b"
  "br_rings (enqueue req p b) = br_rings b + (if br_queue b = [] then 1 else 0)"
  by (simp_all add: enqueue_def push_def ring_def)

text \<open>A hand-over on a channel nobody else holds is answered by \<^const>\<open>respond\<close> with its ticket.\<close>

lemma respond_to_enqueued:
  assumes "br_done b (pd_done p) = Open" and "\<forall>q. br_pending b (mr_req_id req) = Some q \<longrightarrow> pd_done q \<noteq> pd_done p"
  shows "br_done (respond (mr_req_id req) res (snd (take_batch (enqueue req p b)))) (pd_done p) = Sent res"
  using assms
  by (auto simp: respond_def take_batch_def enqueue_def push_def ring_def register_def send_done_def split: option.splits)

lemma hand_over_facts:
  assumes "dispatch_pre L e peer leaf d params ih frs hb sh = Some (Inr w, sh')"
  obtains ipc rid v parts where
    "wa_done w = en_done e"
    and "sh_bridge sh' = enqueue (matched_of (br_next_id (sh_bridge sh)) leaf d params ipc rid v)
           \<lparr>pd_body = Some parts, pd_done = en_done e\<rparr> (snd (next_req_id (sh_bridge sh)))"
proof -
  from assms obtain sh3 sh4 buffered key v req_rx mp where c: "same_config sh sh3"
    and bc: "body_channel e leaf buffered hb frs sh3 = (req_rx, sh4)"
    and ho: "hand_over e leaf d params ih
          (client_ip_country (da_headers d) (sh_custom_ip_headers sh) (sh_custom_country_headers sh) peer)
          (request_id (en_uuid e) (da_headers d) (sh_request_id_header sh)) key v req_rx mp sh4 = (w, sh')"
    by (rule dispatch_pre_hand_over)
  have "sh_bridge sh4 = sh_bridge sh" using c body_channel_bridge [OF bc] by (simp add: same_config_def)
  with hand_over_bridge [OF ho] show ?thesis by (intro that) auto
qed

lemma printable_append [simp]: "printable (a @ b) \<longleftrightarrow> printable a \<and> printable b"
  by (auto simp: printable_def)

lemma printable_join: "\<forall>x \<in> set xs. printable x \<Longrightarrow> printable (join '', '' xs)"
proof (induction xs)
  case (Cons x xs)
  have c: "printable '', ''" by code_simp
  show ?case
  proof (cases xs)
    case (Cons y ys)
    then have "join '', '' (x # xs) = (x @ '', '') @ join '', '' xs" by simp
    then show ?thesis using Cons.IH Cons.prems c by (simp only: printable_append) simp
  qed (use Cons.prems in simp)
qed (simp add: printable_def)

text \<open>The policy of the edge appends headers and does nothing else.\<close>

lemma cors_names:
  "(k, v) \<in> set (actual c origin) \<Longrightarrow> header_token k \<and> to_lowercase k = k"
proof -
  have "header_token k \<and> to_lowercase k = k" if "k \<in> {allow_origin, ''access-control-allow-credentials'',
      ''access-control-expose-headers'', ''vary''}" for k
    using that unfolding allow_origin_def by (elim insertE emptyE) (simp_all, code_simp+)
  then show "(k, v) \<in> set (actual c origin) \<Longrightarrow> header_token k \<and> to_lowercase k = k"
    by (auto simp: actual_def opt_header_def allow_credentials_def split: option.splits if_splits)
qed

lemma append_headers:
  fixes H :: http_ops and res :: response
  assumes "\<forall>(k, v) \<in> set kvs. \<forall>k'. ho_name H k = Some k' \<longrightarrow> k' = k"
  shows "\<exists>hs. set hs \<subseteq> set kvs \<and>
    foldl (\<lambda>r (k, v). case ho_name H k of None \<Rightarrow> r
        | Some k' \<Rightarrow> if ho_value H v then r\<lparr>re_headers := re_headers r @ [(k', v)]\<rparr> else r) res kvs =
      res\<lparr>re_headers := re_headers res @ hs\<rparr>"
  using assms
proof (induction kvs arbitrary: res)
  case Nil
  then show ?case by (intro exI [of _ "[]"]) simp
next
  case (Cons kv kvs)
  obtain k v where kv: "kv = (k, v)" by (cases kv)
  have ih: "\<exists>hs. set hs \<subseteq> set kvs \<and>
    foldl (\<lambda>r (k, v). case ho_name H k of None \<Rightarrow> r
        | Some k' \<Rightarrow> if ho_value H v then r\<lparr>re_headers := re_headers r @ [(k', v)]\<rparr> else r) res' kvs =
      res'\<lparr>re_headers := re_headers res' @ hs\<rparr>" for res' :: response
    using Cons by simp
  show ?case
  proof (cases "ho_name H k \<noteq> None \<and> ho_value H v")
    case True
    then have "ho_name H k = Some k" using Cons.prems kv by auto
    moreover obtain hs where "set hs \<subseteq> set kvs" and "foldl (\<lambda>r (k, v). case ho_name H k of None \<Rightarrow> r
        | Some k' \<Rightarrow> if ho_value H v then r\<lparr>re_headers := re_headers r @ [(k', v)]\<rparr> else r)
        (res\<lparr>re_headers := re_headers res @ [(k, v)]\<rparr>) kvs = res\<lparr>re_headers := re_headers res @ (k, v) # hs\<rparr>"
      using ih [of "res\<lparr>re_headers := re_headers res @ [(k, v)]\<rparr>"] by auto
    ultimately show ?thesis using True kv by (intro exI [of _ "(k, v) # hs"]) auto
  next
    case False
    then show ?thesis using ih [of res] kv by (auto split: option.splits if_splits)
  qed
qed

lemma apply_cors_appends:
  assumes laws: "http_laws H"
  shows "\<exists>hs. apply_cors H (Some c) origin res = res\<lparr>re_headers := re_headers res @ hs\<rparr> \<and> set hs \<subseteq> set (actual c origin)"
proof -
  have "\<forall>(k, v) \<in> set (actual c origin). \<forall>k'. ho_name H k = Some k' \<longrightarrow> k' = k"
    using cors_names http_lawsD(2) [OF laws] by fastforce
  from append_headers [OF this, of res] show ?thesis unfolding apply_cors_def by auto
qed

text \<open>Probes: requests that \<^const>\<open>admin_response\<close> answers on the main port.\<close>

definition probe_request :: "health_paths \<Rightarrow> http_request \<Rightarrow> bool" where
  "probe_request p r =
     ((to_uppercase (rq_method r) = ''GET'' \<or> to_uppercase (rq_method r) = ''HEAD'') \<and> rq_path r \<noteq> [] \<and>
      (rq_path r = hp_health p \<or> rq_path r = hp_ready p \<or> rq_path r = hp_metrics p))"

lemma probe_answered:
  "probe_request p r \<Longrightarrow> \<exists>res. admin_response H ss p rd m (to_uppercase (rq_method r)) (rq_path r) = Some res"
  by (auto simp: probe_request_def admin_response_def)

lemma handle_probe:
  assumes "tu_admin_port (sh_tuning sh) = None" and "probe_request (tu_health_paths (sh_tuning sh)) r"
  shows "\<exists>h. handle L e js wait clock peer r sh =
      Some (h, sh\<lparr>sh_metrics := request_finished (to_uppercase (rq_method r)) (of_nat (re_status (hd_response h)))
        (fst clock) (request_started (sh_metrics sh))\<rparr>) \<and>
    admin_response (lb_http L) (lb_show_secs L) (tu_health_paths (sh_tuning sh)) (sh_readiness sh)
      (request_started (sh_metrics sh)) (to_uppercase (rq_method r)) (rq_path r) = Some (hd_response h)"
proof -
  obtain res where "admin_response (lb_http L) (lb_show_secs L) (tu_health_paths (sh_tuning sh)) (sh_readiness sh)
      (request_started (sh_metrics sh)) (to_uppercase (rq_method r)) (rq_path r) = Some res"
    using probe_answered [OF assms(2)] by blast
  then show ?thesis using assms(1) by (simp add: handle_def handle_body_def Let_def)
qed

text \<open>Requests served one after the other.\<close>

definition serve_one ::
  "('r, 'v, 'd, 'sem) libs \<Rightarrow> (('r, 'v, 'sem) shared \<Rightarrow> ('r, 'v, 'sem) shared)
   \<Rightarrow> (('r, 'v, 'sem) shared \<Rightarrow> bool \<times> ('r, 'v, 'sem) shared) \<Rightarrow> string \<Rightarrow> ('r, 'v, 'sem) shared
   \<Rightarrow> env \<times> (nat \<times> string) \<times> http_request \<Rightarrow> ('r, 'v, 'sem) shared" where
  "serve_one L js wait peer sh x =
     (case x of (e, clock, r) \<Rightarrow>
        (case handle L e js wait clock peer r sh of None \<Rightarrow> sh | Some (_, sh') \<Rightarrow> sh'))"

lemma serve_probes:
  assumes "tu_admin_port (sh_tuning sh) = None"
    and "\<forall>(e, clock, r) \<in> set ps. probe_request (tu_health_paths (sh_tuning sh)) r"
  shows "\<exists>m. foldl (serve_one L js wait peer) sh ps = sh\<lparr>sh_metrics := m\<rparr>"
  using assms
proof (induction ps arbitrary: sh)
  case Nil
  show ?case by (intro exI [of _ "sh_metrics sh"]) simp
next
  case (Cons x ps)
  obtain e clock r where x: "x = (e, clock, r)" by (cases x)
  obtain m where m: "serve_one L js wait peer sh x = sh\<lparr>sh_metrics := m\<rparr>"
    using handle_probe [OF Cons.prems(1), of r L e js wait clock peer] Cons.prems(2) x
    by (auto simp: serve_one_def)
  have "\<exists>m'. foldl (serve_one L js wait peer) (sh\<lparr>sh_metrics := m\<rparr>) ps = sh\<lparr>sh_metrics := m\<rparr>\<lparr>sh_metrics := m'\<rparr>"
    by (rule Cons.IH) (use Cons.prems in simp_all)
  then show ?case by (simp add: m)
qed

lemma leaf_cache_of_set: "leaf_cache_of sh leaf = Some c \<Longrightarrow> leaf_cache_of (set_leaf_cache leaf c' sh) leaf = Some c'"
  by (auto simp: leaf_cache_of_def leaf_nth_def set_leaf_cache_def split: if_splits option.splits)

lemma maybe_store_config [simp]: "lc_config (maybe_store c key path res idh t1 t2 pick) = lc_config c"
  by (simp add: maybe_store_def split: option.splits)

text \<open>The counters of the registry that belong to whole requests: from \<open>s\<close> to \<open>s'\<close> the in-flight gauge grows by \<open>i\<close>
  and the number of finished requests by \<open>f\<close>, as the words they are.\<close>

definition accounts :: "u64 \<Rightarrow> u64 \<Rightarrow> ('r, 'v, 'sem) shared \<Rightarrow> ('r, 'v, 'sem) shared \<Rightarrow> bool" where
  "accounts i f s s' \<longleftrightarrow> mt_in_flight (sh_metrics s') = mt_in_flight (sh_metrics s) + i \<and>
     mt_duration_count (sh_metrics s') = mt_duration_count (sh_metrics s) + f"

text \<open>What an await of a request adds: nothing if the request does not reach it; else what the step \<open>js\<close> of all
  others adds at the state where it is reached, which differs from \<open>s0\<close> by \<open>i0\<close> and \<open>f0\<close>.\<close>

definition await_adds ::
  "(('r, 'v, 'sem) shared \<Rightarrow> ('r, 'v, 'sem) shared) \<Rightarrow> u64 \<Rightarrow> u64 \<Rightarrow> ('r, 'v, 'sem) shared \<Rightarrow> u64 \<Rightarrow> u64 \<Rightarrow> bool" where
  "await_adds js i0 f0 s0 i f \<longleftrightarrow> i = 0 \<and> f = 0 \<or> (\<exists>s. accounts i0 f0 s0 s \<and> accounts i f s (js s))"

abbreviation steady :: "('r, 'v, 'sem) shared \<Rightarrow> ('r, 'v, 'sem) shared \<Rightarrow> bool" where
  "steady \<equiv> accounts 0 0"

lemma accounts_refl [simp]: "steady s s"
  by (simp add: accounts_def)

lemma accounts_trans: "accounts i f a b \<Longrightarrow> accounts i' f' b c \<Longrightarrow> accounts (i + i') (f + f') a c"
  by (simp add: accounts_def)

lemma steady_trans: "steady a b \<Longrightarrow> steady b c \<Longrightarrow> steady a c"
  using accounts_trans [of 0 0 a b 0 0 c] by simp

lemma steady_around:
  "steady a b \<Longrightarrow> accounts i f b c \<Longrightarrow> accounts i f a c" "accounts i f a b \<Longrightarrow> steady b c \<Longrightarrow> accounts i f a c"
  using accounts_trans [of 0 0 a b i f c] accounts_trans [of i f a b 0 0 c] by simp_all

lemma accounts_exists: "\<exists>i f. accounts i f s s'"
  by (intro exI [of _ "mt_in_flight (sh_metrics s') - mt_in_flight (sh_metrics s)"]
      exI [of _ "mt_duration_count (sh_metrics s') - mt_duration_count (sh_metrics s)"]) (simp add: accounts_def)

lemma await_adds_none [simp]: "await_adds js i0 f0 s0 0 0"
  by (simp add: await_adds_def)

lemma await_adds_from: "accounts i0 f0 a b \<Longrightarrow> await_adds js i1 f1 b i f \<Longrightarrow> await_adds js (i0 + i1) (f0 + f1) a i f"
  unfolding await_adds_def by (blast intro: accounts_trans)

lemma await_adds_steady: "steady a b \<Longrightarrow> await_adds js i1 f1 b i f \<Longrightarrow> await_adds js i1 f1 a i f"
  using await_adds_from [of 0 0 a b js i1 f1 i f] by simp

lemma bytes_frames [simp]:
  "mt_in_flight (add_request_bytes n m) = mt_in_flight m" "mt_duration_count (add_request_bytes n m) = mt_duration_count m"
  "mt_in_flight (add_response_bytes n m) = mt_in_flight m" "mt_duration_count (add_response_bytes n m) = mt_duration_count m"
  "mt_in_flight (cache_hit m) = mt_in_flight m" "mt_duration_count (cache_hit m) = mt_duration_count m"
  "mt_in_flight (cache_miss m) = mt_in_flight m" "mt_duration_count (cache_miss m) = mt_duration_count m"
  by (simp_all add: add_request_bytes_def add_response_bytes_def cache_hit_def cache_miss_def)

lemma buffer_body_frames:
  "mt_in_flight (snd (buffer_body limit to frs m)) = mt_in_flight m"
  "mt_duration_count (snd (buffer_body limit to frs m)) = mt_duration_count m"
proof -
  have "mt_in_flight (snd (buffer_from limit to buf frs m)) = mt_in_flight m \<and>
      mt_duration_count (snd (buffer_from limit to buf frs m)) = mt_duration_count m" for buf
    by (induction limit to buf frs m rule: buffer_from.induct) (simp_all add: Let_def split: frame.split option.split)
  then show "mt_in_flight (snd (buffer_body limit to frs m)) = mt_in_flight m"
    "mt_duration_count (snd (buffer_body limit to frs m)) = mt_duration_count m" by (simp_all add: buffer_body_def)
qed

lemma read_task_frames:
  "mt_in_flight (snd (read_body_task limit to n got frs m)) = mt_in_flight m \<and>
   mt_duration_count (snd (read_body_task limit to n got frs m)) = mt_duration_count m"
  by (induction limit to n got frs m rule: read_body_task.induct)
    (simp_all add: Let_def split_beta split: frame.split option.split)

lemma accounts_cache_phase: "cache_phase L e leaf d ih rid bh sh = (r, sh') \<Longrightarrow> steady sh sh'"
  by (auto simp: cache_phase_def cached_response_def Let_def accounts_def split: option.splits prod.splits if_splits)

lemma accounts_cond_cache:
  "(if b then cache_phase L e leaf d ih rid bh sh else (x, sh)) = (r, sh') \<Longrightarrow> steady sh sh'"
  by (auto split: if_splits dest: accounts_cache_phase)

lemma accounts_buffer_phase: "buffer_phase L e leaf d ih hb frs sh = Some (r, sh') \<Longrightarrow> steady sh sh'"
  using buffer_body_frames [of "sh_body_limit sh" "tu_body_read_timeout (sh_tuning sh)" frs "sh_metrics sh"]
  by (cases "buffer_body (sh_body_limit sh) (tu_body_read_timeout (sh_tuning sh)) frs (sh_metrics sh)")
    (auto simp: buffer_phase_def accounts_def split: if_splits option.splits sum.splits)

lemma accounts_body_channel: "body_channel e leaf buffered hb frs sh = (rx, sh') \<Longrightarrow> steady sh sh'"
  using read_task_frames [of "sh_body_limit sh" "tu_body_read_timeout (sh_tuning sh)" "en_open e" 0 frs "sh_metrics sh"]
  by (auto simp: body_channel_def accounts_def split: if_splits option.splits prod.splits)

lemma accounts_hand_over: "hand_over e leaf d params ih ipc rid key v rx mp sh = (w, sh') \<Longrightarrow> steady sh sh'"
  by (auto simp: hand_over_def accounts_def split: prod.splits)

lemma accounts_pre: "dispatch_pre L e peer leaf d params ih frs hb sh = Some (r, sh') \<Longrightarrow> steady sh sh'"
  unfolding dispatch_pre_def Let_def
  by (fastforce split: option.splits prod.splits sum.splits
      dest: accounts_cond_cache accounts_buffer_phase accounts_body_channel accounts_hand_over intro: steady_trans)

lemma accounts_finish: "dispatch_finish L e w done sh = (r, sh') \<Longrightarrow> steady sh sh'"
  by (auto simp: dispatch_finish_def build_response_def Let_def accounts_def split: option.splits prod.splits if_splits)

text \<open>The wait for JavaScript is the one await of \<^const>\<open>dispatch\<close>.\<close>

lemma accounts_dispatch:
  assumes "dispatch L e js peer leaf d params ih frs hb sh = Some (r, sh')"
  shows "\<exists>i f. await_adds js 0 0 sh i f \<and> accounts i f sh sh'"
proof -
  from assms obtain x sh1 where pre: "dispatch_pre L e peer leaf d params ih frs hb sh = Some (x, sh1)"
    by (auto simp: dispatch_def split: option.splits)
  show ?thesis
  proof (cases x)
    case (Inl a)
    then show ?thesis using assms pre accounts_pre [OF pre] by (intro exI [of _ 0]) (simp add: dispatch_def)
  next
    case (Inr w)
    then obtain res where fin: "dispatch_finish L e w res (js sh1) = (r, sh')"
      using assms pre by (auto simp: dispatch_def Let_def split: oneshot.splits)
    obtain i f where if': "accounts i f sh1 (js sh1)" using accounts_exists by blast
    then have "await_adds js 0 0 sh i f" using accounts_pre [OF pre] by (auto simp: await_adds_def)
    moreover have "accounts i f sh sh'"
      using accounts_pre [OF pre] if' accounts_finish [OF fin] by (blast intro: steady_around)
    ultimately show ?thesis by blast
  qed
qed

lemma accounts_route:
  assumes "route_and_dispatch L e js peer d frs hb sh = Some (r, sh')"
  shows "\<exists>i f. await_adds js 0 0 sh i f \<and> accounts i f sh sh'"
proof -
  have "sh' = sh \<Longrightarrow> ?thesis" by (intro exI [of _ 0]) simp
  with assms show ?thesis
    by (auto simp: route_and_dispatch_def Let_def split: option.splits if_splits dest: accounts_dispatch)
qed

lemma accounts_inner:
  assumes "handle_inner L e js peer r sh = Some (res, sh')"
  shows "\<exists>i f. await_adds js 0 0 sh i f \<and> accounts i f sh sh'"
proof -
  have "sh' = sh \<Longrightarrow> ?thesis" by (intro exI [of _ 0]) simp
  with assms show ?thesis
    by (auto simp: handle_inner_def Let_def split: option.splits if_splits dest: accounts_route)
qed

lemma accounts_slot:
  assumes "acquire_slot L e wait l sh = (s, sh')"
  shows "\<exists>i f. await_adds (\<lambda>s. snd (wait s)) 0 0 sh i f \<and> accounts i f sh sh'"
proof -
  have lim: "steady a (set_limiter l' a)" for a l' by (simp add: accounts_def set_limiter_def)
  obtain so l' where f: "acquire_fast (lb_sem L) (en_now e) l = (so, l')" by (cases "acquire_fast (lb_sem L) (en_now e) l")
  show ?thesis
  proof (cases so)
    case (Some x)
    with assms lim show ?thesis by (intro exI [of _ 0]) (auto simp: acquire_slot_def f)
  next
    case None
    let ?s = "set_limiter l' sh"
    obtain i f' where d: "accounts i f' ?s (snd (wait ?s))" using accounts_exists by blast
    have "sh' = snd (wait ?s) \<or> (\<exists>l3. sh' = set_limiter l3 (snd (wait ?s)))"
      using assms None by (auto simp: acquire_slot_def f split: option.splits prod.splits)
    then have "accounts i f' sh sh'" using lim d by (blast intro: steady_around)
    moreover have "await_adds (\<lambda>s. snd (wait s)) 0 0 sh i f'" unfolding await_adds_def using lim d by blast
    ultimately show ?thesis by blast
  qed
qed

text \<open>The two awaits of a request in turn.\<close>

lemma accounts_body:
  assumes "handle_body L e js wait peer r sh = Some (res, shed, sh')"
  shows "\<exists>i f i' f'. await_adds (\<lambda>s. snd (wait s)) 0 0 sh i f \<and> await_adds js i f sh i' f' \<and> accounts (i + i') (f + f') sh sh'"
proof -
  let ?adds = "\<lambda>i f i' f'. await_adds (\<lambda>s. snd (wait s)) 0 0 sh i f \<and> await_adds js i f sh i' f' \<and> accounts (i + i') (f + f') sh sh'"
  have rel: "steady a (release_permit L a)" for a
    by (simp add: accounts_def release_permit_def set_limiter_def split: option.splits)
  have rdy: "steady a (a\<lparr>sh_readiness := x\<rparr>)" for a x by (simp add: accounts_def)
  from assms consider (probe) "sh' = sh"
    | (acquired) l sh1 sh2 where "acquire_slot L e wait l sh = (Acquired, sh1)"
        "handle_inner L e js peer r (sh1\<lparr>sh_readiness := set_overloaded (sh_readiness sh1) False\<rparr>) = Some (res, sh2)"
        "sh' = release_permit L sh2"
    | (rejected) l ra sh1 x where "acquire_slot L e wait l sh = (Rejected ra, sh1)" "sh' = sh1\<lparr>sh_readiness := x\<rparr>"
    | (free) "handle_inner L e js peer r sh = Some (res, sh')"
    unfolding handle_body_def Let_def by (auto split: option.splits prod.splits slot.splits)
  then show ?thesis
  proof cases
    case probe
    then have "?adds 0 0 0 0" by simp
    then show ?thesis by blast
  next
    case acquired
    let ?sh1 = "sh1\<lparr>sh_readiness := set_overloaded (sh_readiness sh1) False\<rparr>"
    obtain i f where w: "await_adds (\<lambda>s. snd (wait s)) 0 0 sh i f" "accounts i f sh sh1"
      using accounts_slot [OF acquired(1)] by blast
    obtain i' f' where j: "await_adds js 0 0 ?sh1 i' f'" "accounts i' f' ?sh1 sh2"
      using accounts_inner [OF acquired(2)] by blast
    have s1: "accounts i f sh ?sh1" using w(2) rdy by (rule steady_around(2))
    have "await_adds js i f sh i' f'" using await_adds_from [OF s1 j(1)] by simp
    moreover have "accounts (i + i') (f + f') sh sh'"
      unfolding acquired(3) by (rule steady_around(2) [OF accounts_trans [OF s1 j(2)] rel])
    ultimately show ?thesis using w(1) by blast
  next
    case rejected
    obtain i f where w: "await_adds (\<lambda>s. snd (wait s)) 0 0 sh i f" "accounts i f sh sh1"
      using accounts_slot [OF rejected(1)] by blast
    then have "accounts i f sh sh'" unfolding rejected(2) using rdy by (blast intro: steady_around(2))
    with w(1) have "?adds i f 0 0" by simp
    then show ?thesis by blast
  next
    case free
    from accounts_inner [OF free] obtain i f where "await_adds js 0 0 sh i f" "accounts i f sh sh'" by blast
    then have "?adds 0 0 i f" by simp
    then show ?thesis by blast
  qed
qed

text \<open>What is read depends on the channel of the body alone.\<close>

lemma read_all_channel:
  "bi_req_rx io = bi_req_rx io' \<Longrightarrow> Body_Stream.read_all fuel io acc = Body_Stream.read_all fuel io' acc"
proof (induction fuel arbitrary: io io' acc)
  case (Suc fuel)
  have rd: "fst (read io) = fst (read io') \<and> bi_req_rx (snd (read io)) = bi_req_rx (snd (read io'))"
    using Suc.prems by (auto simp: read_def split: option.splits list.splits body_msg.splits)
  then show ?case
    using Suc.IH [of "snd (read io)" "snd (read io')"]
    by (cases "read io"; cases "read io'") (auto split: sum.splits option.splits)
qed simp

lemma matched_of_request [simp]:
  "mr_method (matched_of rid leaf d params ipc i v) = da_method d"
  "mr_params (matched_of rid leaf d params ipc i v) = params"
  "mr_query (matched_of rid leaf d params ipc i v) = da_query d"
  "mr_query_string (matched_of rid leaf d params ipc i v) = da_query_string d"
  by (simp_all add: matched_of_def split: prod.splits)

section \<open>From the wire to JavaScript\<close>

text \<open>C4: A request that Rust refuses or answers from the cache never wakes JavaScript. Whenever
  \<^verbatim>\<open>dispatch\<close> answers before the hand-over, the queue, the pending table and the doorbell are as
  they were, whatever JavaScript would have done; and the answer is the cache's or one of the
  statuses 400, 408, 413 and 415.\<close>

theorem refusals_never_reach_js:
  assumes "dispatch_pre L e peer leaf d params ih frs hb sh = Some (Inl r, sh')" and "http_laws (lb_http L)"
  shows "dispatch L e js peer leaf d params ih frs hb sh = Some (r, sh') \<and> sh_bridge sh' = sh_bridge sh \<and>
    (from_cache L (sh_request_id_header sh) r \<or> re_status r \<in> {400, 408, 413, 415})"
  using dispatch_pre_early [OF assms(1)] dispatch_pre_early_status [OF assms] assms(1)
  by (simp add: dispatch_def same_config_def)

theorem refusals_never_reach_js_witness:
  "\<exists>r sh'. dispatch sample_libs sample_env id ''1.1.1.1'' 0 (sample_data ''POST'') [] False [] True
       (sample_shared\<lparr>sh_multipart := [Some sample_mp_config]\<rparr>) = Some (r, sh') \<and>
     re_status r = 415 \<and> sh_bridge sh' = bridge_new"
proof -
  let ?sh = "sample_shared\<lparr>sh_multipart := [Some sample_mp_config]\<rparr>"
  have pre: "dispatch_pre sample_libs sample_env ''1.1.1.1'' 0 (sample_data ''POST'') [] False [] True ?sh =
      Some (Inl (status_text 415 ''Unsupported Media Type''), ?sh)"
    by (simp add: dispatch_pre_def Let_def cacheable_def leaf_cache_of_def leaf_multipart_of_def leaf_nth_def
        sample_shared_def multipart_phase_def sample_data_def find_header_def)
  have laws: "http_laws (lb_http sample_libs)" by (simp add: sample_libs_def sample_http_laws)
  from refusals_never_reach_js [OF pre laws, of id] show ?thesis by (simp add: status_text_def sample_shared_def)
qed

text \<open>C1: A request that passes the edge is handed to JavaScript exactly once, and its answer comes
  back to it. The hand-over appends one entry, with the request's own data and the next ticket, to
  the queue, and rings the doorbell exactly when the queue was empty; when JavaScript takes the
  batch and answers that ticket, \<^verbatim>\<open>dispatch\<close> returns the response built from that answer.\<close>

theorem handed_over_exactly_once:
  assumes pre: "dispatch_pre L e peer leaf d params ih frs hb sh = Some (Inr w, sh')"
    and js: "js = (\<lambda>s. s\<lparr>sh_bridge := respond (br_next_id (sh_bridge sh)) res (snd (take_batch (sh_bridge s)))\<rparr>)"
  shows "(\<exists>m. br_queue (sh_bridge sh') = br_queue (sh_bridge sh) @ [m] \<and> mr_req_id m = br_next_id (sh_bridge sh) \<and>
       mr_leaf_id m = leaf \<and> mr_method m = da_method d \<and> mr_path m = da_path d \<and> mr_query m = da_query d \<and>
       mr_params m = params \<and> mr_headers m = da_headers d) \<and>
    br_next_id (sh_bridge sh') = br_next_id (sh_bridge sh) + 1 \<and>
    br_rings (sh_bridge sh') = br_rings (sh_bridge sh) + (if br_queue (sh_bridge sh) = [] then 1 else 0) \<and>
    (br_done (sh_bridge sh) (en_done e) = Open \<and>
     (\<forall>q. br_pending (sh_bridge sh) (br_next_id (sh_bridge sh)) = Some q \<longrightarrow> pd_done q \<noteq> en_done e) \<longrightarrow>
       dispatch L e js peer leaf d params ih frs hb sh = Some (dispatch_finish L e w (Some res) (js sh')))"
proof (intro conjI impI)
  from pre obtain ipc rid v parts where w: "wa_done w = en_done e"
    and b: "sh_bridge sh' = enqueue (matched_of (br_next_id (sh_bridge sh)) leaf d params ipc rid v)
           \<lparr>pd_body = Some parts, pd_done = en_done e\<rparr> (snd (next_req_id (sh_bridge sh)))"
    by (rule hand_over_facts)
  show "\<exists>m. br_queue (sh_bridge sh') = br_queue (sh_bridge sh) @ [m] \<and> mr_req_id m = br_next_id (sh_bridge sh) \<and>
     mr_leaf_id m = leaf \<and> mr_method m = da_method d \<and> mr_path m = da_path d \<and> mr_query m = da_query d \<and>
     mr_params m = params \<and> mr_headers m = da_headers d"
    and "br_next_id (sh_bridge sh') = br_next_id (sh_bridge sh) + 1"
    and "br_rings (sh_bridge sh') = br_rings (sh_bridge sh) + (if br_queue (sh_bridge sh) = [] then 1 else 0)"
    by (simp_all add: b enqueue_fields enqueue_counts)
  assume o: "br_done (sh_bridge sh) (en_done e) = Open \<and>
    (\<forall>q. br_pending (sh_bridge sh) (br_next_id (sh_bridge sh)) = Some q \<longrightarrow> pd_done q \<noteq> en_done e)"
  have "br_done (sh_bridge (js sh')) (en_done e) = Sent res"
    using respond_to_enqueued [of "snd (next_req_id (sh_bridge sh))" "\<lparr>pd_body = Some parts, pd_done = en_done e\<rparr>"
        "matched_of (br_next_id (sh_bridge sh)) leaf d params ipc rid v" res] o
    by (simp add: js b)
  then show "dispatch L e js peer leaf d params ih frs hb sh = Some (dispatch_finish L e w (Some res) (js sh'))"
    by (simp add: dispatch_def pre w Let_def)
qed

lemma sample_hand_over:
  "\<exists>w sh'. dispatch_pre sample_libs e ''1.1.1.1'' 0 (sample_data ''POST'') [] False [(1, DataFrame [1, 2])] True
     sample_shared = Some (Inr w, sh')"
  by (simp add: dispatch_pre_def Let_def cacheable_def leaf_cache_of_def leaf_multipart_of_def leaf_nth_def
      sample_shared_def multipart_phase_def buffer_phase_def needs_schema_body_def needs_cache_body_def
      leaf_schema_of_def schema_phase_def split: prod.splits)

theorem handed_over_exactly_once_witness:
  "\<exists>w sh'. dispatch_pre sample_libs sample_env ''1.1.1.1'' 0 (sample_data ''POST'') [] False [(1, DataFrame [1, 2])] True
       sample_shared = Some (Inr w, sh') \<and> br_rings (sh_bridge sh') = 1 \<and>
     (\<exists>r sh2. dispatch sample_libs sample_env
        (\<lambda>s. s\<lparr>sh_bridge := respond 0 sample_reply (snd (take_batch (sh_bridge s)))\<rparr>) ''1.1.1.1'' 0
        (sample_data ''POST'') [] False [(1, DataFrame [1, 2])] True sample_shared = Some (r, sh2))"
proof -
  from sample_hand_over [of sample_env] obtain w sh' where pre: "dispatch_pre sample_libs sample_env ''1.1.1.1'' 0 (sample_data ''POST'') []
      False [(1, DataFrame [1, 2])] True sample_shared = Some (Inr w, sh')" by blast
  have b: "sh_bridge sample_shared = bridge_new" by (simp add: sample_shared_def)
  note once = handed_over_exactly_once [OF pre refl, where res = sample_reply]
  have "br_rings (sh_bridge sh') = 1" using once by (simp add: b bridge_new_def)
  moreover have "\<exists>r sh2. dispatch sample_libs sample_env
        (\<lambda>s. s\<lparr>sh_bridge := respond 0 sample_reply (snd (take_batch (sh_bridge s)))\<rparr>) ''1.1.1.1'' 0
        (sample_data ''POST'') [] False [(1, DataFrame [1, 2])] True sample_shared = Some (r, sh2)"
    using once by (simp add: b bridge_new_def)
  ultimately show ?thesis using pre by blast
qed

text \<open>C2: The same in the crowd. Take any state that requests and JavaScript can reach together, and let one more request be
  dispatched there. Whatever other requests are handed over, pushed, answered or dropped while it waits, and whatever
  JavaScript takes and answers, in any order: \<^verbatim>\<open>dispatch\<close> returns the response built from the first answer given to
  the request's own ticket since then, and keeps waiting exactly as long as there is none. The bound is the
  number of tickets, \<open>2 ^ 32\<close>.\<close>

theorem dispatch_in_the_crowd:
  assumes "crowd_step\<^sup>*\<^sup>* crowd_start s" and "cr_bridge s = sh_bridge sh" and "en_done e = cr_count s"
    and "dispatch_pre L e peer leaf d params ih frs hb sh = Some (Inr w, sh1)"
  shows "\<exists>s1. crowd_step\<^sup>*\<^sup>* s s1 \<and> cr_bridge s1 = sh_bridge sh1 \<and> cr_log s1 = cr_log s \<and> cr_count s1 = cr_count s + 1 \<and>
    (\<forall>s2. crowd_step\<^sup>*\<^sup>* s1 s2 \<and> cr_count s2 \<le> 2 ^ 32 \<and> cr_bridge s2 = sh_bridge (js sh1) \<longrightarrow>
       dispatch L e js peer leaf d params ih frs hb sh =
         (case map_of (drop (length (cr_log s)) (cr_log s2)) (br_next_id (sh_bridge sh)) of
            None \<Rightarrow> None
          | Some res \<Rightarrow> Some (dispatch_finish L e w (Some res) (js sh1))))"
proof -
  let ?i = "cr_count s" and ?rid = "br_next_id (sh_bridge sh)"
  from hand_over_facts [OF assms(4)] obtain ipc rid v parts where w: "wa_done w = en_done e"
    and b: "sh_bridge sh1 = enqueue (matched_of ?rid leaf d params ipc rid v)
      \<lparr>pd_body = Some parts, pd_done = en_done e\<rparr> (snd (next_req_id (sh_bridge sh)))" by metis
  from crowd_enqueue [of "matched_of ?rid leaf d params ipc rid v" s "\<lparr>pd_body = Some parts, pd_done = en_done e\<rparr>"]
  obtain s1 where s1: "crowd_step\<^sup>*\<^sup>* s s1" "cr_bridge s1 = sh_bridge sh1" "cr_stage s1 ?i = Awaits ?rid"
    "cr_since s1 ?i = length (cr_log s)" "cr_count s1 = ?i + 1"
    "cr_log s1 = cr_log s"
    using assms(2,3) b by auto
  have "dispatch L e js peer leaf d params ih frs hb sh =
      (case map_of (drop (length (cr_log s)) (cr_log s2)) ?rid of
         None \<Rightarrow> None | Some res \<Rightarrow> Some (dispatch_finish L e w (Some res) (js sh1)))"
    if s2: "crowd_step\<^sup>*\<^sup>* s1 s2" "cr_count s2 \<le> 2 ^ 32" "cr_bridge s2 = sh_bridge (js sh1)" for s2
  proof -
    have reach: "crowd_step\<^sup>*\<^sup>* crowd_start s2" by (rule rtranclp_trans [OF rtranclp_trans [OF assms(1) s1(1)] s2(1)])
    note inv = inv_reach [OF reach s2(2)]
    have reg: "has_registered (cr_stage s2 ?i)" "cr_since s2 ?i = length (cr_log s)" "?i < cr_count s2"
      using registered_run [OF s2(1), of ?i] s1(3-5) by simp_all
    have n: "cr_count s \<le> 2 ^ 32" using reg(3) s2(2) by simp
    have "?rid = of_nat ?i" using crowd_invD(1) [OF inv_reach [OF assms(1) n]] assms(2) by simp
    then have ans: "answer s2 ?i = map_of (drop (length (cr_log s)) (cr_log s2)) ?rid" by (simp add: answer_def reg(2))
    have "request_ok s2 ?i" using crowd_invD(3) [OF inv, of ?i] reg(3) s2(2) by simp
    then show ?thesis
      using reg(1) s2(3) ans assms(4) w assms(3)
      by (auto simp: request_ok_def dispatch_def Let_def split: option.splits)
  qed
  with s1 show ?thesis by blast
qed

text \<open>A client waits while JavaScript answers a ticket nobody has, and then its own, twice.\<close>

theorem dispatch_in_the_crowd_witness:
  "\<exists>sh1 w. \<forall>js. sh_bridge (js sh1) = respond 0 sample_reply (respond 9 sample_reply (sh_bridge sh1)) \<longrightarrow>
     dispatch sample_libs (sample_env\<lparr>en_done := 0\<rparr>) js ''1.1.1.1'' 0 (sample_data ''POST'') [] False [(1, DataFrame [1, 2])] True sample_shared =
       Some (dispatch_finish sample_libs (sample_env\<lparr>en_done := 0\<rparr>) w (Some sample_reply) (js sh1))"
proof -
  let ?e = "sample_env\<lparr>en_done := 0\<rparr>"
  from sample_hand_over [of ?e] obtain w sh1 where pre: "dispatch_pre sample_libs ?e ''1.1.1.1'' 0 (sample_data ''POST'') []
      False [(1, DataFrame [1, 2])] True sample_shared = Some (Inr w, sh1)" by blast
  have st: "cr_bridge crowd_start = sh_bridge sample_shared" "en_done ?e = cr_count (crowd_start :: body_parts crowd)"
    by (simp_all add: crowd_start_def dstart_def sample_shared_def)
  let ?say = "\<lambda>rid s. s\<lparr>cr_door := set_bridge (respond rid sample_reply (cr_bridge s)) (cr_door s), cr_log := cr_log s @ [(rid, sample_reply)]\<rparr>"
  have say: "crowd_step s (?say rid s)" for s :: "body_parts crowd" and rid
    using responds [of s rid sample_reply] by (simp add: crowd_step_def)
  have "dispatch sample_libs ?e js ''1.1.1.1'' 0 (sample_data ''POST'') [] False [(1, DataFrame [1, 2])] True sample_shared =
      Some (dispatch_finish sample_libs ?e w (Some sample_reply) (js sh1))"
    if js: "sh_bridge (js sh1) = respond 0 sample_reply (respond 9 sample_reply (sh_bridge sh1))" for js
  proof -
    from dispatch_in_the_crowd [OF rtranclp.rtrancl_refl st pre, of js] obtain s1
      where s1: "cr_bridge s1 = sh_bridge sh1" "cr_log s1 = []" "cr_count s1 = 1"
      and run: "\<And>s2. crowd_step\<^sup>*\<^sup>* s1 s2 \<Longrightarrow> cr_count s2 \<le> 2 ^ 32 \<Longrightarrow> cr_bridge s2 = sh_bridge (js sh1) \<Longrightarrow>
        dispatch sample_libs ?e js ''1.1.1.1'' 0 (sample_data ''POST'') [] False [(1, DataFrame [1, 2])] True sample_shared =
         (case map_of (drop (length (cr_log (crowd_start :: body_parts crowd))) (cr_log s2)) (br_next_id (sh_bridge sample_shared)) of
            None \<Rightarrow> None | Some res \<Rightarrow> Some (dispatch_finish sample_libs ?e w (Some res) (js sh1)))"
      by (auto simp: crowd_start_def)
    let ?s2 = "?say 0 (?say 9 s1)"
    have "crowd_step\<^sup>*\<^sup>* s1 ?s2" using crowd.chain [OF say crowd.chain [OF say rtranclp.rtrancl_refl]] .
    from run [OF this] show ?thesis by (simp add: s1 js crowd_start_def sample_shared_def bridge_new_def)
  qed
  then show ?thesis by blast
qed

text \<open>C3: A handler reads what the client sent. On every route that is not multipart, whether a
  schema or the cache made Rust buffer the body or not, and whatever its encoding and framing, the
  object handed to JavaScript gives the bytes of the body that arrived, or the error the body limit,
  the timeout or a broken connection stand for; a body that arrives clean is given whole exactly
  when it is within the limit.\<close>

theorem handler_reads_client_bytes:
  assumes "dispatch_pre L e peer leaf d params ih frs True sh = Some (Inr w, sh')"
    and "leaf_multipart_of sh leaf = None" and "length (concat (frame_data frs)) < 2 ^ 64"
    and "length frs < en_open e" and "length frs + 1 < fuel"
  shows "\<exists>parts res m m'. fst (take_body (br_next_id (sh_bridge sh)) (sh_bridge sh')) = Some parts \<and>
     buffer_body (sh_body_limit sh) (tu_body_read_timeout (sh_tuning sh)) frs m = (res, m') \<and>
     Body_Stream.read_all fuel (body_io_new (bp_req_rx parts) (bp_resp_tx parts) (bp_mp_rx parts) (bp_abort parts)) [] =
       Some (case res of Inl x \<Rightarrow> Inl (err_reason x) | Inr b \<Rightarrow> Inr b) \<and>
     (clean (tu_body_read_timeout (sh_tuning sh)) frs \<longrightarrow>
        res = (if over_limit (sh_body_limit sh) (length (concat (frame_data frs))) then Inl BodyTooLarge
               else Inr (concat (frame_data frs))))"
proof -
  from assms(1) obtain sh3 sh4 buffered key v req_rx mp where c: "same_config sh sh3"
    and bc: "body_channel e leaf buffered True frs sh3 = (req_rx, sh4)"
    and ho: "hand_over e leaf d params ih
          (client_ip_country (da_headers d) (sh_custom_ip_headers sh) (sh_custom_country_headers sh) peer)
          (request_id (en_uuid e) (da_headers d) (sh_request_id_header sh)) key v req_rx mp sh4 = (w, sh')"
    and raw: "case buffered of None \<Rightarrow> True
         | Some raw \<Rightarrow> True \<and> (\<exists>m m'. buffer_body (sh_body_limit sh) (tu_body_read_timeout (sh_tuning sh)) frs m = (Inr raw, m'))"
    by (rule dispatch_pre_hand_over)
  have cfg: "sh_body_limit sh3 = sh_body_limit sh" "sh_tuning sh3 = sh_tuning sh" "sh_multipart sh3 = sh_multipart sh"
    using c by (simp_all add: same_config_def)
  have mp3: "leaf_multipart_of sh3 leaf = None" using assms(2) cfg by (simp add: leaf_multipart_of_def)
  have b: "sh_bridge sh4 = sh_bridge sh" using c body_channel_bridge [OF bc] by (simp add: same_config_def)
  have raw3: "case buffered of None \<Rightarrow> True | Some raw \<Rightarrow> True \<and>
      (\<exists>m m'. buffer_body (sh_body_limit sh3) (tu_body_read_timeout (sh_tuning sh3)) frs m = (Inr raw, m'))"
    using raw by (auto simp: cfg split: option.splits)
  from body_channel_reads [OF bc raw3 TrueI mp3 assms(3-5), where tx = True and ab = abort_new] cfg
  obtain res m m' where r: "buffer_body (sh_body_limit sh) (tu_body_read_timeout (sh_tuning sh)) frs m = (res, m')"
    "Body_Stream.read_all fuel (body_io_new req_rx True None abort_new) [] = Some (case res of Inl x \<Rightarrow> Inl (err_reason x) | Inr b \<Rightarrow> Inr b)"
    by auto
  have tb: "fst (take_body (br_next_id (sh_bridge sh)) (sh_bridge sh')) = Some (parts_of req_rx mp)"
    using hand_over_takes_body(1) [OF ho] by (simp add: b)
  have rd: "Body_Stream.read_all fuel (body_io_new req_rx True mp abort_new) [] =
      Some (case res of Inl x \<Rightarrow> Inl (err_reason x) | Inr b \<Rightarrow> Inr b)"
    using r(2) read_all_channel [of "body_io_new req_rx True mp abort_new" "body_io_new req_rx True None abort_new" fuel "[]"]
    by (simp add: body_io_new_def)
  have "res = (if over_limit (sh_body_limit sh) (length (concat (frame_data frs))) then Inl BodyTooLarge
      else Inr (concat (frame_data frs)))" if "clean (tu_body_read_timeout (sh_tuning sh)) frs"
    using buffer_body_clean [OF that assms(3), of "sh_body_limit sh" m] r(1) by simp
  with tb r(1) rd show ?thesis by (intro exI [of _ "parts_of req_rx mp"] exI [of _ res] exI [of _ m] exI [of _ m']) (auto simp: parts_of_def)
qed

theorem handler_reads_client_bytes_witness:
  "\<exists>w sh' parts. dispatch_pre sample_libs sample_env ''1.1.1.1'' 0 (sample_data ''POST'') [] False [(1, DataFrame [1, 2])] True
       sample_shared = Some (Inr w, sh') \<and>
     fst (take_body 0 (sh_bridge sh')) = Some parts \<and>
     Body_Stream.read_all 9 (body_io_new (bp_req_rx parts) (bp_resp_tx parts) (bp_mp_rx parts) (bp_abort parts)) [] =
       Some (Inr [1, 2])"
proof -
  from sample_hand_over [of sample_env] obtain w sh' where pre: "dispatch_pre sample_libs sample_env ''1.1.1.1'' 0 (sample_data ''POST'') []
      False [(1, DataFrame [1, 2])] True sample_shared = Some (Inr w, sh')" by blast
  have cfg: "leaf_multipart_of sample_shared 0 = None" "sh_body_limit sample_shared = Some 4"
    "tu_body_read_timeout (sh_tuning sample_shared) = Some 10" "br_next_id (sh_bridge sample_shared) = 0" "en_open sample_env = 9"
    by (simp_all add: leaf_multipart_of_def leaf_nth_def sample_shared_def sample_tuning_def bridge_new_def sample_env_def)
  from handler_reads_client_bytes [OF pre cfg(1), of 9] pre show ?thesis by (auto simp: cfg expired_def)
qed

section \<open>Routing\<close>

text \<open>C10: A request that no route takes gets the status that tells why. When no method serves the path
  it is \<^verbatim>\<open>404\<close>, or the not-found handler when there is one; when another method does, \<^verbatim>\<open>OPTIONS\<close> gets \<^verbatim>\<open>204\<close> and
  any other method \<^verbatim>\<open>405\<close>, with an \<^verbatim>\<open>Allow\<close> header that names only methods the server would serve, at
  least one, and never the refused one. JavaScript is not involved and no state changes.\<close>

theorem unrouted_requests:
  assumes laws: "http_laws (lb_http L)" and ok: "routes_ok (sh_routes sh)"
    and none: "match_route (lb_matchit L) (sh_routes sh) (da_method d) (da_path d) = None"
    and head: "da_method d = ''HEAD'' \<Longrightarrow> match_route (lb_matchit L) (sh_routes sh) ''GET'' (da_path d) = None"
    and pr: "\<forall>x \<in> set (allowed_methods (lb_matchit L) (sh_routes sh) (da_path d)). printable x"
  shows "if \<forall>m. match_route (lb_matchit L) (sh_routes sh) m (da_path d) = None
    then route_and_dispatch L e js peer d frs hb sh =
      (if sh_has_not_found sh then dispatch L e js peer (-1) d [] False frs hb sh
       else Some (status_text 404 ''Not Found'', sh))
    else \<exists>r allow. route_and_dispatch L e js peer d frs hb sh = Some (r, sh) \<and>
        re_status r = (if da_method d = ''OPTIONS'' then 204 else 405) \<and>
        re_headers r = [(''allow'', join '', '' allow)] \<and> allow \<noteq> [] \<and>
        (da_method d \<noteq> ''OPTIONS'' \<longrightarrow> da_method d \<notin> set allow) \<and>
        (\<forall>x \<in> set allow. x = ''OPTIONS'' \<or> match_route (lb_matchit L) (sh_routes sh) x (da_path d) \<noteq> None \<or>
           x = ''HEAD'' \<and> match_route (lb_matchit L) (sh_routes sh) ''GET'' (da_path d) \<noteq> None)"
proof (split if_split, intro conjI impI)
  let ?match = "\<lambda>m. match_route (lb_matchit L) (sh_routes sh) m (da_path d)"
  let ?allow = "allowed_methods (lb_matchit L) (sh_routes sh) (da_path d)"
  have head': "(if da_method d = ''HEAD'' then ?match ''GET'' else None) = None" using head by simp
  show "route_and_dispatch L e js peer d frs hb sh =
      (if sh_has_not_found sh then dispatch L e js peer (-1) d [] False frs hb sh
       else Some (status_text 404 ''Not Found'', sh))" if "\<forall>m. ?match m = None"
    using that rt.allow_empty [OF ok] by (simp add: route_and_dispatch_def none)
  assume "\<not> (\<forall>m. ?match m = None)"
  then obtain m where m: "?match m \<noteq> None" by blast
  have ne: "?allow \<noteq> []" by (rule rt.known_path [OF ok m])
  have pj: "printable (join '', '' ?allow)" using pr by (rule printable_join)
  let ?r = "allow_response (lb_http L) (if da_method d = ''OPTIONS'' then 204 else 405) ?allow
      (if da_method d = ''OPTIONS'' then [] else ''Method Not Allowed'')"
  have run: "route_and_dispatch L e js peer d frs hb sh = Some (?r, sh)"
    using ne head' by (simp add: route_and_dispatch_def none Let_def)
  have "da_method d \<notin> set ?allow" if "da_method d \<noteq> ''OPTIONS''"
    using rt.refused_not_advertised [OF ok none that] head by blast
  with run ne rt.allow_sound [OF ok] allow_legal [OF laws pj]
  show "\<exists>r allow. route_and_dispatch L e js peer d frs hb sh = Some (r, sh) \<and>
        re_status r = (if da_method d = ''OPTIONS'' then 204 else 405) \<and>
        re_headers r = [(''allow'', join '', '' allow)] \<and> allow \<noteq> [] \<and>
        (da_method d \<noteq> ''OPTIONS'' \<longrightarrow> da_method d \<notin> set allow) \<and>
        (\<forall>x \<in> set allow. x = ''OPTIONS'' \<or> ?match x \<noteq> None \<or> x = ''HEAD'' \<and> ?match ''GET'' \<noteq> None)"
    by (intro exI [of _ ?r] exI [of _ ?allow]) auto
qed

theorem unrouted_requests_witness:
  "\<exists>r. route_and_dispatch sample_libs sample_env id ''1.1.1.1'' (sample_data ''PUT'') [] False sample_shared =
       Some (r, sample_shared) \<and> re_status r = 405"
proof -
  have sim: "lb_matchit sample_libs = exact_matchit" "sh_routes sample_shared = sample_routes"
    by (simp_all add: sample_libs_def sample_shared_def)
  have laws: "http_laws (lb_http sample_libs)" by (simp add: sample_libs_def sample_http_laws)
  have ok: "routes_ok (sh_routes sample_shared)" by (simp add: sim sample_routes_ok)
  have d: "da_method (sample_data ''PUT'') = ''PUT''" "da_path (sample_data ''PUT'') = ''/u''"
    by (simp_all add: sample_data_def)
  have none: "match_route (lb_matchit sample_libs) (sh_routes sample_shared) (da_method (sample_data ''PUT''))
      (da_path (sample_data ''PUT'')) = None" unfolding sim d by code_simp
  have some: "match_route (lb_matchit sample_libs) (sh_routes sample_shared) ''GET'' (da_path (sample_data ''PUT'')) \<noteq> None"
    unfolding sim d by code_simp
  have pr: "\<forall>x \<in> set (allowed_methods (lb_matchit sample_libs) (sh_routes sample_shared) (da_path (sample_data ''PUT''))). printable x"
    unfolding sim d by code_simp
  have nh: "da_method (sample_data ''PUT'') \<noteq> ''HEAD''" by (simp add: d)
  from unrouted_requests [OF laws ok none _ pr, of sample_env id "''1.1.1.1''" "[]" False] nh d(1) some
  show ?thesis by (auto split: if_splits)
qed

section \<open>The edge of the server\<close>

text \<open>C20: With a CORS policy, preflights are answered at the edge and every other response keeps its
  status and body. A preflight never reaches routing, the limit check or JavaScript and changes
  nothing; a request whose declared length passes the limit is refused with \<^verbatim>\<open>413\<close> before anything
  is read; and what the policy does to any response is to append some of the headers it grants
  the origin.\<close>

theorem cors_edge:
  assumes "sh_cors sh = Some c" and laws: "http_laws (lb_http L)"
  shows "if is_preflight r then handle_inner L e js peer r sh = Some (preflight_response (lb_http L) c r, sh)
    else \<forall>res sh'. handle_inner L e js peer r sh = Some (res, sh') \<longrightarrow>
      (\<exists>res0 hs. res = res0\<lparr>re_headers := re_headers res0 @ hs\<rparr> \<and>
        set hs \<subseteq> set (actual c (header_str (rq_headers r) ''origin'')) \<and>
        (if declared_too_large (sh_body_limit sh) r then re_status res0 = 413 \<and> sh' = sh
         else route_and_dispatch L e js peer (req_data_of L r) (rq_body r) (request_has_body (rq_headers r)) sh =
                Some (res0, sh')))"
proof (split if_split, intro conjI impI allI)
  show "handle_inner L e js peer r sh = Some (preflight_response (lb_http L) c r, sh)" if "is_preflight r"
    using that assms(1) by (simp add: handle_inner_def Let_def)
  fix res sh' assume np: "\<not> is_preflight r" and run: "handle_inner L e js peer r sh = Some (res, sh')"
  let ?o = "header_str (rq_headers r) ''origin''"
  from run np assms(1) obtain res0 where res: "res = apply_cors (lb_http L) (Some c) ?o res0"
    and res0: "if declared_too_large (sh_body_limit sh) r then re_status res0 = 413 \<and> sh' = sh
         else route_and_dispatch L e js peer (req_data_of L r) (rq_body r) (request_has_body (rq_headers r)) sh = Some (res0, sh')"
    by (auto simp: handle_inner_def Let_def status_text_def split: if_splits option.splits)
  from apply_cors_appends [OF laws, of c ?o res0] res res0
  show "\<exists>res0 hs. res = res0\<lparr>re_headers := re_headers res0 @ hs\<rparr> \<and>
        set hs \<subseteq> set (actual c ?o) \<and>
        (if declared_too_large (sh_body_limit sh) r then re_status res0 = 413 \<and> sh' = sh
         else route_and_dispatch L e js peer (req_data_of L r) (rq_body r) (request_has_body (rq_headers r)) sh =
                Some (res0, sh'))" by blast
qed

definition sample_request :: "string \<Rightarrow> kv_pair list \<Rightarrow> http_request" where
  "sample_request meth hs = \<lparr>rq_method = meth, rq_path = ''/u'', rq_query = None, rq_headers = hs, rq_body = []\<rparr>"

theorem cors_edge_witness:
  "\<exists>r. handle_inner sample_libs sample_env id ''1.1.1.1''
       (sample_request ''OPTIONS'' [kv ''origin'' ''https://ok.com'', kv ''access-control-request-method'' ''PUT''])
       (sample_shared\<lparr>sh_cors := Some (cors_new sample_cors)\<rparr>) = Some (r, sample_shared\<lparr>sh_cors := Some (cors_new sample_cors)\<rparr>)"
proof -
  have laws: "http_laws (lb_http sample_libs)" by (simp add: sample_libs_def sample_http_laws)
  have "is_preflight (sample_request ''OPTIONS'' [kv ''origin'' ''https://ok.com'', kv ''access-control-request-method'' ''PUT''])"
    unfolding is_preflight_def sample_request_def by code_simp
  with cors_edge [OF _ laws, of "sample_shared\<lparr>sh_cors := Some (cors_new sample_cors)\<rparr>" "cors_new sample_cors"]
  show ?thesis by (simp split: if_splits)
qed

text \<open>C11: Overload is handled before the request costs anything, and probes are exempt. A probe on the main
  port is answered whatever the limiter says, without touching it; a request for which there is neither a
  slot nor a place in the queue gets \<^verbatim>\<open>503\<close> with \<^verbatim>\<open>Retry-After\<close>, its connection is told to close, and
  JavaScript never hears of it; readiness then says whether the overload has lasted long enough to shed.\<close>

theorem overload_at_the_edge:
  assumes laws: "http_laws (lb_http L)" and lim: "sh_overload sh = Some l"
    and probe: "probe = (if tu_admin_port (sh_tuning sh) = None
       then admin_response (lb_http L) (lb_show_secs L) (tu_health_paths (sh_tuning sh)) (sh_readiness sh)
              (sh_metrics sh) (to_uppercase (rq_method r)) (rq_path r) else None)"
  shows "case probe of
      Some res \<Rightarrow> handle_body L e js wait peer r sh = Some (res, False, sh)
    | None \<Rightarrow> \<forall>ra l'. acquire_fast (lb_sem L) (en_now e) l = (Some (Rejected ra), l') \<longrightarrow>
        (\<exists>res sh'. handle_body L e js wait peer r sh = Some (res, True, sh') \<and> re_status res = 503 \<and>
          (''retry-after'', show_nat ra) \<in> set (re_headers res) \<and> sh_bridge sh' = sh_bridge sh \<and>
          sh_overload sh' = Some l' \<and> rd_overloaded (sh_readiness sh') = should_shed (en_now e) l')"
proof (cases probe)
  case (Some res)
  then show ?thesis using probe by (simp add: handle_body_def)
next
  case None
  then show ?thesis
    using lim unfolding probe handle_body_def
    by (auto simp: acquire_slot_def set_limiter_def Let_def overloaded_legal [OF laws])
qed

theorem overload_at_the_edge_witness:
  "\<exists>res sh'. handle_body sample_libs sample_env id (\<lambda>s. (False, s)) ''1.1.1.1'' (sample_request ''GET'' []) sample_shared =
     Some (res, True, sh') \<and> re_status res = 503 \<and> br_queue (sh_bridge sh') = []"
proof -
  let ?l = "limiter_new nat_sem 0 0 0 1 None"
  have laws: "http_laws (lb_http sample_libs)" by (simp add: sample_libs_def sample_http_laws)
  have lim: "sh_overload sample_shared = Some ?l" by (simp add: sample_shared_def)
  have up: "to_uppercase ''GET'' = ''GET''" by code_simp
  have p: "(if tu_admin_port (sh_tuning sample_shared) = None
       then admin_response (lb_http sample_libs) (lb_show_secs sample_libs) (tu_health_paths (sh_tuning sample_shared))
         (sh_readiness sample_shared) (sh_metrics sample_shared) (to_uppercase (rq_method (sample_request ''GET'' [])))
         (rq_path (sample_request ''GET'' [])) else None) = None"
    by (simp add: admin_response_def sample_request_def sample_shared_def sample_tuning_def default_health_paths_def)
  obtain l' where a: "acquire_fast (lb_sem sample_libs) (en_now sample_env) ?l = (Some (Rejected 1), l')"
    by (simp add: acquire_fast_def sample_libs_def nat_sem_def limiter_new_def Let_def mark_saturated_def split: option.splits)
  from overload_at_the_edge [OF laws lim refl, where r = "sample_request ''GET'' []" and e = sample_env and js = id
      and wait = "\<lambda>s. (False, s)" and peer = "''1.1.1.1''"] a
  show ?thesis unfolding p by (auto simp: sample_shared_def bridge_new_def)
qed

text \<open>C39: The overload mark on readiness is never taken back by probes. Once a shed has marked the server
  overloaded, every later probe, at any time and in any number, finds it \<^verbatim>\<open>503 overloaded\<close>, although the
  probes pass and the limiter may have every slot free: only a request that is not a probe clears the mark,
  and a balancer that reads the probe sends none.\<close>

theorem probes_never_clear_overload:
  assumes laws: "http_laws (lb_http L)" and admin: "tu_admin_port (sh_tuning sh) = None"
    and paths: "hp_ready (tu_health_paths (sh_tuning sh)) \<noteq> []"
      "hp_health (tu_health_paths (sh_tuning sh)) \<noteq> hp_ready (tu_health_paths (sh_tuning sh))"
    and marked: "rd_overloaded (sh_readiness sh)" "\<not> rd_draining (sh_readiness sh)"
    and probes: "\<forall>(e, clock, r) \<in> set ps. probe_request (tu_health_paths (sh_tuning sh)) r"
    and r: "to_uppercase (rq_method r) = ''GET''" "rq_path r = hp_ready (tu_health_paths (sh_tuning sh))"
  shows "\<exists>h sh'. handle L e js wait clock peer r (foldl (serve_one L js wait peer) sh ps) = Some (h, sh') \<and>
    re_status (hd_response h) = 503 \<and> re_body (hd_response h) = Full ''overloaded''"
proof -
  obtain m where st: "foldl (serve_one L js wait peer) sh ps = sh\<lparr>sh_metrics := m\<rparr>"
    using serve_probes [OF admin probes] by blast
  have "probe_request (tu_health_paths (sh_tuning sh)) r" using r paths by (auto simp: probe_request_def)
  then have "probe_request (tu_health_paths (sh_tuning (sh\<lparr>sh_metrics := m\<rparr>))) r" by simp
  from handle_probe [OF _ this] admin obtain h where h: "handle L e js wait clock peer r (sh\<lparr>sh_metrics := m\<rparr>) =
      Some (h, (sh\<lparr>sh_metrics := m\<rparr>)\<lparr>sh_metrics := request_finished (to_uppercase (rq_method r)) (of_nat (re_status (hd_response h)))
        (fst clock) (request_started (sh_metrics (sh\<lparr>sh_metrics := m\<rparr>)))\<rparr>)"
    and res: "admin_response (lb_http L) (lb_show_secs L) (tu_health_paths (sh_tuning sh)) (sh_readiness sh)
        (request_started m) (to_uppercase (rq_method r)) (rq_path r) = Some (hd_response h)" by fastforce
  have "hd_response h = \<lparr>re_status = 503, re_headers = [text_plain, no_store], re_body = Full ''overloaded''\<rparr>"
    using res probe_ready [OF laws _ paths, of "''GET''"] r marked by (simp add: is_ready_def reason_def)
  with h show ?thesis by (simp add: st)
qed

theorem probes_never_clear_overload_witness:
  "\<exists>h sh'. handle sample_libs sample_env id (\<lambda>s. (False, s)) (0, []) ''1.1.1.1''
      ((sample_request ''GET'' [])\<lparr>rq_path := ''/readyz''\<rparr>)
      (foldl (serve_one sample_libs id (\<lambda>s. (False, s)) ''1.1.1.1'')
        (sample_shared\<lparr>sh_readiness := set_overloaded readiness_default True\<rparr>)
        [(sample_env\<lparr>en_now := 1000000\<rparr>, (5, []), (sample_request ''GET'' [])\<lparr>rq_path := ''/healthz''\<rparr>)]) = Some (h, sh') \<and>
     re_status (hd_response h) = 503"
proof -
  let ?sh = "sample_shared\<lparr>sh_readiness := set_overloaded readiness_default True\<rparr>"
  have laws: "http_laws (lb_http sample_libs)" by (simp add: sample_libs_def sample_http_laws)
  have up: "to_uppercase ''GET'' = ''GET''" by code_simp
  have t: "sh_tuning ?sh = sample_tuning" by (simp add: sample_shared_def)
  have p: "hp_ready (tu_health_paths (sh_tuning ?sh)) \<noteq> []"
    "hp_health (tu_health_paths (sh_tuning ?sh)) \<noteq> hp_ready (tu_health_paths (sh_tuning ?sh))"
    by (simp_all add: t sample_tuning_def default_health_paths_def)
  have "tu_admin_port (sh_tuning ?sh) = None" "rd_overloaded (sh_readiness ?sh)" "\<not> rd_draining (sh_readiness ?sh)"
    by (simp_all add: sample_shared_def sample_tuning_def readiness_default_def)
  note facts = this
  have ps: "\<forall>(e, clock, r) \<in> set [(sample_env\<lparr>en_now := 1000000\<rparr>, (5 :: nat, [] :: string), (sample_request ''GET'' [])\<lparr>rq_path := ''/healthz''\<rparr>)].
      probe_request (tu_health_paths (sh_tuning ?sh)) r"
    by (simp add: t probe_request_def sample_request_def up sample_tuning_def default_health_paths_def)
  have r: "to_uppercase (rq_method ((sample_request ''GET'' [])\<lparr>rq_path := ''/readyz''\<rparr>)) = ''GET''"
    "rq_path ((sample_request ''GET'' [])\<lparr>rq_path := ''/readyz''\<rparr>) = hp_ready (tu_health_paths (sh_tuning ?sh))"
    by (simp_all add: sample_request_def up t sample_tuning_def default_health_paths_def)
  from probes_never_clear_overload [OF laws facts(1) p facts(2,3) ps r] show ?thesis by blast
qed

section \<open>The response cache in the pipeline\<close>

text \<open>What \<^const>\<open>dispatch\<close> puts in the key of a request for its body: nothing for GET and HEAD; for QUERY the hash of
  the buffered body, if it has one, which was read within the limits (and, on a route with a body schema, decoded).\<close>

definition key_hash ::
  "('r, 'v, 'd, 'sem) libs \<Rightarrow> env \<Rightarrow> int \<Rightarrow> req_data \<Rightarrow> bool \<Rightarrow> bool \<Rightarrow> incoming \<Rightarrow> ('r, 'v, 'sem) shared \<Rightarrow> u64 option \<Rightarrow> bool" where
  "key_hash L e leaf d ih hb frs sh bh \<longleftrightarrow>
     (if effective_method ih d = ''QUERY''
      then \<exists>buffered decoded sh'. buffer_phase L e leaf d ih hb frs sh = Some (Inr (buffered, decoded), sh') \<and>
             bh = map_option (lb_hash_bytes L) buffered
      else bh = None)"

text \<open>From \<open>sh\<close> to \<open>sh'\<close> anything may have happened, except that the configuration stayed and that what the cache of
  the leaf holds under the key is the same: it was not purged, evicted, swept or stored again.\<close>

definition keeps_entry :: "int \<Rightarrow> string \<Rightarrow> ('r, 'v, 'sem) shared \<Rightarrow> ('r, 'v, 'sem) shared \<Rightarrow> bool" where
  "keeps_entry leaf key sh sh' \<longleftrightarrow>
     leaf_multipart_of sh' leaf = leaf_multipart_of sh leaf \<and> sh_request_id_header sh' = sh_request_id_header sh \<and>
     (case leaf_cache_of sh leaf of
        None \<Rightarrow> leaf_cache_of sh' leaf = None
      | Some c \<Rightarrow> (\<exists>c'. leaf_cache_of sh' leaf = Some c' \<and> lc_config c' = lc_config c \<and>
                    map_of (lc_store c') key = map_of (lc_store c) key))"

lemma keeps_entry_refl [simp]: "keeps_entry leaf key sh sh"
  by (simp add: keeps_entry_def split: option.split)

lemma cache_key_config: "lc_config c' = lc_config c \<Longrightarrow> cache_key c' = cache_key c"
  by (intro ext) (simp add: cache_key_def)

lemma buffer_phase_frames:
  "buffer_phase L e leaf d ih hb frs sh = Some (x, sh') \<Longrightarrow> \<exists>m. sh' = sh\<lparr>sh_metrics := m\<rparr>"
  by (auto simp: buffer_phase_def split: if_splits prod.splits sum.splits option.splits
      intro: exI [of _ "sh_metrics sh"])

lemma dispatch_finish_state:
  assumes "leaf_cache_of sh (wa_leaf w) = Some c" and "wa_key w = Some (key, path)" and "en_store e = (t1, t2, pick)"
  shows "\<exists>m. snd (dispatch_finish L e w (Some res) sh) =
      (set_leaf_cache (wa_leaf w) (maybe_store c key path res (sh_request_id_header sh) t1 t2 pick) sh)\<lparr>sh_metrics := m\<rparr>"
  using assms by (auto simp: dispatch_finish_def Let_def split: prod.split)

lemma cache_phase_hit:
  assumes "leaf_cache_of sh leaf = Some c"
    and "lookup c (cache_key c (effective_method ih d) (da_path d) (da_query_string d) (da_headers d) bh) (en_now e) = (Some h, c')"
  shows "\<exists>m sh'. cache_phase L e leaf d ih rid bh sh =
      (Inl (fst (cached_response (lb_http L) h ih rid (sh_request_id_header sh) m)), sh') \<and> sh_bridge sh' = sh_bridge sh"
  using assms by (intro exI [of _ "cache_hit (sh_metrics sh)"])
    (simp add: cache_phase_def Let_def set_leaf_cache_def split_beta)

text \<open>C8: A cached route runs its handler once per lifetime of an entry. After the response of a request
  was built and its entry stored under its key, a later request of the same leaf whose effective method is GET, HEAD
  or QUERY, whose key is the same (for a QUERY with a body: with the hash of its body, read and decoded without error), and
  which looks before the entry expires, is answered from the entry, with the stored status, headers and body, its own
  request id and \<^verbatim>\<open>x-cache: hit\<close>, and the bridge is untouched, whatever JavaScript does. In between anything may happen that leaves
  what the cache holds under that key: no purge, eviction, sweep or store that hits it.\<close>

theorem cached_answer_skips_js:
  assumes leaf: "leaf_cache_of sh leaf = Some c" and nomp: "leaf_multipart_of sh leaf = None"
    and w: "wa_leaf w = leaf" "wa_key w = Some (key, path1)"
    and ent: "entry_for (lc_config c) path1 res (sh_request_id_header sh) t1 = Some ent"
    and e1: "en_store e1 = (t1, t2, pick)" and first: "dispatch_finish L e1 w (Some res) sh = (r1, sh1)"
    and kept: "keeps_entry leaf key sh1 sh2"
    and meth: "effective_method ih d \<in> {''GET'', ''HEAD'', ''QUERY''}" and hash: "key_hash L e2 leaf d ih hb frs sh2 bh"
    and key: "key = cache_key c (effective_method ih d) (da_path d) (da_query_string d) (da_headers d) bh"
    and fresh: "en_now e2 < t1 + cc_ttl (lc_config c)"
  shows "\<exists>m sh3. dispatch L e2 js peer leaf d params ih frs hb sh2 =
      Some (fst (cached_response (lb_http L) (hit_of ent) ih
              (request_id (en_uuid e2) (da_headers d) (sh_request_id_header sh)) (sh_request_id_header sh) m), sh3) \<and>
    sh_bridge sh3 = sh_bridge sh2"
proof -
  let ?c1 = "maybe_store c key path1 res (sh_request_id_header sh) t1 t2 pick"
  let ?rid = "request_id (en_uuid e2) (da_headers d) (sh_request_id_header sh)"
  obtain m where sh1: "sh1 = (set_leaf_cache leaf ?c1 sh)\<lparr>sh_metrics := m\<rparr>"
    using dispatch_finish_state [of sh w c key path1 e1 t1 t2 pick L res] first by (auto simp: leaf w e1)
  have c1: "leaf_cache_of sh1 leaf = Some ?c1"
    unfolding sh1 leaf_frames by (rule leaf_cache_of_set [OF leaf])
  obtain c2 where c2: "leaf_cache_of sh2 leaf = Some c2" "lc_config c2 = lc_config c"
    "map_of (lc_store c2) key = map_of (lc_store ?c1) key"
    and cfg: "leaf_multipart_of sh2 leaf = None" "sh_request_id_header sh2 = sh_request_id_header sh"
    using kept c1 nomp by (auto simp: keeps_entry_def sh1 set_leaf_cache_def leaf_multipart_of_def)
  have "fst (lookup ?c1 key (en_now e2)) = Some (hit_of ent)" using lookup_maybe_store [OF ent] fresh by simp
  then have hit: "lookup c2 key (en_now e2) = (Some (hit_of ent), c2)"
    using c2(3) by (auto simp: lookup_def split: option.splits if_splits)
  have cb: "cacheable sh2 leaf (effective_method ih d)" using c2(1) cfg(1) meth by (auto simp: cacheable_def)
  have look: "\<exists>m sh'. cache_phase L e2 leaf d ih ?rid bh s =
      (Inl (fst (cached_response (lb_http L) (hit_of ent) ih ?rid (sh_request_id_header sh) m)), sh') \<and> sh_bridge sh' = sh_bridge s"
    if "leaf_cache_of s leaf = Some c2" "sh_request_id_header s = sh_request_id_header sh" for s
    using cache_phase_hit [OF that(1), where L = L and rid = ?rid and e = e2 and h = "hit_of ent"] hit
    unfolding key cache_key_config [OF c2(2)] that(2) by blast
  show ?thesis
  proof (cases "effective_method ih d = ''QUERY''")
    case False
    with hash have "bh = None" by (simp add: key_hash_def)
    with look [OF c2(1) cfg(2)] False cb show ?thesis
      by (auto simp: dispatch_def dispatch_pre_def Let_def cfg(2))
  next
    case True
    with hash obtain buffered decoded sh' where b: "buffer_phase L e2 leaf d ih hb frs sh2 = Some (Inr (buffered, decoded), sh')"
      and bh: "bh = map_option (lb_hash_bytes L) buffered" by (auto simp: key_hash_def)
    obtain m' where sh': "sh' = sh2\<lparr>sh_metrics := m'\<rparr>" using buffer_phase_frames [OF b] by blast
    have "leaf_cache_of sh' leaf = Some c2" "sh_request_id_header sh' = sh_request_id_header sh" "sh_bridge sh' = sh_bridge sh2"
      using c2(1) cfg(2) by (simp_all add: sh')
    with look [of sh'] True cb b show ?thesis
      by (auto simp: dispatch_def dispatch_pre_def Let_def cfg multipart_phase_def bh)
  qed
qed

text \<open>A GET, and a QUERY with a body, on a leaf with a cache.\<close>

theorem cached_answer_skips_js_witness:
  "\<exists>sh1 sh2 r sh3 r' sh3'. sh1 = snd (dispatch_finish sample_libs (sample_env\<lparr>en_store := (100, 100, 0)\<rparr>)
         \<lparr>wa_leaf = 0, wa_key = Some (cache_key (cache_new sample_config) ''GET'' ''/u'' None [] None, ''/u''), wa_head = False, wa_done = 7\<rparr>
         (Some sample_response) (sample_shared\<lparr>sh_cache := [Some (cache_new sample_config)]\<rparr>)) \<and>
     dispatch sample_libs (sample_env\<lparr>en_now := 105\<rparr>) id ''1.1.1.1'' 0 (sample_data ''GET'') [] False [] False sh1 = Some (r, sh3) \<and>
     sh_bridge sh3 = bridge_new \<and>
     sh2 = snd (dispatch_finish sample_libs (sample_env\<lparr>en_store := (100, 100, 0)\<rparr>)
         \<lparr>wa_leaf = 0, wa_key = Some (cache_key (cache_new sample_config) ''QUERY'' ''/u'' None [] (Some (lb_hash_bytes sample_libs [65])), ''/u''),
          wa_head = False, wa_done = 7\<rparr>
         (Some sample_response) (sample_shared\<lparr>sh_cache := [Some (cache_new sample_config)]\<rparr>)) \<and>
     dispatch sample_libs (sample_env\<lparr>en_now := 105\<rparr>) id ''1.1.1.1'' 0 (sample_data ''QUERY'') [] False [(0, DataFrame [65])] True sh2 =
       Some (r', sh3') \<and> sh_bridge sh3' = bridge_new"
proof -
  let ?sh = "sample_shared\<lparr>sh_cache := [Some (cache_new sample_config)]\<rparr>"
  let ?c = "cache_new sample_config"
  let ?w = "\<lambda>m bh. \<lparr>wa_leaf = 0, wa_key = Some (cache_key ?c m ''/u'' None [] bh, ''/u''), wa_head = False, wa_done = 7\<rparr>"
  let ?e1 = "sample_env\<lparr>en_store := (100, 100, 0)\<rparr>"
  let ?e2 = "sample_env\<lparr>en_now := 105\<rparr>"
  let ?after = "\<lambda>m bh. snd (dispatch_finish sample_libs ?e1 (?w m bh) (Some sample_response) ?sh)"
  obtain ent where ent: "entry_for (lc_config ?c) ''/u'' sample_response (sh_request_id_header ?sh) 100 = Some ent"
  proof -
    have "entry_for (lc_config ?c) ''/u'' sample_response ''x-request-id'' 100 \<noteq> None" by code_simp
    then show ?thesis using that by (auto simp: sample_shared_def)
  qed
  have leaf: "leaf_cache_of ?sh 0 = Some ?c" "leaf_multipart_of ?sh 0 = None"
    by (simp_all add: leaf_cache_of_def leaf_multipart_of_def leaf_nth_def sample_shared_def)
  have eff: "effective_method False (sample_data m) = m" for m by (simp add: effective_method_def sample_data_def)
  have key: "cache_key ?c m ''/u'' None [] bh = cache_key ?c (effective_method False (sample_data m)) (da_path (sample_data m))
       (da_query_string (sample_data m)) (da_headers (sample_data m)) bh" for m bh
    by (simp add: effective_method_def sample_data_def)
  have e: "en_store ?e1 = (100, 100, 0)" "en_now ?e2 < 100 + cc_ttl (lc_config ?c)"
    by (simp_all add: cache_new_def sample_config_def)
  have w: "wa_leaf (?w m bh) = 0" "wa_key (?w m bh) = Some (cache_key ?c m ''/u'' None [] bh, ''/u'')" for m bh
    by simp_all
  have bridge: "sh_bridge (?after m bh) = bridge_new" for m bh
    by (simp add: dispatch_finish_def Let_def set_leaf_cache_def sample_shared_def split: prod.split option.split)
  have hit: "\<exists>r sh3. dispatch sample_libs ?e2 id ''1.1.1.1'' 0 (sample_data m) [] False frs hb (?after m bh) = Some (r, sh3) \<and>
      sh_bridge sh3 = bridge_new"
    if "m \<in> {''GET'', ''HEAD'', ''QUERY''}" "key_hash sample_libs ?e2 0 (sample_data m) False hb frs (?after m bh) bh" for m bh frs hb
    using cached_answer_skips_js [OF leaf w ent e(1) surjective_pairing keeps_entry_refl _ that(2) key e(2),
        of "id" "''1.1.1.1''" "[]"] that(1) eff [of m] bridge [of m bh] by auto
  have get: "key_hash sample_libs ?e2 0 (sample_data ''GET'') False False [] (?after ''GET'' None) None"
    by (simp add: key_hash_def effective_method_def sample_data_def)
  have query: "key_hash sample_libs ?e2 0 (sample_data ''QUERY'') False True [(0, DataFrame [65])]
      (?after ''QUERY'' (Some (lb_hash_bytes sample_libs [65]))) (Some (lb_hash_bytes sample_libs [65]))"
  proof -
    let ?bh = "Some (lb_hash_bytes sample_libs [65])"
    obtain c' m where after: "?after ''QUERY'' ?bh = (set_leaf_cache 0 c' ?sh)\<lparr>sh_metrics := m\<rparr>"
      using dispatch_finish_state [of ?sh "?w ''QUERY'' ?bh" ?c _ _ ?e1 100 100 0, unfolded w, OF leaf(1) refl e(1)] by blast
    define st where "st = (set_leaf_cache 0 c' ?sh)\<lparr>sh_metrics := m\<rparr>"
    have "leaf_cache_of st 0 = Some c'"
      unfolding st_def leaf_frames by (rule leaf_cache_of_set [OF leaf(1)])
    moreover have st: "sh_multipart st = []" "sh_schemas st = []" "sh_body_limit st = Some 4" "sh_tuning st = sample_tuning"
      by (simp_all add: st_def set_leaf_cache_def sample_shared_def)
    ultimately have "needs_cache_body st 0 ''QUERY'' True" "\<not> needs_schema_body st 0 True"
      by (simp_all add: needs_cache_body_def needs_schema_body_def cacheable_def leaf_schema_of_def leaf_multipart_of_def leaf_nth_def)
    then show ?thesis
      unfolding after st_def [symmetric] key_hash_def eff
      by (simp add: buffer_phase_def eff buffer_body_def buffer_feed_def expired_def Let_def st sample_tuning_def)
  qed
  obtain r sh3 where 1: "dispatch sample_libs ?e2 id ''1.1.1.1'' 0 (sample_data ''GET'') [] False [] False (?after ''GET'' None) = Some (r, sh3)"
    "sh_bridge sh3 = bridge_new" using hit [OF _ get] by blast
  obtain r' sh3' where 2: "dispatch sample_libs ?e2 id ''1.1.1.1'' 0 (sample_data ''QUERY'') [] False [(0, DataFrame [65])] True
      (?after ''QUERY'' (Some (lb_hash_bytes sample_libs [65]))) = Some (r', sh3')" "sh_bridge sh3' = bridge_new"
    using hit [OF _ query] by blast
  show ?thesis by (intro exI conjI, rule refl, rule 1(1), rule 1(2), rule refl, rule 2(1), rule 2(2))
qed

section \<open>Accounting\<close>

text \<open>C29: Every request that is answered is accounted exactly once, whatever happens inside (a probe, an
  overload, a refusal, a cached or a computed answer) and whatever other requests start or finish
  while it waits in the queue of the limiter and for JavaScript. At both awaits the in-flight gauge counts this request; from
  before to after it, the gauge and the number of finished requests change by what the others added at the awaits it
  reached and, of its own, by nothing and by one. When they add nothing there, the gauge is back at its value.\<close>

theorem answered_requests_accounted:
  assumes "handle L e js wait clock peer r sh = Some (h, sh')"
  shows "\<exists>i f i' f'. await_adds (\<lambda>s. snd (wait s)) 1 0 sh i f \<and> await_adds js (1 + i) f sh i' f' \<and>
    accounts (i + i') (f + f' + 1) sh sh'"
proof -
  let ?s0 = "sh\<lparr>sh_metrics := request_started (sh_metrics sh)\<rparr>"
  from assms obtain res shed sh1 where b: "handle_body L e js wait peer r ?s0 = Some (res, shed, sh1)"
    and sh': "sh_metrics sh' = request_finished (to_uppercase (rq_method r)) (of_nat (re_status res)) (fst clock) (sh_metrics sh1)"
    by (auto simp: handle_def Let_def split: option.splits)
  have start: "accounts 1 0 sh ?s0" by (simp add: accounts_def request_started_def)
  from accounts_body [OF b] obtain i f i' f' where w: "await_adds (\<lambda>s. snd (wait s)) 0 0 ?s0 i f"
    "await_adds js i f ?s0 i' f'" "accounts (i + i') (f + f') ?s0 sh1" by blast
  have "accounts (i + i') (f + f' + 1) sh sh'"
    using w(3) by (simp add: sh' accounts_def request_started_def request_finished_def Let_def)
  with await_adds_from [OF start w(1)] await_adds_from [OF start w(2)] show ?thesis by auto
qed

theorem answered_requests_accounted_witness:
  "\<exists>h sh'. handle sample_libs sample_env id (\<lambda>s. (False, s)) (3000, ''3'') ''1.1.1.1''
      ((sample_request ''GET'' [])\<lparr>rq_path := ''/healthz''\<rparr>) sample_shared = Some (h, sh') \<and>
     mt_in_flight (sh_metrics sh') = 0 \<and> mt_duration_count (sh_metrics sh') = 1"
proof -
  let ?r = "(sample_request ''GET'' [])\<lparr>rq_path := ''/healthz''\<rparr>"
  have "to_uppercase ''GET'' = ''GET''" by code_simp
  then have "probe_request (tu_health_paths (sh_tuning sample_shared)) ?r"
    by (simp add: probe_request_def sample_request_def sample_shared_def sample_tuning_def default_health_paths_def)
  from handle_probe [OF _ this] obtain h sh' where run: "handle sample_libs sample_env id (\<lambda>s. (False, s)) (3000, ''3'')
      ''1.1.1.1'' ?r sample_shared = Some (h, sh')"
    by (fastforce simp: sample_shared_def sample_tuning_def)
  from answered_requests_accounted [OF run] run show ?thesis
    by (auto simp: await_adds_def accounts_def sample_shared_def metrics_new_def)
qed

end
